(* ===== verification/Prelude.thy ===== *)
theory Prelude
  imports Main "HOL-Library.Word" "HOL-Library.AList" "HOL-Library.List_Lexorder"
    "HOL-Library.Code_Target_Nat"
begin

text \<open>
  Shared vocabulary of the development: Rust's fixed-width integers as words, the
  integer methods of the standard library that the sources call (\<open>overflowing_add\<close>,
  \<open>checked_sub\<close>, \<open>saturating_add\<close>, \<open>to_be_bytes\<close>, \<open>leading_zeros\<close> and their kin),
  the hash maps of the sources as association lists with distinct keys, and the
  generic lemmas about them that every component uses. A \<open>Result\<close> of the sources is
  a sum whose left injection is the error.
\<close>

unbundle bit_operations_syntax

named_theorems word_val \<open>values of words under the integer methods of the sources\<close>
named_theorems hm_simps \<open>lookups after updates of a hash map\<close>

type_synonym u8 = "8 word"
type_synonym u16 = "16 word"
type_synonym u32 = "32 word"
type_synonym u64 = "64 word"
type_synonym u128 = "128 word"
type_synonym i32 = "32 word"
type_synonym i64 = "64 word"
type_synonym bytes = "u8 list"

section \<open>Integer methods\<close>

definition overflowing_add :: "'a::len word \<Rightarrow> 'a word \<Rightarrow> 'a word \<times> bool" where
  "overflowing_add a b = (a + b, 2 ^ LENGTH('a) \<le> unat a + unat b)"

definition overflowing_sub :: "'a::len word \<Rightarrow> 'a word \<Rightarrow> 'a word \<times> bool" where
  "overflowing_sub a b = (a - b, a < b)"

definition checked_add_w :: "'a::len word \<Rightarrow> 'a word \<Rightarrow> 'a word option" where
  "checked_add_w a b = (if unat a + unat b < 2 ^ LENGTH('a) then Some (a + b) else None)"

definition checked_sub_w :: "'a::len word \<Rightarrow> 'a word \<Rightarrow> 'a word option" where
  "checked_sub_w a b = (if b \<le> a then Some (a - b) else None)"

definition checked_mul_w :: "'a::len word \<Rightarrow> 'a word \<Rightarrow> 'a word option" where
  "checked_mul_w a b = (if unat a * unat b < 2 ^ LENGTH('a) then Some (a * b) else None)"

definition saturating_add_w :: "'a::len word \<Rightarrow> 'a word \<Rightarrow> 'a word" where
  "saturating_add_w a b = (case checked_add_w a b of Some c \<Rightarrow> c | None \<Rightarrow> - 1)"

definition saturating_sub_w :: "'a::len word \<Rightarrow> 'a word \<Rightarrow> 'a word" where
  "saturating_sub_w a b = (case checked_sub_w a b of Some c \<Rightarrow> c | None \<Rightarrow> 0)"

definition saturating_mul_w :: "'a::len word \<Rightarrow> 'a word \<Rightarrow> 'a word" where
  "saturating_mul_w a b = (case checked_mul_w a b of Some c \<Rightarrow> c | None \<Rightarrow> - 1)"

definition from_bool_w :: "bool \<Rightarrow> 'a::len word" where
  "from_bool_w b = (if b then 1 else 0)"

lemma unat_lt [simp]: "unat (a :: 'a::len word) < 2 ^ LENGTH('a)"
  by (rule unsigned_less)

lemma unat_minus_one_word_max: "unat (- 1 :: 'a::len word) = 2 ^ LENGTH('a) - 1"
  by (simp add: unsigned_minus_1_eq_mask mask_eq_exp_minus_1)

lemma overflowing_add_val [word_val]:
  "overflowing_add a b = (s, c) \<Longrightarrow>
   unat (s :: 'a::len word) + (if c then 2 ^ LENGTH('a) else 0) = unat a + unat b"
  by (auto simp: overflowing_add_def unat_plus_if')

lemma overflowing_sub_val [word_val]:
  "overflowing_sub a b = (d, c) \<Longrightarrow>
   unat (d :: 'a::len word) + unat b = unat a + (if c then 2 ^ LENGTH('a) else 0)"
proof -
  assume "overflowing_sub a b = (d, c)"
  then have d: "d = a - b" and c: "c = (unat a < unat b)"
    by (auto simp: overflowing_sub_def word_less_nat_alt)
  have "unat b \<le> unat a + 2 ^ LENGTH('a)" using unat_lt [of b] by linarith
  then show ?thesis unfolding d c
    by (auto simp: unat_sub_if')
qed

lemma checked_add_w_Some:
  "checked_add_w a b = Some c \<longleftrightarrow> unat (c :: 'a::len word) = unat a + unat b"
proof
  assume "unat c = unat a + unat b"
  moreover have "unat c < 2 ^ LENGTH('a)" by simp
  ultimately show "checked_add_w a b = Some c"
    by (auto simp: checked_add_w_def unat_plus_if' intro: word_unat_eq_iff [THEN iffD2])
qed (auto simp: checked_add_w_def unat_plus_if' split: if_splits)

lemma checked_sub_w_Some:
  "checked_sub_w a b = Some c \<longleftrightarrow> unat (c :: 'a::len word) + unat b = unat a"
proof
  assume *: "unat c + unat b = unat a"
  then have "b \<le> a" by (simp add: word_le_nat_alt)
  moreover from * this have "a - b = c"
    by (intro word_unat_eq_iff [THEN iffD2]) (simp add: unat_sub)
  ultimately show "checked_sub_w a b = Some c" by (simp add: checked_sub_w_def)
qed (auto simp: checked_sub_w_def unat_sub word_le_nat_alt split: if_splits)

lemma checked_mul_w_Some:
  "checked_mul_w a b = Some c \<longleftrightarrow> unat (c :: 'a::len word) = unat a * unat b"
proof
  assume *: "unat c = unat a * unat b"
  have "unat c < 2 ^ LENGTH('a)" by simp
  with * have lt: "unat a * unat b < 2 ^ LENGTH('a)" by simp
  then have "unat (a * b) = unat c" using * by (simp add: unat_word_ariths)
  then have "a * b = c" by (rule word_unat_eq_iff [THEN iffD2])
  with lt show "checked_mul_w a b = Some c" by (simp add: checked_mul_w_def)
qed (auto simp: checked_mul_w_def unat_word_ariths split: if_splits)

lemma saturating_add_w_val [word_val]:
  "unat (saturating_add_w a (b :: 'a::len word)) = min (unat a + unat b) (2 ^ LENGTH('a) - 1)"
  by (auto simp: saturating_add_w_def checked_add_w_def unat_plus_if' unat_minus_one_word_max)

lemma saturating_sub_w_val [word_val]:
  "unat (saturating_sub_w a (b :: 'a::len word)) = unat a - unat b"
  by (auto simp: saturating_sub_w_def checked_sub_w_def unat_sub word_le_nat_alt)

lemma saturating_mul_w_val [word_val]:
  "unat (saturating_mul_w a (b :: 'a::len word)) = min (unat a * unat b) (2 ^ LENGTH('a) - 1)"
  by (auto simp: saturating_mul_w_def checked_mul_w_def unat_word_ariths unat_minus_one_word_max)

lemma from_bool_w_val [word_val]: "unat (from_bool_w b :: 'a::len word) = (if b then 1 else 0)"
  by (simp add: from_bool_w_def)

lemma digit_unique:
  fixes a b x y m :: nat
  assumes "a < m" "b < m" "a + m * x = b + m * y"
  shows "a = b" and "x = y"
proof -
  have "(a + m * x) mod m = a" "(b + m * y) mod m = b"
    using assms(1,2) by simp_all
  with assms(3) show "a = b" by simp
  with assms(1,3) show "x = y" by simp
qed

text \<open>\<open>Ord::cmp\<close>.\<close>

datatype ordering = Less | Equal | Greater

definition cmp_lin :: "'a::linorder \<Rightarrow> 'a \<Rightarrow> ordering" where
  "cmp_lin a b = (if a < b then Less else if a = b then Equal else Greater)"

section \<open>Bit lengths\<close>

text \<open>
  \<open>leading_zeros\<close> and \<open>trailing_zeros\<close> of the integer types count zero bits. Both are
  given through the position of the highest and lowest set bit of the value.
\<close>

fun bit_length :: "nat \<Rightarrow> nat" where
  "bit_length n = (if n = 0 then 0 else Suc (bit_length (n div 2)))"

declare bit_length.simps [simp del]

fun low_zeros :: "nat \<Rightarrow> nat \<Rightarrow> nat" where
  "low_zeros w n = (if w = 0 then 0 else if odd n then 0 else Suc (low_zeros (w - 1) (n div 2)))"

declare low_zeros.simps [simp del]

definition leading_zeros_w :: "'a::len word \<Rightarrow> nat" where
  "leading_zeros_w w = LENGTH('a) - bit_length (unat w)"

definition trailing_zeros_w :: "'a::len word \<Rightarrow> nat" where
  "trailing_zeros_w w = low_zeros LENGTH('a) (unat w)"

lemma bit_length_0 [simp]: "bit_length 0 = 0"
  by (simp add: bit_length.simps [of 0])

lemma bit_length_eq_0 [simp]: "bit_length n = 0 \<longleftrightarrow> n = 0"
  by (subst bit_length.simps) simp

lemma bit_length_upper: "n < 2 ^ bit_length n"
proof (induction n rule: bit_length.induct)
  case (1 n)
  show ?case
  proof (cases "n = 0")
    case False
    with "1" have "n div 2 < 2 ^ bit_length (n div 2)" by simp
    then have "n < 2 * 2 ^ bit_length (n div 2)" by linarith
    with False show ?thesis by (simp add: bit_length.simps [of n])
  qed simp
qed

lemma bit_length_lower: "0 < n \<Longrightarrow> 2 ^ (bit_length n - 1) \<le> n"
proof (induction n rule: bit_length.induct)
  case (1 n)
  show ?case
  proof (cases "n div 2 = 0")
    case True
    with "1.prems" have "n = 1" by linarith
    then show ?thesis by (simp add: bit_length.simps [of "Suc 0"])
  next
    case False
    with "1" have IH: "2 ^ (bit_length (n div 2) - 1) \<le> n div 2" by simp
    have "0 < bit_length (n div 2)" using False by (intro Nat.gr0I) simp
    then have "(2::nat) ^ bit_length (n div 2) = 2 * 2 ^ (bit_length (n div 2) - 1)"
      by (cases "bit_length (n div 2)") auto
    with IH have "2 ^ bit_length (n div 2) \<le> n" by linarith
    with "1.prems" show ?thesis by (simp add: bit_length.simps [of n])
  qed
qed

lemma bit_length_le_iff: "bit_length n \<le> k \<longleftrightarrow> n < 2 ^ k"
proof
  assume "bit_length n \<le> k"
  then have "(2::nat) ^ bit_length n \<le> 2 ^ k" by (simp add: power_increasing)
  with bit_length_upper [of n] show "n < 2 ^ k" by linarith
next
  assume lt: "n < 2 ^ k"
  show "bit_length n \<le> k"
  proof (rule ccontr)
    assume "\<not> bit_length n \<le> k"
    then have k: "k \<le> bit_length n - 1" and "0 < n" by (auto intro: Nat.gr0I)
    have "(2::nat) ^ k \<le> 2 ^ (bit_length n - 1)" using k by (simp add: power_increasing)
    also have "\<dots> \<le> n" using \<open>0 < n\<close> by (rule bit_length_lower)
    finally show False using lt by simp
  qed
qed

lemma bit_length_mono: "m \<le> n \<Longrightarrow> bit_length m \<le> bit_length n"
  using bit_length_le_iff [of m "bit_length n"] bit_length_upper [of n] by simp

lemma bit_length_unat [simp]: "bit_length (unat (w :: 'a::len word)) \<le> LENGTH('a)"
  by (simp add: bit_length_le_iff)

lemma low_zeros_dvd: "2 ^ low_zeros w n dvd n"
proof (induction w n rule: low_zeros.induct)
  case (1 w n)
  show ?case
  proof (cases "w = 0 \<or> odd n")
    case False
    then have "2 ^ low_zeros (w - 1) (n div 2) dvd n div 2" using "1" by simp
    then have "2 * 2 ^ low_zeros (w - 1) (n div 2) dvd 2 * (n div 2)" by (rule mult_dvd_mono [OF dvd_refl])
    with False show ?thesis by (simp add: low_zeros.simps [of w n])
  qed (auto simp: low_zeros.simps [of w n])
qed

lemma low_zeros_le: "low_zeros w n \<le> w"
  by (induction w n rule: low_zeros.induct) (subst low_zeros.simps, auto simp: Suc_le_eq)

section \<open>Byte order\<close>

text \<open>
  \<open>to_be_bytes\<close> and \<open>to_le_bytes\<close> of the integer types: the base-256 digits of the value.
\<close>

fun le_digits :: "nat \<Rightarrow> nat \<Rightarrow> bytes" where
  "le_digits 0 v = []"
| "le_digits (Suc n) v = of_nat (v mod 256) # le_digits n (v div 256)"

fun le_val :: "bytes \<Rightarrow> nat" where
  "le_val [] = 0"
| "le_val (b # bs) = unat b + 256 * le_val bs"

definition to_le_bytes_w :: "'a::len word \<Rightarrow> bytes" where
  "to_le_bytes_w w = le_digits (LENGTH('a) div 8) (unat w)"

definition to_be_bytes_w :: "'a::len word \<Rightarrow> bytes" where
  "to_be_bytes_w w = rev (to_le_bytes_w w)"

definition from_le_bytes_w :: "bytes \<Rightarrow> 'a::len word" where
  "from_le_bytes_w bs = of_nat (le_val bs)"

definition from_be_bytes_w :: "bytes \<Rightarrow> 'a::len word" where
  "from_be_bytes_w bs = from_le_bytes_w (rev bs)"

lemma length_le_digits [simp]: "length (le_digits n v) = n"
  by (induction n arbitrary: v) auto

lemma unat_of_nat_byte [simp]: "unat (of_nat (v mod 256) :: u8) = v mod 256"
  by (simp add: unat_of_nat)

lemma le_val_digits: "le_val (le_digits n v) = v mod 256 ^ n"
proof (induction n arbitrary: v)
  case (Suc n)
  then show ?case by (simp add: mod_mult2_eq)
qed simp

lemma le_val_lt: "le_val bs < 256 ^ length bs"
proof (induction bs)
  case (Cons b bs)
  have "unat b < 256" using unat_lt [of b] by simp
  with Cons show ?case by simp
qed simp

lemma le_digits_val: "le_digits (length bs) (le_val bs) = bs"
proof (induction bs)
  case (Cons b bs)
  have b: "unat b < 256" using unat_lt [of b] by simp
  then have "(unat b + 256 * le_val bs) mod 256 = unat b"
    and "(unat b + 256 * le_val bs) div 256 = le_val bs" by simp_all
  with Cons show ?case by simp
qed simp

lemma le_val_append: "le_val (xs @ ys) = le_val xs + 256 ^ length xs * le_val ys"
  by (induction xs) (auto simp: algebra_simps)

lemma le_val_inj: "length xs = length ys \<Longrightarrow> le_val xs = le_val ys \<Longrightarrow> xs = ys"
  by (metis le_digits_val)

section \<open>Hash maps\<close>

text \<open>
  A \<open>HashMap\<close>, \<open>BTreeMap\<close> or \<open>DashMap\<close> of the sources is an association list with distinct
  keys; the order of the list stands for the map's iteration order, which the sources
  leave unspecified for the hashed kinds.
\<close>

type_synonym ('k, 'v) hmap = "('k \<times> 'v) list"

definition hm_get :: "('k, 'v) hmap \<Rightarrow> 'k \<Rightarrow> 'v option" where
  "hm_get m k = map_of m k"

definition hm_insert :: "'k \<Rightarrow> 'v \<Rightarrow> ('k, 'v) hmap \<Rightarrow> ('k, 'v) hmap" where
  "hm_insert k v m = AList.update k v m"

definition hm_remove :: "'k \<Rightarrow> ('k, 'v) hmap \<Rightarrow> ('k, 'v) hmap" where
  "hm_remove k m = AList.delete k m"

definition hm_retain :: "('k \<Rightarrow> 'v \<Rightarrow> bool) \<Rightarrow> ('k, 'v) hmap \<Rightarrow> ('k, 'v) hmap" where
  "hm_retain P m = filter (\<lambda>(k, v). P k v) m"

definition hm_keys :: "('k, 'v) hmap \<Rightarrow> 'k list" where
  "hm_keys m = map fst m"

definition hm_wf :: "('k, 'v) hmap \<Rightarrow> bool" where
  "hm_wf m \<longleftrightarrow> distinct (map fst m)"

text \<open>Collecting an iterator of pairs into a map: later pairs overwrite earlier ones.\<close>

definition hm_collect :: "('k \<times> 'v) list \<Rightarrow> ('k, 'v) hmap" where
  "hm_collect kvs = fold (\<lambda>(k, v) m. hm_insert k v m) kvs []"

text \<open>The contract of a map, and what its clients derive from it.\<close>

locale finite_map =
  fixes get :: "'m \<Rightarrow> 'k \<Rightarrow> 'v option"
    and ins :: "'k \<Rightarrow> 'v \<Rightarrow> 'm \<Rightarrow> 'm"
    and rem :: "'k \<Rightarrow> 'm \<Rightarrow> 'm"
    and wf :: "'m \<Rightarrow> bool"
    and emp :: 'm
  assumes get_emp: "get emp k = None"
    and get_ins: "get (ins k v m) k' = (if k' = k then Some v else get m k')"
    and get_rem: "wf m \<Longrightarrow> get (rem k m) k' = (if k' = k then None else get m k')"
    and wf_emp: "wf emp"
    and wf_ins: "wf m \<Longrightarrow> wf (ins k v m)"
    and wf_rem: "wf m \<Longrightarrow> wf (rem k m)"
begin

lemma get_fold_ins:
  "get (fold (\<lambda>(k, v) m. ins k v m) kvs m) k =
   (case map_of (rev kvs) k of Some v \<Rightarrow> Some v | None \<Rightarrow> get m k)"
proof (induction kvs arbitrary: m)
  case (Cons kv kvs)
  then show ?case by (cases kv) (simp add: get_ins map_add_def split: option.split)
qed simp

lemma wf_fold_ins: "wf m \<Longrightarrow> wf (fold (\<lambda>(k, v) m. ins k v m) kvs m)"
  by (induction kvs arbitrary: m) (auto simp: wf_ins)

lemma get_ins_rem: "wf m \<Longrightarrow> get (rem k (ins k v m)) k' = get (rem k m) k'"
  by (simp add: get_rem get_ins wf_ins)

end

interpretation hm: finite_map hm_get hm_insert hm_remove hm_wf "[]"
  by unfold_locales
    (simp_all add: hm_get_def hm_insert_def hm_remove_def hm_wf_def update_conv' delete_conv'
       distinct_update distinct_delete)

lemmas hm_laws [hm_simps] = hm.get_emp hm.get_ins hm.get_rem hm.wf_emp hm.wf_ins hm.wf_rem

lemma hm_collect_get: "hm_get (hm_collect kvs) k = map_of (rev kvs) k"
  by (simp add: hm_collect_def hm.get_fold_ins hm.get_emp split: option.splits)

lemma hm_collect_wf [simp]: "hm_wf (hm_collect kvs)"
  by (simp add: hm_collect_def hm.wf_fold_ins hm.wf_emp)

lemma hm_insert_fresh: "hm_get m k = None \<Longrightarrow> hm_insert k v m = m @ [(k, v)]"
  unfolding hm_get_def hm_insert_def by (induction m) (auto split: if_splits)

lemma hm_get_in: "hm_wf m \<Longrightarrow> hm_get m k = Some v \<longleftrightarrow> (k, v) \<in> set m"
  by (simp add: hm_get_def hm_wf_def)

lemma hm_get_mem: "hm_get m k = Some v \<Longrightarrow> (k, v) \<in> set m"
  by (simp add: hm_get_def map_of_SomeD)

lemma hm_get_keys: "hm_get m k \<noteq> None \<longleftrightarrow> k \<in> set (hm_keys m)"
  by (simp add: hm_get_def hm_keys_def map_of_eq_None_iff)

lemma hm_insert_same: "hm_get m k = Some v \<Longrightarrow> hm_insert k v m = m"
  unfolding hm_get_def hm_insert_def by (induction m) (auto split: if_splits)

lemma hm_collect_append_fresh:
  "distinct (map fst (m @ kvs)) \<Longrightarrow> fold (\<lambda>(k, v) m. hm_insert k v m) kvs m = m @ kvs"
proof (induction kvs arbitrary: m)
  case (Cons kv kvs)
  obtain k v where kv: "kv = (k, v)" by fastforce
  have "hm_get m k = None" using Cons.prems by (auto simp: kv hm_get_def map_of_eq_None_iff)
  then have "hm_insert k v m = m @ [kv]" by (simp add: kv hm_insert_fresh)
  then show ?case using Cons.IH [of "m @ [kv]"] Cons.prems by (simp add: kv)
qed simp

lemma hm_collect_id: "hm_wf m \<Longrightarrow> hm_collect m = m"
  using hm_collect_append_fresh [of "[]" m] by (simp add: hm_collect_def hm_wf_def)

lemma hm_retain_wf: "hm_wf m \<Longrightarrow> hm_wf (hm_retain P m)"
  unfolding hm_wf_def hm_retain_def by (induction m) auto

lemma hm_retain_get:
  assumes "hm_wf m"
  shows "hm_get (hm_retain P m) k =
    (case hm_get m k of Some v \<Rightarrow> if P k v then Some v else None | None \<Rightarrow> None)"
proof -
  have "hm_get (hm_retain P m) k = Some v \<longleftrightarrow> hm_get m k = Some v \<and> P k v" for v
    using hm_retain_wf [OF assms, of P] assms by (simp add: hm_get_in) (auto simp: hm_retain_def)
  note iff = this
  show ?thesis
  proof (cases "hm_get (hm_retain P m) k")
    case None
    then show ?thesis using iff by (simp split: option.splits)
  next
    case (Some v)
    then have "hm_get m k = Some v \<and> P k v" using iff by blast
    then show ?thesis using Some by simp
  qed
qed

text \<open>Totals over the values of a map.\<close>

definition hm_sum :: "('v \<Rightarrow> nat) \<Rightarrow> ('k, 'v) hmap \<Rightarrow> nat" where
  "hm_sum f m = sum_list (map (\<lambda>(k, v). f v) m)"

lemma hm_sum_insert:
  "hm_sum f (hm_insert k v m) + (case hm_get m k of None \<Rightarrow> 0 | Some x \<Rightarrow> f x) = hm_sum f m + f v"
  unfolding hm_sum_def hm_get_def hm_insert_def
  by (induction m) (auto split: option.splits)

lemma hm_sum_get_le: "hm_get m k = Some x \<Longrightarrow> f x \<le> hm_sum f m"
  unfolding hm_sum_def hm_get_def by (induction m) (auto split: if_splits)

lemma last_of_distinct:
  assumes "distinct (map fst xs)"
  shows "map_of (rev xs) k = Some v \<longleftrightarrow> (k, v) \<in> set xs"
  using assms map_of_eq_Some_iff [of "rev xs" k v] by (simp add: rev_map [symmetric])

section \<open>Ordered maps\<close>

text \<open>
  A \<open>BTreeMap\<close> whose iteration order matters: the association list sorted by key. Two such
  lists with the same lookups are the same list.
\<close>

fun bt_insert :: "'k::linorder \<Rightarrow> 'v \<Rightarrow> ('k \<times> 'v) list \<Rightarrow> ('k \<times> 'v) list" where
  "bt_insert k v [] = [(k, v)]"
| "bt_insert k v ((k', v') # m) =
     (if k < k' then (k, v) # (k', v') # m
      else if k = k' then (k, v) # m
      else (k', v') # bt_insert k v m)"

definition bt_collect :: "('k::linorder \<times> 'v) list \<Rightarrow> ('k \<times> 'v) list" where
  "bt_collect pairs = fold (\<lambda>(k, v). bt_insert k v) pairs []"

definition bt_wf :: "('k::linorder \<times> 'v) list \<Rightarrow> bool" where
  "bt_wf m \<longleftrightarrow> sorted_wrt (<) (map fst m)"

lemma map_of_bt_insert: "bt_wf m \<Longrightarrow> map_of (bt_insert k v m) = (map_of m)(k \<mapsto> v)"
  by (induction m) (auto simp: bt_wf_def fun_eq_iff)

lemma set_bt_insert: "fst ` set (bt_insert k v m) = insert k (fst ` set m)"
proof (induction m)
  case (Cons kv m)
  then show ?case by (cases kv) (simp add: insert_commute)
qed simp

lemma bt_wf_insert: "bt_wf m \<Longrightarrow> bt_wf (bt_insert k v m)"
proof (induction m)
  case (Cons kv m)
  obtain k' v' where kv: "kv = (k', v')" by fastforce
  have m: "bt_wf m" and lt: "\<forall>x \<in> fst ` set m. k' < x" using Cons.prems by (auto simp: bt_wf_def kv)
  consider "k < k'" | "k = k'" | "k' < k" by fastforce
  then show ?case
  proof cases
    case 3
    then have "\<forall>x \<in> fst ` set (bt_insert k v m). k' < x" using lt by (simp add: set_bt_insert)
    then show ?thesis using Cons.IH [OF m] 3 by (auto simp: bt_wf_def kv)
  qed (use Cons.prems lt in \<open>auto simp: bt_wf_def kv\<close>)
qed (simp add: bt_wf_def)

lemma bt_fold_wf_map:
  "bt_wf m \<Longrightarrow>
   bt_wf (fold (\<lambda>(k, v). bt_insert k v) pairs m) \<and>
   map_of (fold (\<lambda>(k, v). bt_insert k v) pairs m) = map_of m ++ map_of (rev pairs)"
proof (induction pairs arbitrary: m)
  case (Cons kv pairs)
  obtain k v where kv: "kv = (k, v)" by fastforce
  from Cons.IH [OF bt_wf_insert [OF Cons.prems]] show ?case
    using map_of_bt_insert [OF Cons.prems]
    by (simp add: kv map_add_assoc [symmetric] fun_eq_iff map_add_def split: option.splits)
qed simp

lemma bt_collect_wf: "bt_wf (bt_collect pairs)"
  using bt_fold_wf_map [of "[]" pairs] by (simp add: bt_collect_def bt_wf_def)

lemma map_of_bt_collect: "map_of (bt_collect pairs) = map_of (rev pairs)"
  using bt_fold_wf_map [of "[]" pairs] by (simp add: bt_collect_def bt_wf_def)

lemma bt_wf_distinct: "bt_wf m \<Longrightarrow> distinct (map fst m)"
  by (simp add: bt_wf_def strict_sorted_iff)

lemma bt_wf_ext: "bt_wf m \<Longrightarrow> bt_wf n \<Longrightarrow> map_of m = map_of n \<Longrightarrow> m = n"
proof (rule map_sorted_distinct_set_unique [of fst])
  assume wf: "bt_wf m" "bt_wf n" and eq: "map_of m = map_of n"
  show "sorted (map fst m)" "distinct (map fst m)" "sorted (map fst n)" "distinct (map fst n)"
    using wf by (simp_all add: bt_wf_def strict_sorted_iff)
  show "set m = set n"
    using wf eq by (metis bt_wf_distinct map_of_inject_set)
  show "inj_on fst (set m \<union> set n)"
    using wf eq by (metis bt_wf_distinct map_of_inject_set sup.idem distinct_map)
qed

section \<open>Strings and the crates behind them\<close>

text \<open>
  Strings are the lists of their UTF-8 bytes. \<open>strip_prefix\<close>, \<open>format!("{:0>n}", s)\<close> and the
  removal of an optional \<open>0x\<close> or \<open>0X\<close> that several parsers start with.
\<close>

definition strip_prefix :: "string \<Rightarrow> string \<Rightarrow> string option" where
  "strip_prefix p s = (if take (length p) s = p then Some (drop (length p) s) else None)"

definition strip_0x :: "string \<Rightarrow> string" where
  "strip_0x s =
     (case strip_prefix ''0x'' s of
        Some t \<Rightarrow> t
      | None \<Rightarrow> (case strip_prefix ''0X'' s of Some t \<Rightarrow> t | None \<Rightarrow> s))"

definition pad_left :: "nat \<Rightarrow> char \<Rightarrow> string \<Rightarrow> string" where
  "pad_left n c s = replicate (n - length s) c @ s"

datatype primitive_error = Overflow | InvalidHex | InvalidLength nat nat

text \<open>
  The crates below the primitives are parameters: Keccak-256 of \<open>sha3\<close>, and the encoder
  and decoder of \<open>hex\<close>. \<open>hex_laws\<close> and \<open>keccak_laws\<close> are their documented behaviour.
\<close>

record prim_env =
  sha3_keccak256 :: "bytes \<Rightarrow> bytes"
  hex_encode :: "bytes \<Rightarrow> string"
  hex_decode :: "string \<Rightarrow> bytes option"

definition ascii_lower :: "char \<Rightarrow> char" where
  "ascii_lower c =
     (let n = of_char c :: nat in if 65 \<le> n \<and> n \<le> 90 then char_of (n + 32) else c)"

definition ascii_upper :: "char \<Rightarrow> char" where
  "ascii_upper c =
     (let n = of_char c :: nat in if 97 \<le> n \<and> n \<le> 122 then char_of (n - 32) else c)"

definition hex_laws :: "'z prim_env_scheme \<Rightarrow> bool" where
  "hex_laws E \<longleftrightarrow>
     (\<forall>bs. hex_decode E (hex_encode E bs) = Some bs) \<and>
     (\<forall>bs. length (hex_encode E bs) = 2 * length bs) \<and>
     (\<forall>n. hex_encode E (replicate n 0) = replicate (2 * n) (CHR ''0'')) \<and>
     (\<forall>s t. map ascii_lower s = map ascii_lower t \<longrightarrow> hex_decode E s = hex_decode E t)"

definition keccak_laws :: "'z prim_env_scheme \<Rightarrow> bool" where
  "keccak_laws E \<longleftrightarrow> (\<forall>bs. length (sha3_keccak256 E bs) = 32)"

lemma hex_laws_decode_encode: "hex_laws E \<Longrightarrow> hex_decode E (hex_encode E bs) = Some bs"
  by (simp add: hex_laws_def)

lemma hex_laws_length: "hex_laws E \<Longrightarrow> length (hex_encode E bs) = 2 * length bs"
  by (simp add: hex_laws_def)

lemma hex_laws_zeros: "hex_laws E \<Longrightarrow> hex_encode E (replicate n 0) = replicate (2 * n) (CHR ''0'')"
  by (simp add: hex_laws_def)

lemma hex_laws_case:
  "hex_laws E \<Longrightarrow> map ascii_lower s = map ascii_lower t \<Longrightarrow> hex_decode E s = hex_decode E t"
  unfolding hex_laws_def by (elim conjE allE [of _ s] allE [of _ t]) simp

lemma of_char_eqI: "(of_char c :: nat) = of_char d \<Longrightarrow> c = d"
  by (simp add: of_char_eq_iff)

lemma of_char_of_small: "n < 256 \<Longrightarrow> (of_char (char_of n) :: nat) = n"
  by (simp add: of_char_of)

lemma of_char_lower:
  "(of_char (ascii_lower c) :: nat)
   = (let n = of_char c in if 65 \<le> n \<and> n \<le> 90 then n + 32 else n)"
  by (simp add: ascii_lower_def Let_def of_char_of_small)

lemma of_char_upper:
  "(of_char (ascii_upper c) :: nat)
   = (let n = of_char c in if 97 \<le> n \<and> n \<le> 122 then n - 32 else n)"
proof -
  have "n - 32 < 256" if "n \<le> 122" for n :: nat using that by linarith
  then show ?thesis by (simp add: ascii_upper_def Let_def of_char_of_small)
qed

lemma ascii_lower_upper: "ascii_lower (ascii_upper c) = ascii_lower c"
proof (rule of_char_eqI)
  have "(let m = (if 97 \<le> n \<and> n \<le> 122 then n - 32 else n) in if 65 \<le> m \<and> m \<le> 90 then m + 32 else m)
     = (if 65 \<le> n \<and> n \<le> 90 then n + 32 else n)" for n :: nat
    unfolding Let_def by presburger
  from this [of "of_char c"]
  show "(of_char (ascii_lower (ascii_upper c)) :: nat) = of_char (ascii_lower c)"
    unfolding of_char_lower of_char_upper Let_def .
qed

lemma pad_left_dropWhile: "pad_left (length s) c (dropWhile (\<lambda>d. d = c) s) = s"
  by (induction s) (auto simp: pad_left_def Suc_diff_le length_dropWhile_le)

text \<open>
  A reference implementation of the \<open>hex\<close> functions, with a 32-byte checksum in the place of
  Keccak: an environment in which the laws hold and every definition can be evaluated.
\<close>

definition hex_digit :: "nat \<Rightarrow> char" where
  "hex_digit n = ''0123456789abcdef'' ! n"

definition hex_value :: "char \<Rightarrow> nat option" where
  "hex_value c =
     (let n = of_char c :: nat
      in if 48 \<le> n \<and> n \<le> 57 then Some (n - 48)
         else if 97 \<le> n \<and> n \<le> 102 then Some (n - 87)
         else if 65 \<le> n \<and> n \<le> 70 then Some (n - 55)
         else None)"

definition ref_hex_encode :: "bytes \<Rightarrow> string" where
  "ref_hex_encode bs = concat (map (\<lambda>b. [hex_digit (unat b div 16), hex_digit (unat b mod 16)]) bs)"

fun ref_hex_decode :: "string \<Rightarrow> bytes option" where
  "ref_hex_decode [] = Some []"
| "ref_hex_decode [c] = None"
| "ref_hex_decode (c # d # s) =
     (case (hex_value c, hex_value d, ref_hex_decode s) of
        (Some h, Some l, Some bs) \<Rightarrow> Some (of_nat (16 * h + l) # bs)
      | _ \<Rightarrow> None)"

fun ref_mix :: "nat \<Rightarrow> bytes \<Rightarrow> bytes \<Rightarrow> bytes" where
  "ref_mix 0 st bs = st"
| "ref_mix (Suc n) st bs =
     (if bs = [] then st
      else ref_mix n (map2 (\<lambda>a b. 5 * a + b + 1) st (take 32 (bs @ replicate 32 0))) (drop 32 bs))"

definition ref_digest :: "bytes \<Rightarrow> bytes" where
  "ref_digest bs = ref_mix (length bs) (replicate 32 0) bs"

definition ref_prim :: prim_env where
  "ref_prim = \<lparr> sha3_keccak256 = ref_digest, hex_encode = ref_hex_encode, hex_decode = ref_hex_decode \<rparr>"

lemma hex_value_digit: "n < 16 \<Longrightarrow> hex_value (hex_digit n) = Some n"
proof -
  assume "n < 16"
  then have "n \<in> set [0..<16]" by simp
  moreover have "\<forall>n \<in> set [0..<16]. hex_value (hex_digit n) = Some n" by code_simp
  ultimately show ?thesis by blast
qed

lemma hex_value_lower: "hex_value (ascii_lower c) = hex_value c"
proof (cases "65 \<le> (of_char c :: nat) \<and> (of_char c :: nat) \<le> 90")
  case True
  then have n: "(of_char (ascii_lower c) :: nat) = of_char c + 32" by (simp add: of_char_lower)
  show ?thesis using True unfolding hex_value_def n Let_def by auto
next
  case False
  then have "(of_char (ascii_lower c) :: nat) = of_char c" by (auto simp: of_char_lower)
  then show ?thesis by (simp add: hex_value_def)
qed

lemma ref_hex_decode_lower: "ref_hex_decode (map ascii_lower s) = ref_hex_decode s"
  by (induction s rule: ref_hex_decode.induct) (simp_all add: hex_value_lower)

lemma ref_hex_decode_encode: "ref_hex_decode (ref_hex_encode bs) = Some bs"
proof (induction bs)
  case (Cons b bs)
  have b: "unat b < 256" using unat_lt [of b] by simp
  then have "unat b div 16 < 16" by (simp add: div_less_iff_less_mult)
  then show ?case using Cons by (simp add: ref_hex_encode_def hex_value_digit)
qed (simp add: ref_hex_encode_def)

lemma ref_prim_hex_laws: "hex_laws ref_prim"
  unfolding hex_laws_def
proof (intro conjI allI impI)
  show "hex_decode ref_prim (hex_encode ref_prim bs) = Some bs" for bs
    by (simp add: ref_prim_def ref_hex_decode_encode)
  show "length (hex_encode ref_prim bs) = 2 * length bs" for bs
    by (induction bs) (auto simp: ref_prim_def ref_hex_encode_def)
  show "hex_encode ref_prim (replicate n 0) = replicate (2 * n) (CHR ''0'')" for n
    by (induction n) (auto simp: ref_prim_def ref_hex_encode_def hex_digit_def)
  show "hex_decode ref_prim s = hex_decode ref_prim t"
    if "map ascii_lower s = map ascii_lower t" for s t
    using that ref_hex_decode_lower [of s] ref_hex_decode_lower [of t]
    by (simp add: ref_prim_def)
qed

lemma length_ref_mix: "length st = 32 \<Longrightarrow> length (ref_mix n st bs) = 32"
  by (induction n arbitrary: st bs) simp_all

lemma length_ref_digest [simp]: "length (ref_digest bs) = 32"
  by (simp add: ref_digest_def length_ref_mix)

lemma ref_prim_keccak_laws: "keccak_laws ref_prim"
  by (simp add: keccak_laws_def ref_prim_def)

end
