(* ===== verification/Uint.thy ===== *)
theory Uint
  imports Prelude
begin

text \<open>
  The 256-bit unsigned integer of \<open>crates/ivory-primitives/src/uint.rs\<close>: four 64-bit
  limbs, least significant first, and every arithmetic, comparison, shift and byte
  operation of the type. \<open>uval\<close> reads a \<open>u256\<close> as a natural number; the lemmas show that
  the limb algorithms compute the arithmetic of that number, with \<open>None\<close> exactly on
  overflow, underflow and division by zero.
\<close>

section \<open>Representation\<close>

datatype u256 = U256 u64 u64 u64 u64

fun limbs :: "u256 \<Rightarrow> u64 list" where
  "limbs (U256 a b c d) = [a, b, c, d]"

fun of_limbs :: "u64 list \<Rightarrow> u256" where
  "of_limbs [a, b, c, d] = U256 a b c d"
| "of_limbs _ = U256 0 0 0 0"

definition U256_ZERO :: u256 where
  "U256_ZERO = U256 0 0 0 0"

definition U256_ONE :: u256 where
  "U256_ONE = U256 1 0 0 0"

definition U256_MAX :: u256 where
  "U256_MAX = U256 (- 1) (- 1) (- 1) (- 1)"

definition u256_from_u64 :: "u64 \<Rightarrow> u256" where
  "u256_from_u64 v = U256 v 0 0 0"

definition u256_from_u128 :: "u128 \<Rightarrow> u256" where
  "u256_from_u128 v = U256 (ucast v) (ucast (drop_bit 64 v)) 0 0"

definition u256_low_u64 :: "u256 \<Rightarrow> u64" where
  "u256_low_u64 x = limbs x ! 0"

definition u256_low_u128 :: "u256 \<Rightarrow> u128" where
  "u256_low_u128 x = push_bit 64 (ucast (limbs x ! 1)) OR ucast (limbs x ! 0)"

definition u256_is_zero :: "u256 \<Rightarrow> bool" where
  "u256_is_zero x \<longleftrightarrow> limbs x ! 0 = 0 \<and> limbs x ! 1 = 0 \<and> limbs x ! 2 = 0 \<and> limbs x ! 3 = 0"

text \<open>The number that a list of limbs, and so a \<open>u256\<close>, stands for.\<close>

fun limbs_val :: "u64 list \<Rightarrow> nat" where
  "limbs_val [] = 0"
| "limbs_val (a # as) = unat a + 2 ^ 64 * limbs_val as"

definition uval :: "u256 \<Rightarrow> nat" where
  "uval x = limbs_val (limbs x)"

lemma length_limbs [simp]: "length (limbs x) = 4"
  by (cases x) simp

lemma of_limbs_limbs [simp]: "of_limbs (limbs x) = x"
  by (cases x) simp

lemma length_4_cases:
  assumes "length xs = 4"
  obtains a b c d where "xs = [a, b, c, d]"
  using assms by (auto simp: numeral_eq_Suc length_Suc_conv)

lemma limbs_of_limbs [simp]: "length xs = 4 \<Longrightarrow> limbs (of_limbs xs) = xs"
  by (erule length_4_cases) simp

lemma u64_lt: "unat (a :: u64) < 18446744073709551616"
  using unat_lt [of a] by simp

lemma limbs_val_lt: "limbs_val xs < 2 ^ (64 * length xs)"
proof (induction xs)
  case (Cons a xs)
  then have "limbs_val xs + 1 \<le> 2 ^ (64 * length xs)" by simp
  then have "2 ^ 64 * (limbs_val xs + 1) \<le> 2 ^ 64 * 2 ^ (64 * length xs)"
    by (rule mult_le_mono2)
  then have "2 ^ 64 * limbs_val xs + 2 ^ 64 \<le> 2 ^ (64 * length (a # xs))"
    by (simp add: power_add)
  then show ?case using u64_lt [of a] by simp
qed simp

lemma uval_lt: "uval x < 2 ^ 256"
  using limbs_val_lt [of "limbs x"] by (simp add: uval_def)

lemma limbs_val_inj: "length xs = length ys \<Longrightarrow> limbs_val xs = limbs_val ys \<Longrightarrow> xs = ys"
proof (induction xs ys rule: list_induct2)
  case (Cons x xs y ys)
  have eq: "unat x + 18446744073709551616 * limbs_val xs
      = unat y + 18446744073709551616 * limbs_val ys"
    using Cons.prems by simp
  have "unat x = unat y" "limbs_val xs = limbs_val ys"
    using digit_unique [OF u64_lt u64_lt eq] by simp_all
  with Cons.IH show ?case by (simp add: word_unat_eq_iff)
qed simp

lemma uval_inj: "uval a = uval b \<Longrightarrow> a = b"
  unfolding uval_def using limbs_val_inj [of "limbs a" "limbs b"] of_limbs_limbs
  by (metis length_limbs)

lemma uval_eq_iff: "a = b \<longleftrightarrow> uval a = uval b"
  using uval_inj by blast

lemma uval_ZERO [simp]: "uval U256_ZERO = 0"
  by (simp add: uval_def U256_ZERO_def)

lemma uval_ONE [simp]: "uval U256_ONE = 1"
  by (simp add: uval_def U256_ONE_def)

lemma uval_MAX [simp]: "uval U256_MAX = 2 ^ 256 - 1"
  by (simp add: uval_def U256_MAX_def unat_minus_one_word_max)

lemma uval_from_u64 [simp]: "uval (u256_from_u64 v) = unat v"
  by (simp add: uval_def u256_from_u64_def)

lemma u256_is_zero_iff [simp]: "u256_is_zero x \<longleftrightarrow> uval x = 0"
  by (cases x) (auto simp: u256_is_zero_def uval_def unat_eq_zero)

lemma uval_from_u128 [simp]: "uval (u256_from_u128 v) = unat v"
proof -
  have "unat v < 2 ^ 64 * 2 ^ 64" by (rule order_less_le_trans [OF unat_lt]) simp
  then have "unat v div 2 ^ 64 < 2 ^ 64" by (rule less_mult_imp_div_less)
  then have hi: "unat (ucast (drop_bit 64 v) :: u64) = unat v div 2 ^ 64"
    unfolding unsigned_ucast_eq unat_drop_bit_eq by (simp add: drop_bit_eq_div take_bit_eq_mod)
  have "unat (ucast v :: u64) = unat v mod 2 ^ 64"
    by (simp add: unsigned_ucast_eq take_bit_eq_mod)
  then show ?thesis
    unfolding uval_def u256_from_u128_def by (simp only: limbs.simps limbs_val.simps hi) simp
qed

section \<open>Comparison\<close>

text \<open>\<open>Ord for U256\<close>: limbs are compared from the most significant one.\<close>

fun cmp_limbs :: "u64 list \<Rightarrow> u64 list \<Rightarrow> ordering" where
  "cmp_limbs (a # as) (b # bs) =
     (case cmp_lin a b of Equal \<Rightarrow> cmp_limbs as bs | other \<Rightarrow> other)"
| "cmp_limbs _ _ = Equal"

definition u256_cmp :: "u256 \<Rightarrow> u256 \<Rightarrow> ordering" where
  "u256_cmp x y = cmp_limbs (rev (limbs x)) (rev (limbs y))"

lemma limbs_val_snoc: "limbs_val (xs @ [a]) = limbs_val xs + 2 ^ (64 * length xs) * unat a"
  by (induction xs) (auto simp: power_add algebra_simps)

lemma high_digit_less:
  fixes x y a b m :: nat
  assumes "x < m" "a < b"
  shows "x + m * a < y + m * b"
proof -
  have "m * (a + 1) \<le> m * b" using assms(2) by (intro mult_le_mono2) simp
  then show ?thesis using assms(1) by simp
qed

lemma cmp_limbs_val:
  "length xs = length ys \<Longrightarrow> cmp_limbs (rev xs) (rev ys) = cmp_lin (limbs_val xs) (limbs_val ys)"
proof (induction xs arbitrary: ys rule: rev_induct)
  case (snoc a xs)
  then obtain b ys' where ys: "ys = ys' @ [b]" and len: "length xs = length ys'"
    by (cases ys rule: rev_exhaust) auto
  have IH: "cmp_limbs (rev xs) (rev ys') = cmp_lin (limbs_val xs) (limbs_val ys')"
    using snoc.IH len by simp
  have lt: "limbs_val xs < 2 ^ (64 * length xs)" "limbs_val ys' < 2 ^ (64 * length xs)"
    using limbs_val_lt [of xs] limbs_val_lt [of ys'] len by simp_all
  consider "unat a < unat b" | "a = b" | "unat b < unat a"
    using word_unat_eq_iff [of a b] by linarith
  then show ?case
  proof cases
    case 1
    from high_digit_less [OF lt(1) this, of "limbs_val ys'"] 1 show ?thesis
      by (simp add: ys len limbs_val_snoc cmp_lin_def word_less_nat_alt)
  next
    case 2
    then show ?thesis using IH by (auto simp: ys len limbs_val_snoc cmp_lin_def)
  next
    case 3
    from high_digit_less [OF lt(2) this, of "limbs_val xs"] 3 show ?thesis
      by (auto simp: ys len limbs_val_snoc cmp_lin_def word_less_nat_alt)
  qed
qed (simp add: cmp_lin_def)

lemma u256_cmp_val: "u256_cmp x y = cmp_lin (uval x) (uval y)"
  by (simp add: u256_cmp_def uval_def cmp_limbs_val)

instantiation u256 :: linorder
begin

definition less_u256 :: "u256 \<Rightarrow> u256 \<Rightarrow> bool" where
  "less_u256 x y \<longleftrightarrow> u256_cmp x y = Less"

definition less_eq_u256 :: "u256 \<Rightarrow> u256 \<Rightarrow> bool" where
  "less_eq_u256 x y \<longleftrightarrow> u256_cmp x y \<noteq> Greater"

instance
  by standard
    (auto simp: less_u256_def less_eq_u256_def u256_cmp_val cmp_lin_def uval_eq_iff
       split: if_splits)

end

lemma u256_less_iff [simp]: "x < y \<longleftrightarrow> uval x < uval (y :: u256)"
  by (simp add: less_u256_def u256_cmp_val cmp_lin_def)

lemma u256_le_iff [simp]: "x \<le> y \<longleftrightarrow> uval x \<le> uval (y :: u256)"
  by (auto simp: less_eq_u256_def u256_cmp_val cmp_lin_def)

section \<open>Addition and subtraction\<close>

fun add_limbs :: "u64 list \<Rightarrow> u64 list \<Rightarrow> u64 \<Rightarrow> u64 list \<times> u64" where
  "add_limbs (a # as) (b # bs) carry =
     (let (sum1, c1) = overflowing_add a b;
          (sum2, c2) = overflowing_add sum1 carry;
          (rest, out) = add_limbs as bs (from_bool_w c1 + from_bool_w c2)
      in (sum2 # rest, out))"
| "add_limbs _ _ carry = ([], carry)"

definition u256_checked_add :: "u256 \<Rightarrow> u256 \<Rightarrow> u256 option" where
  "u256_checked_add x y =
     (let (result, carry) = add_limbs (limbs x) (limbs y) 0
      in if 0 < carry then None else Some (of_limbs result))"

fun sub_limbs :: "u64 list \<Rightarrow> u64 list \<Rightarrow> u64 \<Rightarrow> u64 list \<times> u64" where
  "sub_limbs (a # as) (b # bs) borrow =
     (let (diff1, b1) = overflowing_sub a b;
          (diff2, b2) = overflowing_sub diff1 borrow;
          (rest, out) = sub_limbs as bs (from_bool_w b1 + from_bool_w b2)
      in (diff2 # rest, out))"
| "sub_limbs _ _ borrow = ([], borrow)"

definition u256_checked_sub :: "u256 \<Rightarrow> u256 \<Rightarrow> u256 option" where
  "u256_checked_sub x y =
     (if x < y then None else Some (of_limbs (fst (sub_limbs (limbs x) (limbs y) 0))))"

definition u256_wrapping_add :: "u256 \<Rightarrow> u256 \<Rightarrow> u256" where
  "u256_wrapping_add x y = of_limbs (fst (add_limbs (limbs x) (limbs y) 0))"

definition u256_wrapping_sub :: "u256 \<Rightarrow> u256 \<Rightarrow> u256" where
  "u256_wrapping_sub x y = of_limbs (fst (sub_limbs (limbs x) (limbs y) 0))"

definition u256_saturating_add :: "u256 \<Rightarrow> u256 \<Rightarrow> u256" where
  "u256_saturating_add x y = (case u256_checked_add x y of Some z \<Rightarrow> z | None \<Rightarrow> U256_MAX)"

definition u256_saturating_sub :: "u256 \<Rightarrow> u256 \<Rightarrow> u256" where
  "u256_saturating_sub x y = (case u256_checked_sub x y of Some z \<Rightarrow> z | None \<Rightarrow> U256_ZERO)"

lemma overflowing_add_u64:
  "overflowing_add a b = (s, c) \<Longrightarrow> unat s + 2 ^ 64 * of_bool c = unat a + unat (b :: u64)"
  by (drule overflowing_add_val) (simp split: if_splits)

lemma overflowing_sub_u64:
  "overflowing_sub a b = (d, c) \<Longrightarrow> unat d + unat b = unat a + 2 ^ 64 * of_bool (c :: bool)"
  for a b :: u64
  by (drule overflowing_sub_val) (simp split: if_splits)

lemma carry_word: "unat (from_bool_w c1 + from_bool_w c2 :: u64) = of_bool c1 + of_bool c2"
  by (simp add: unat_plus_if' from_bool_w_val)

lemma add_limbs_val:
  "length as = length bs \<Longrightarrow> unat carry \<le> 1 \<Longrightarrow> add_limbs as bs carry = (r, out) \<Longrightarrow>
   length r = length as \<and> unat out \<le> 1 \<and>
   limbs_val r + 2 ^ (64 * length as) * unat out = limbs_val as + limbs_val bs + unat carry"
proof (induction as bs arbitrary: carry r out rule: list_induct2)
  case (Cons a as b bs)
  obtain s1 c1 where 1: "overflowing_add a b = (s1, c1)" by fastforce
  obtain s2 c2 where 2: "overflowing_add s1 carry = (s2, c2)" by fastforce
  obtain rest where 3: "add_limbs as bs (from_bool_w c1 + from_bool_w c2) = (rest, out)"
    and r: "r = s2 # rest"
    using Cons.prems 1 2 by (auto split: prod.splits)
  note v1 = overflowing_add_u64 [OF 1] and v2 = overflowing_add_u64 [OF 2]
  have nb: "\<not> (c1 \<and> c2)"
    using v1 v2 Cons.prems(1) u64_lt [of a] u64_lt [of b] by (auto split: if_splits)
  then have "unat (from_bool_w c1 + from_bool_w c2 :: u64) \<le> 1"
    by (auto simp: carry_word)
  from Cons.IH [OF this 3]
  have IH: "length rest = length as" "unat out \<le> 1"
    "limbs_val rest + 2 ^ (64 * length as) * unat out
       = limbs_val as + limbs_val bs + (of_bool c1 + of_bool c2)"
    by (simp_all add: carry_word)
  have "2 ^ 64 * (limbs_val rest + 2 ^ (64 * length as) * unat out)
       = 2 ^ 64 * (limbs_val as + limbs_val bs + (of_bool c1 + of_bool c2))"
    by (simp only: IH(3))
  then show ?case using v1 v2 IH(1,2) nb
    by (auto simp: r power_add algebra_simps split: if_splits)
qed auto

lemma add_limbs_uval:
  assumes "add_limbs (limbs x) (limbs y) 0 = (r, c)"
  shows "length r = 4" "uval (of_limbs r) + 2 ^ 256 * unat c = uval x + uval y"
  using add_limbs_val [OF _ _ assms] by (simp_all add: uval_def)

lemma u256_checked_add_Some:
  "u256_checked_add x y = Some z \<longleftrightarrow> uval z = uval x + uval y"
proof -
  obtain r c where rc: "add_limbs (limbs x) (limbs y) 0 = (r, c)" by fastforce
  note v = add_limbs_uval [OF rc]
  show ?thesis
  proof (cases "c = 0")
    case True
    then have "uval (of_limbs r) = uval x + uval y" using v(2) by simp
    then show ?thesis using True rc by (auto simp: u256_checked_add_def uval_eq_iff)
  next
    case False
    then have "1 \<le> unat c" by (simp add: Suc_le_eq unat_gt_0)
    then have "2 ^ 256 * 1 \<le> 2 ^ 256 * unat c" by (rule mult_le_mono2)
    then have "2 ^ 256 \<le> uval x + uval y" using v(2) by linarith
    then show ?thesis using False rc uval_lt [of z]
      by (auto simp: u256_checked_add_def word_neq_0_conv)
  qed
qed

lemma u256_checked_add_None: "u256_checked_add x y = None \<longleftrightarrow> 2 ^ 256 \<le> uval x + uval y"
proof
  assume none: "u256_checked_add x y = None"
  obtain r c where rc: "add_limbs (limbs x) (limbs y) 0 = (r, c)" by fastforce
  then have "c \<noteq> 0" using none by (auto simp: u256_checked_add_def split: if_splits)
  then have "1 \<le> unat c" by (simp add: Suc_le_eq unat_gt_0)
  then have "2 ^ 256 * 1 \<le> 2 ^ 256 * unat c" by (rule mult_le_mono2)
  then show "2 ^ 256 \<le> uval x + uval y" using add_limbs_uval(2) [OF rc] by linarith
next
  assume "2 ^ 256 \<le> uval x + uval y"
  then have "\<And>z. uval z \<noteq> uval x + uval y" using uval_lt by (metis leD)
  then show "u256_checked_add x y = None"
    using u256_checked_add_Some by (cases "u256_checked_add x y") auto
qed

lemma u256_wrapping_add_val: "uval (u256_wrapping_add x y) = (uval x + uval y) mod 2 ^ 256"
proof -
  obtain r c where rc: "add_limbs (limbs x) (limbs y) 0 = (r, c)" by fastforce
  have "(uval (of_limbs r) + 2 ^ 256 * unat c) mod 2 ^ 256 = uval (of_limbs r)"
    using uval_lt by simp
  then show ?thesis using rc by (simp only: add_limbs_uval(2) [OF rc] u256_wrapping_add_def fst_conv)
qed

lemma sub_limbs_val:
  "length as = length bs \<Longrightarrow> unat borrow \<le> 1 \<Longrightarrow> sub_limbs as bs borrow = (r, out) \<Longrightarrow>
   length r = length as \<and> unat out \<le> 1 \<and>
   limbs_val r + limbs_val bs + unat borrow = limbs_val as + 2 ^ (64 * length as) * unat out"
proof (induction as bs arbitrary: borrow r out rule: list_induct2)
  case (Cons a as b bs)
  obtain s1 c1 where 1: "overflowing_sub a b = (s1, c1)" by fastforce
  obtain s2 c2 where 2: "overflowing_sub s1 borrow = (s2, c2)" by fastforce
  obtain rest where 3: "sub_limbs as bs (from_bool_w c1 + from_bool_w c2) = (rest, out)"
    and r: "r = s2 # rest"
    using Cons.prems 1 2 by (auto split: prod.splits)
  note v1 = overflowing_sub_u64 [OF 1] and v2 = overflowing_sub_u64 [OF 2]
  have nb: "\<not> (c1 \<and> c2)"
    using v1 v2 Cons.prems(1) u64_lt [of b] u64_lt [of s2] by auto
  then have "unat (from_bool_w c1 + from_bool_w c2 :: u64) \<le> 1"
    by (auto simp: carry_word)
  from Cons.IH [OF this 3]
  have IH: "length rest = length as" "unat out \<le> 1"
    "limbs_val rest + limbs_val bs + (of_bool c1 + of_bool c2)
       = limbs_val as + 2 ^ (64 * length as) * unat out"
    by (simp_all add: carry_word)
  have "2 ^ 64 * (limbs_val rest + limbs_val bs + (of_bool c1 + of_bool c2))
       = 2 ^ 64 * (limbs_val as + 2 ^ (64 * length as) * unat out)"
    by (simp only: IH(3))
  then show ?case using v1 v2 IH(1,2) nb
    by (auto simp: r power_add algebra_simps split: if_splits)
qed auto

lemma sub_limbs_uval:
  assumes "sub_limbs (limbs x) (limbs y) 0 = (r, c)"
  shows "length r = 4" "unat c \<le> 1" "uval (of_limbs r) + uval y = uval x + 2 ^ 256 * unat c"
  using sub_limbs_val [OF _ _ assms] by (simp_all add: uval_def)

lemma u256_wrapping_sub_val:
  "uval (u256_wrapping_sub x y) = (uval x + (2 ^ 256 - uval y)) mod 2 ^ 256"
proof -
  obtain r c where rc: "sub_limbs (limbs x) (limbs y) 0 = (r, c)" by fastforce
  note v = sub_limbs_uval [OF rc]
  have w: "u256_wrapping_sub x y = of_limbs r" using rc by (simp add: u256_wrapping_sub_def)
  have "unat c = 0 \<or> unat c = 1" using v(2) by linarith
  then have "uval x + (2 ^ 256 - uval y) = uval (of_limbs r) + 2 ^ 256 * (1 - unat c)"
    using v(3) uval_lt [of y] by auto
  then show ?thesis unfolding w using uval_lt [of "of_limbs r"] by simp
qed

lemma u256_checked_sub_Some:
  "u256_checked_sub x y = Some z \<longleftrightarrow> uval z + uval y = uval x"
proof (cases "uval x < uval y")
  case False
  obtain r c where rc: "sub_limbs (limbs x) (limbs y) 0 = (r, c)" by fastforce
  note v = sub_limbs_uval [OF rc]
  have "unat c = 0 \<or> unat c = 1" using v(2) by linarith
  then have "uval (of_limbs r) + uval y = uval x"
    using v(3) False uval_lt [of "of_limbs r"] by auto
  then show ?thesis using False rc by (auto simp: u256_checked_sub_def uval_eq_iff)
qed (auto simp: u256_checked_sub_def)

lemma u256_checked_sub_None: "u256_checked_sub x y = None \<longleftrightarrow> uval x < uval y"
  by (simp add: u256_checked_sub_def)

lemma u256_saturating_add_val:
  "uval (u256_saturating_add x y) = min (uval x + uval y) (2 ^ 256 - 1)"
proof (cases "u256_checked_add x y")
  case None
  then have "2 ^ 256 \<le> uval x + uval y" by (simp only: u256_checked_add_None)
  then show ?thesis using None by (simp add: u256_saturating_add_def)
next
  case (Some z)
  then have "uval z = uval x + uval y" by (simp only: u256_checked_add_Some)
  then show ?thesis using Some uval_lt [of z] by (simp add: u256_saturating_add_def)
qed

lemma u256_saturating_sub_val: "uval (u256_saturating_sub x y) = uval x - uval y"
proof (cases "u256_checked_sub x y")
  case (Some z)
  then have "uval z + uval y = uval x" by (simp only: u256_checked_sub_Some)
  then show ?thesis using Some by (simp add: u256_saturating_sub_def)
qed (auto simp: u256_saturating_sub_def u256_checked_sub_def split: if_splits)

section \<open>Bit counts\<close>

fun lead_limbs :: "u64 list \<Rightarrow> nat" where
  "lead_limbs [] = 0"
| "lead_limbs (a # as) = (if a \<noteq> 0 then leading_zeros_w a else 64 + lead_limbs as)"

text \<open>The limbs in the order the loop visits them: most significant first.\<close>

definition u256_leading_zeros :: "u256 \<Rightarrow> nat" where
  "u256_leading_zeros x = lead_limbs (rev (limbs x))"

fun trail_limbs :: "u64 list \<Rightarrow> nat" where
  "trail_limbs [] = 0"
| "trail_limbs (a # as) = (if a \<noteq> 0 then trailing_zeros_w a else 64 + trail_limbs as)"

definition u256_trailing_zeros :: "u256 \<Rightarrow> nat" where
  "u256_trailing_zeros x = trail_limbs (limbs x)"

definition u256_bits :: "u256 \<Rightarrow> nat" where
  "u256_bits x = 256 - u256_leading_zeros x"

lemma bit_length_unique:
  assumes "n < 2 ^ k" "0 < k \<Longrightarrow> 2 ^ (k - 1) \<le> n"
  shows "bit_length n = k"
proof (rule antisym)
  show "bit_length n \<le> k" using assms(1) by (simp add: bit_length_le_iff)
  show "k \<le> bit_length n"
  proof (cases k)
    case (Suc j)
    with assms(2) have "\<not> n < 2 ^ j" by simp
    then show ?thesis using Suc by (simp add: bit_length_le_iff [symmetric])
  qed simp
qed

lemma bit_length_high_digit:
  assumes "x < 2 ^ k" "0 < a"
  shows "bit_length (x + 2 ^ k * a) = k + bit_length a"
proof (rule bit_length_unique)
  have "x + 2 ^ k * a < 2 ^ k * Suc a" using assms(1) by simp
  also have "\<dots> \<le> 2 ^ k * 2 ^ bit_length a"
    using bit_length_upper [of a] by (intro mult_le_mono2) simp
  finally show "x + 2 ^ k * a < 2 ^ (k + bit_length a)" by (simp add: power_add)
next
  have "0 < bit_length a" using assms(2) by (intro Nat.gr0I) simp
  then have "(2::nat) ^ (k + bit_length a - 1) = 2 ^ k * 2 ^ (bit_length a - 1)"
    by (simp add: power_add [symmetric])
  also have "\<dots> \<le> 2 ^ k * a"
    using bit_length_lower [OF assms(2)] by (intro mult_le_mono2)
  finally show "2 ^ (k + bit_length a - 1) \<le> x + 2 ^ k * a" by linarith
qed

lemma lead_limbs_val:
  "lead_limbs (rev xs) + bit_length (limbs_val xs) = 64 * length xs"
proof (induction xs rule: rev_induct)
  case (snoc a xs)
  show ?case
  proof (cases "a = 0")
    case False
    then have "0 < unat a" by (simp add: unat_gt_0)
    from bit_length_high_digit [OF limbs_val_lt this] False show ?thesis
      using bit_length_unat [of a] by (simp add: limbs_val_snoc leading_zeros_w_def)
  qed (use snoc in \<open>simp add: limbs_val_snoc\<close>)
qed simp

lemma u256_leading_zeros_val: "u256_leading_zeros x = 256 - bit_length (uval x)"
  using lead_limbs_val [of "limbs x"] by (simp add: u256_leading_zeros_def uval_def)

lemma bit_length_uval: "bit_length (uval x) \<le> 256"
  unfolding bit_length_le_iff by (rule uval_lt)

lemma u256_bits_val: "u256_bits x = bit_length (uval x)"
  using bit_length_uval [of x] by (simp add: u256_bits_def u256_leading_zeros_val)


section \<open>Multiplication\<close>

text \<open>
  One row of the schoolbook product: \<open>js\<close> are the remaining values of the loop variable
  \<open>j\<close>, \<open>None\<close> is the early return on overflow. Products and carries are 128-bit.
\<close>

fun mul_row :: "u64 \<Rightarrow> nat \<Rightarrow> u64 list \<Rightarrow> nat list \<Rightarrow> u128 \<Rightarrow> u64 list \<Rightarrow> (u64 list \<times> u128) option" where
  "mul_row x i rhs [] carry res = Some (res, carry)"
| "mul_row x i rhs (j # js) carry res =
     (if 4 \<le> i + j then
        (if 0 < ucast x * ucast (rhs ! j) + carry then None else Some (res, carry))
      else
        (let product = ucast x * ucast (rhs ! j) + ucast (res ! (i + j)) + carry
         in mul_row x i rhs js (drop_bit 64 product) (res[i + j := ucast product])))"

fun mul_rows :: "u64 list \<Rightarrow> u64 list \<Rightarrow> nat list \<Rightarrow> u64 list \<Rightarrow> u64 list option" where
  "mul_rows xs rhs [] res = Some res"
| "mul_rows xs rhs (i # is) res =
     (if xs ! i = 0 then mul_rows xs rhs is res
      else case mul_row (xs ! i) i rhs [0..<4] 0 res of
             None \<Rightarrow> None
           | Some (res', carry) \<Rightarrow>
               if 0 < carry \<and> i + 4 \<le> 4 then None else mul_rows xs rhs is res')"

definition u256_checked_mul :: "u256 \<Rightarrow> u256 \<Rightarrow> u256 option" where
  "u256_checked_mul x y =
     (if u256_is_zero x \<or> u256_is_zero y then Some U256_ZERO
      else if x = U256_ONE then Some y
      else if y = U256_ONE then Some x
      else if 257 < u256_bits x + u256_bits y then None
      else map_option of_limbs (mul_rows (limbs x) (limbs y) [0..<4] [0, 0, 0, 0]))"

definition u256_saturating_mul :: "u256 \<Rightarrow> u256 \<Rightarrow> u256" where
  "u256_saturating_mul x y = (case u256_checked_mul x y of Some z \<Rightarrow> z | None \<Rightarrow> U256_MAX)"

lemma limbs_val_update:
  "k < length xs \<Longrightarrow>
   limbs_val (xs[k := v]) + 2 ^ (64 * k) * unat (xs ! k) = limbs_val xs + 2 ^ (64 * k) * unat v"
proof (induction xs arbitrary: k)
  case (Cons a xs)
  show ?case
  proof (cases k)
    case (Suc j)
    with Cons have "limbs_val (xs[j := v]) + 2 ^ (64 * j) * unat (xs ! j)
        = limbs_val xs + 2 ^ (64 * j) * unat v" by simp
    then have "2 ^ 64 * (limbs_val (xs[j := v]) + 2 ^ (64 * j) * unat (xs ! j))
        = 2 ^ 64 * (limbs_val xs + 2 ^ (64 * j) * unat v)" by (simp only:)
    with Suc show ?thesis by (simp add: power_add algebra_simps)
  qed simp
qed simp

lemma limbs_val_drop:
  "j < length xs \<Longrightarrow> limbs_val (drop j xs) = unat (xs ! j) + 2 ^ 64 * limbs_val (drop (Suc j) xs)"
  by (simp add: Cons_nth_drop_Suc [symmetric])

lemma limbs_val_take_Suc:
  "i < length xs \<Longrightarrow> limbs_val (take (Suc i) xs) = limbs_val (take i xs) + 2 ^ (64 * i) * unat (xs ! i)"
  by (simp add: take_Suc_conv_app_nth limbs_val_snoc min_def)

lemma limbs_val_take_le: "limbs_val (take i xs) \<le> limbs_val xs"
  by (induction xs arbitrary: i) (auto simp: take_Cons split: nat.splits)

lemma limbs_val_take_drop:
  "limbs_val xs = limbs_val (take k xs) + 2 ^ (64 * min k (length xs)) * limbs_val (drop k xs)"
proof (induction xs arbitrary: k)
  case (Cons a xs)
  show ?case
  proof (cases k)
    case (Suc j)
    then show ?thesis using Cons [of j] by (simp add: power_add algebra_simps)
  qed simp
qed simp

lemma unat_ucast_64_128 [simp]: "unat (ucast (a :: u64) :: u128) = unat a"
  unfolding unsigned_ucast_eq using u64_lt [of a] by (simp add: take_bit_eq_mod)

lemma unat_ucast_128_64: "unat (ucast (p :: u128) :: u64) = unat p mod 2 ^ 64"
  unfolding unsigned_ucast_eq by (simp add: take_bit_eq_mod)

lemma unat_drop_bit_128: "unat (drop_bit 64 (p :: u128)) = unat p div 2 ^ 64"
  unfolding unat_drop_bit_eq by (simp add: drop_bit_eq_div)

lemma product_val:
  assumes "unat (carry :: u128) < 2 ^ 64"
  shows "unat (ucast (x :: u64) * ucast (y :: u64) + ucast (r :: u64) + carry :: u128)
       = unat x * unat y + unat r + unat carry"
proof -
  have x: "unat x \<le> 2 ^ 64 - 1" and y: "unat y \<le> 2 ^ 64 - 1" and r: "unat r \<le> 2 ^ 64 - 1"
    using u64_lt [of x] u64_lt [of y] u64_lt [of r] by simp_all
  have "unat x * unat y \<le> (2 ^ 64 - 1) * (2 ^ 64 - 1)" using x y by (rule mult_le_mono)
  then have lt: "unat x * unat y + unat r + unat carry < 2 ^ 128"
    using r assms by (simp)
  then show ?thesis by (simp add: unat_word_ariths)
qed

lemma product_split:
  assumes "unat (carry :: u128) < 2 ^ 64"
    and "p = (ucast (x :: u64) * ucast (y :: u64) + ucast (r :: u64) + carry :: u128)"
  shows "unat (ucast p :: u64) + 2 ^ 64 * unat (drop_bit 64 p) = unat x * unat y + unat r + unat carry"
    and "unat (drop_bit 64 p) < 2 ^ 64"
proof -
  show "unat (ucast p :: u64) + 2 ^ 64 * unat (drop_bit 64 p) = unat x * unat y + unat r + unat carry"
    unfolding unat_ucast_128_64 unat_drop_bit_128
    using product_val [OF assms(1), of x y r] assms(2) by simp
  have "unat p < 2 ^ 64 * 2 ^ 64" using unat_lt [of p] by simp
  then show "unat (drop_bit 64 p) < 2 ^ 64"
    unfolding unat_drop_bit_128 by (rule less_mult_imp_div_less)
qed

lemma row_step:
  fixes P B l h x y r c D V V' :: nat
  assumes "V' + P * r = V + P * l" "l + B * h = x * y + r + c"
  shows "V' + P * B * (x * D + h) = V + P * (x * (y + B * D) + c)"
proof -
  have "P * (l + B * h) = P * (x * y + r + c)" by (simp only: assms(2))
  with assms(1) show ?thesis by (simp add: algebra_simps)
qed

lemma mul_row_val:
  assumes "i < 4" "x \<noteq> 0" "limbs_val (drop (4 - i) rhs) = 0" "length rhs = 4"
  shows "length res = 4 \<Longrightarrow> i + j \<le> 4 \<Longrightarrow> unat carry < 2 ^ 64 \<Longrightarrow>
    (case mul_row x i rhs [j..<4] carry res of
       None \<Rightarrow> 2 ^ 256 \<le> limbs_val res + 2 ^ (64 * (i + j)) * (unat x * limbs_val (drop j rhs) + unat carry)
     | Some (res', c) \<Rightarrow> length res' = 4 \<and> (0 < i \<longrightarrow> c = 0) \<and>
         limbs_val res' + 2 ^ 256 * unat c
         = limbs_val res + 2 ^ (64 * (i + j)) * (unat x * limbs_val (drop j rhs) + unat carry))"
proof (induction "4 - j" arbitrary: j carry res)
  case 0
  then have "j = 4" "i = 0" by simp_all
  then show ?case using 0 assms by simp
next
  case (Suc d)
  then have j: "j < 4" and upt: "[j..<4] = j # [Suc j..<4]" by (simp_all add: upt_conv_Cons)
  show ?case
  proof (cases "i + j = 4")
    case True
    then have dj: "limbs_val (drop j rhs) = 0" using assms(3) by (simp add: algebra_simps flip: True)
    then have "rhs ! j = 0" using limbs_val_drop [of j rhs] j assms(4) by (simp add: unat_eq_zero)
    moreover have "0 < i" using True j by simp
    moreover have "2 ^ 256 * 1 \<le> limbs_val res + 2 ^ 256 * unat carry" if "carry \<noteq> 0"
      using that by (intro trans_le_add2 mult_le_mono2) (simp add: Suc_le_eq unat_gt_0)
    ultimately show ?thesis using True Suc.prems dj
      by (simp add: upt word_neq_0_conv [symmetric])
  next
    case False
    then have ij: "i + j < 4" using Suc.prems(2) by simp
    define p where "p = (ucast x * ucast (rhs ! j) + ucast (res ! (i + j)) + carry :: u128)"
    note sp = product_split [OF Suc.prems(3) p_def]
    let ?res = "res[i + j := ucast p]"
    have up: "limbs_val ?res + 2 ^ (64 * (i + j)) * unat (res ! (i + j))
        = limbs_val res + 2 ^ (64 * (i + j)) * unat (ucast p :: u64)"
      using ij Suc.prems(1) by (intro limbs_val_update) simp
    have total: "limbs_val ?res + 2 ^ (64 * (i + Suc j)) * (unat x * limbs_val (drop (Suc j) rhs) + unat (drop_bit 64 p))
        = limbs_val res + 2 ^ (64 * (i + j)) * (unat x * limbs_val (drop j rhs) + unat carry)"
      using row_step [OF up sp(1), of "limbs_val (drop (Suc j) rhs)"]
        limbs_val_drop [of j rhs] j assms(4)
      by (simp add: power_add ac_simps)
    have IH: "case mul_row x i rhs [Suc j..<4] (drop_bit 64 p) ?res of
       None \<Rightarrow> 2 ^ 256 \<le> limbs_val ?res + 2 ^ (64 * (i + Suc j)) * (unat x * limbs_val (drop (Suc j) rhs) + unat (drop_bit 64 p))
     | Some (res', c) \<Rightarrow> length res' = 4 \<and> (0 < i \<longrightarrow> c = 0) \<and>
         limbs_val res' + 2 ^ 256 * unat c
         = limbs_val ?res + 2 ^ (64 * (i + Suc j)) * (unat x * limbs_val (drop (Suc j) rhs) + unat (drop_bit 64 p))"
      using Suc.hyps(2) Suc.prems(1) ij sp(2) by (intro Suc.hyps(1)) simp_all
    have "mul_row x i rhs [j..<4] carry res = mul_row x i rhs [Suc j..<4] (drop_bit 64 p) ?res"
      using ij by (simp add: upt p_def Let_def)
    then show ?thesis using IH unfolding total by simp
  qed
qed


lemma mul_rows_val:
  assumes len: "length xs = 4" "length rhs = 4"
    and high: "\<And>i. i < 4 \<Longrightarrow> xs ! i \<noteq> 0 \<Longrightarrow> limbs_val (drop (4 - i) rhs) = 0"
  shows "i \<le> 4 \<Longrightarrow> length res = 4 \<Longrightarrow> limbs_val res = limbs_val (take i xs) * limbs_val rhs \<Longrightarrow>
    (case mul_rows xs rhs [i..<4] res of
       None \<Rightarrow> 2 ^ 256 \<le> limbs_val xs * limbs_val rhs
     | Some res' \<Rightarrow> length res' = 4 \<and> limbs_val res' = limbs_val xs * limbs_val rhs)"
proof (induction "4 - i" arbitrary: i res)
  case 0
  then show ?case using len by simp
next
  case (Suc d)
  then have i: "i < 4" and upt: "[i..<4] = i # [Suc i..<4]" by (simp_all add: upt_conv_Cons)
  have next_val: "limbs_val (take (Suc i) xs) * limbs_val rhs
      = limbs_val res + 2 ^ (64 * i) * (unat (xs ! i) * limbs_val rhs)"
    using limbs_val_take_Suc [of i xs] i len Suc.prems(3) by (simp add: algebra_simps)
  have le: "limbs_val (take (Suc i) xs) * limbs_val rhs \<le> limbs_val xs * limbs_val rhs"
    by (intro mult_le_mono1 limbs_val_take_le)
  show ?case
  proof (cases "xs ! i = 0")
    case True
    then show ?thesis using Suc.hyps(1) [of "Suc i" res] Suc.hyps(2) Suc.prems(2) i next_val
      unfolding upt by simp
  next
    case False
    note row = mul_row_val [OF i False high [OF i False] len(2) Suc.prems(2), of 0 0]
    show ?thesis
    proof (cases "mul_row (xs ! i) i rhs [0..<4] 0 res")
      case None
      then have "2 ^ 256 \<le> limbs_val (take (Suc i) xs) * limbs_val rhs"
        using row i next_val by simp
      with le have "2 ^ 256 \<le> limbs_val xs * limbs_val rhs" by linarith
      with None False show ?thesis unfolding upt by simp
    next
      case (Some rc)
      then obtain res' c where rc: "mul_row (xs ! i) i rhs [0..<4] 0 res = Some (res', c)"
        by (cases rc) simp
      then have r: "length res' = 4" "0 < i \<longrightarrow> c = 0"
        "limbs_val res' + 2 ^ 256 * unat c = limbs_val (take (Suc i) xs) * limbs_val rhs"
        using row i next_val by simp_all
      show ?thesis
      proof (cases "c = 0")
        case True
        then show ?thesis using Suc.hyps(1) [of "Suc i" res'] Suc.hyps(2) i r rc False
          unfolding upt by simp
      next
        case c: False
        then have "2 ^ 256 * 1 \<le> 2 ^ 256 * unat c"
          by (intro mult_le_mono2) (simp add: Suc_le_eq unat_gt_0)
        with r(3) le have "2 ^ 256 \<le> limbs_val xs * limbs_val rhs" by linarith
        moreover have "i = 0" using c r(2) by auto
        moreover have "0 < c" using c by (simp add: word_neq_0_conv)
        ultimately show ?thesis using rc False unfolding upt by simp
      qed
    qed
  qed
qed

lemma bit_length_ge: "2 ^ k \<le> n \<Longrightarrow> Suc k \<le> bit_length n"
  using bit_length_le_iff [of n k] by linarith

lemma limbs_val_nth_ge: "i < length xs \<Longrightarrow> xs ! i \<noteq> 0 \<Longrightarrow> 2 ^ (64 * i) \<le> limbs_val xs"
proof -
  assume i: "i < length xs" and "xs ! i \<noteq> 0"
  then have "2 ^ (64 * i) * 1 \<le> 2 ^ (64 * i) * unat (xs ! i)"
    by (intro mult_le_mono2) (simp add: Suc_le_eq unat_gt_0)
  also have "\<dots> \<le> limbs_val (take (Suc i) xs)" using i by (simp add: limbs_val_take_Suc)
  also have "\<dots> \<le> limbs_val xs" by (rule limbs_val_take_le)
  finally show ?thesis by simp
qed

lemma no_high_products:
  assumes "u256_bits x + u256_bits y \<le> 257" "i < 4" "limbs x ! i \<noteq> 0"
  shows "limbs_val (drop (4 - i) (limbs y)) = 0"
proof (rule ccontr)
  assume "limbs_val (drop (4 - i) (limbs y)) \<noteq> 0"
  then have "2 ^ (64 * (4 - i)) * 1 \<le> 2 ^ (64 * (4 - i)) * limbs_val (drop (4 - i) (limbs y))"
    by (intro mult_le_mono2) simp
  also have "\<dots> \<le> uval y"
    using limbs_val_take_drop [of "limbs y" "4 - i"] by (simp add: uval_def)
  finally have "Suc (64 * (4 - i)) \<le> bit_length (uval y)" by (simp add: bit_length_ge)
  moreover have "Suc (64 * i) \<le> bit_length (uval x)"
    using limbs_val_nth_ge [of i "limbs x"] assms(2,3) by (simp add: uval_def bit_length_ge)
  ultimately show False using assms(1,2) by (simp add: u256_bits_val)
qed

lemma bits_overflow:
  assumes "257 < bit_length m + bit_length n" "0 < m" "0 < n"
  shows "2 ^ 256 \<le> m * (n :: nat)"
proof -
  have "2 ^ (bit_length m - 1) * 2 ^ (bit_length n - 1) \<le> m * n"
    using assms(2,3) by (intro mult_le_mono bit_length_lower)
  moreover have "(2::nat) ^ 256 \<le> 2 ^ (bit_length m - 1 + (bit_length n - 1))"
    using assms(1) by (intro power_increasing) simp_all
  ultimately show ?thesis by (simp only: power_add)
qed

lemma u256_checked_mul_spec:
  "case u256_checked_mul x y of
     None \<Rightarrow> 2 ^ 256 \<le> uval x * uval y
   | Some z \<Rightarrow> uval z = uval x * uval y"
proof -
  consider "u256_is_zero x \<or> u256_is_zero y \<or> x = U256_ONE \<or> y = U256_ONE"
    | "257 < u256_bits x + u256_bits y" "\<not> u256_is_zero x" "\<not> u256_is_zero y" "x \<noteq> U256_ONE" "y \<noteq> U256_ONE"
    | "u256_bits x + u256_bits y \<le> 257" "\<not> u256_is_zero x" "\<not> u256_is_zero y" "x \<noteq> U256_ONE" "y \<noteq> U256_ONE"
    by linarith
  then show ?thesis
  proof cases
    case 1
    then show ?thesis by (auto simp: u256_checked_mul_def)
  next
    case 2
    then show ?thesis using bits_overflow [of "uval x" "uval y"]
      by (simp add: u256_checked_mul_def u256_bits_val)
  next
    case 3
    have "case mul_rows (limbs x) (limbs y) [0..<4] [0, 0, 0, 0] of
       None \<Rightarrow> 2 ^ 256 \<le> uval x * uval y
     | Some res' \<Rightarrow> length res' = 4 \<and> limbs_val res' = uval x * uval y"
      unfolding uval_def
      by (rule mul_rows_val) (simp_all add: no_high_products [OF 3(1)])
    then show ?thesis using 3
      by (auto simp: u256_checked_mul_def uval_def split: option.splits)
  qed
qed

lemma u256_checked_mul_Some: "u256_checked_mul x y = Some z \<longleftrightarrow> uval z = uval x * uval y"
  using u256_checked_mul_spec [of x y] uval_lt [of z]
  by (auto simp: uval_eq_iff split: option.splits)

lemma u256_checked_mul_None: "u256_checked_mul x y = None \<longleftrightarrow> 2 ^ 256 \<le> uval x * uval y"
  using u256_checked_mul_spec [of x y] uval_lt [of "the (u256_checked_mul x y)"]
  by (auto split: option.splits)

lemma u256_saturating_mul_val:
  "uval (u256_saturating_mul x y) = min (uval x * uval y) (2 ^ 256 - 1)"
proof (cases "u256_checked_mul x y")
  case None
  then have "2 ^ 256 \<le> uval x * uval y" by (simp only: u256_checked_mul_None)
  then show ?thesis using None by (simp add: u256_saturating_mul_def)
next
  case (Some z)
  then have "uval z = uval x * uval y" by (simp only: u256_checked_mul_Some)
  then show ?thesis using Some uval_lt [of z] by (simp add: u256_saturating_mul_def)
qed

section \<open>Bit operations and shifts\<close>

fun u256_bitand :: "u256 \<Rightarrow> u256 \<Rightarrow> u256" where
  "u256_bitand (U256 a b c d) (U256 a' b' c' d') = U256 (a AND a') (b AND b') (c AND c') (d AND d')"

fun u256_bitor :: "u256 \<Rightarrow> u256 \<Rightarrow> u256" where
  "u256_bitor (U256 a b c d) (U256 a' b' c' d') = U256 (a OR a') (b OR b') (c OR c') (d OR d')"

fun u256_bitxor :: "u256 \<Rightarrow> u256 \<Rightarrow> u256" where
  "u256_bitxor (U256 a b c d) (U256 a' b' c' d') = U256 (a XOR a') (b XOR b') (c XOR c') (d XOR d')"

fun u256_not :: "u256 \<Rightarrow> u256" where
  "u256_not (U256 a b c d) = U256 (NOT a) (NOT b) (NOT c) (NOT d)"

definition u256_shl :: "u256 \<Rightarrow> nat \<Rightarrow> u256" where
  "u256_shl x shift =
     (if 256 \<le> shift then U256_ZERO
      else if shift = 0 then x
      else let limb_shift = shift div 64; bit_shift = shift mod 64
           in of_limbs (map (\<lambda>i.
                if i < limb_shift then 0
                else if bit_shift = 0 then limbs x ! (i - limb_shift)
                else push_bit bit_shift (limbs x ! (i - limb_shift)) OR
                     (if limb_shift < i then drop_bit (64 - bit_shift) (limbs x ! (i - limb_shift - 1))
                      else 0)) [0..<4]))"

definition u256_shr :: "u256 \<Rightarrow> nat \<Rightarrow> u256" where
  "u256_shr x shift =
     (if 256 \<le> shift then U256_ZERO
      else if shift = 0 then x
      else let limb_shift = shift div 64; bit_shift = shift mod 64
           in of_limbs (map (\<lambda>i.
                if 4 - limb_shift \<le> i then 0
                else if bit_shift = 0 then limbs x ! (i + limb_shift)
                else drop_bit bit_shift (limbs x ! (i + limb_shift)) OR
                     (if i + limb_shift + 1 < 4 then push_bit (64 - bit_shift) (limbs x ! (i + limb_shift + 1))
                      else 0)) [0..<4]))"

lemma bit_limbs_val:
  "bit (limbs_val xs) k \<longleftrightarrow> k div 64 < length xs \<and> bit (xs ! (k div 64)) (k mod 64)"
proof (induction xs arbitrary: k)
  case (Cons a xs)
  have lo: "take_bit 64 (limbs_val (a # xs)) = unat a" and hi: "drop_bit 64 (limbs_val (a # xs)) = limbs_val xs"
    using u64_lt [of a] by (simp_all add: take_bit_eq_mod drop_bit_eq_div)
  show ?case
  proof (cases "k < 64")
    case True
    then have "bit (limbs_val (a # xs)) k = bit (take_bit 64 (limbs_val (a # xs))) k"
      by (simp only: bit_take_bit_iff simp_thms)
    then show ?thesis using True unfolding lo by (simp add: bit_unsigned_iff)
  next
    case False
    then have "bit (limbs_val (a # xs)) k = bit (drop_bit 64 (limbs_val (a # xs))) (k - 64)"
      by (simp only: bit_drop_bit_eq o_def) simp
    moreover from False have "k div 64 = Suc ((k - 64) div 64)" "k mod 64 = (k - 64) mod 64"
      by (simp_all add: le_div_geq le_mod_geq)
    ultimately show ?thesis using Cons.IH [of "k - 64"] unfolding hi by simp
  qed
qed simp

lemma bit_uval: "bit (uval x) k \<longleftrightarrow> k < 256 \<and> bit (limbs x ! (k div 64)) (k mod 64)"
proof -
  have "k div 64 < 4 \<longleftrightarrow> k < 256" by (simp add: div_less_iff_less_mult)
  then show ?thesis by (simp add: uval_def bit_limbs_val)
qed

lemma bit_uval_high: "256 \<le> k \<Longrightarrow> \<not> bit (uval x) k"
  by (simp add: bit_uval)

lemma bit_uval_less: "bit (uval x) k \<Longrightarrow> k < 256"
  by (simp add: bit_uval)

lemma digit_64:
  fixes m q b :: nat
  assumes "m = 64 * q + b" "b < 64"
  shows "m div 64 = q \<and> m mod 64 = b"
  using assms by simp

lemma split_shift:
  fixes k n i b l s :: nat
  assumes "k = 64 * i + b" "n = 64 * l + s" "b < 64" "s < 64"
  shows "n \<le> k \<longleftrightarrow> l < i \<or> l = i \<and> s \<le> b"
    and "l \<le> i \<Longrightarrow> s \<le> b \<Longrightarrow> (k - n) div 64 = i - l \<and> (k - n) mod 64 = b - s"
    and "l < i \<Longrightarrow> b < s \<Longrightarrow> (k - n) div 64 = i - l - 1 \<and> (k - n) mod 64 = b + (64 - s)"
proof -
  show "n \<le> k \<longleftrightarrow> l < i \<or> l = i \<and> s \<le> b" using assms by auto
  show "(k - n) div 64 = i - l \<and> (k - n) mod 64 = b - s" if "l \<le> i" "s \<le> b"
  proof -
    have "k - n = 64 * (i - l) + (b - s)" using assms that by (simp add: diff_mult_distrib2)
    then show ?thesis using assms(3) by (intro digit_64) simp_all
  qed
  show "(k - n) div 64 = i - l - 1 \<and> (k - n) mod 64 = b + (64 - s)" if "l < i" "b < s"
  proof -
    have "k - n = 64 * (i - l - 1) + (b + (64 - s))"
      using assms that by (simp add: diff_mult_distrib2)
    then show ?thesis using assms(4) that by (intro digit_64) simp_all
  qed
qed

lemma u256_shl_val: "uval (u256_shl x n) = take_bit 256 (push_bit n (uval x))"
proof (rule bit_eqI)
  fix k :: nat
  define i b l s where d: "i = k div 64" "b = k mod 64" "l = n div 64" "s = n mod 64"
  have e: "k = 64 * i + b" "n = 64 * l + s" "b < 64" "s < 64" by (simp_all add: d)
  note sp = split_shift [OF e]
  show "bit (uval (u256_shl x n)) k = bit (take_bit 256 (push_bit n (uval x))) k"
  proof (cases "k < 256 \<and> n < 256 \<and> n \<noteq> 0")
    case False
    then consider "256 \<le> k" | "256 \<le> n" | "n = 0" by linarith
    then show ?thesis
      by cases (auto simp: u256_shl_def bit_uval_high bit_take_bit_iff bit_push_bit_iff_nat dest: bit_uval_less)
  next
    case True
    then have "i < 4" by (simp add: d div_less_iff_less_mult)
    then have "bit (uval (u256_shl x n)) k = bit
       (if i < l then 0
        else if s = 0 then limbs x ! (i - l)
        else push_bit s (limbs x ! (i - l)) OR
             (if l < i then drop_bit (64 - s) (limbs x ! (i - l - 1)) else 0)) b"
      using True by (simp add: bit_uval u256_shl_def Let_def flip: d)
    moreover have "\<not> bit w (b + 64 - s)" if "s \<le> b" for w :: u64
      using that by (auto dest: bit_imp_le_length)
    ultimately have "bit (uval (u256_shl x n)) k = (n \<le> k \<and> bit (limbs x ! ((k - n) div 64)) ((k - n) mod 64))"
      using sp e(3,4) by (cases "s \<le> b"; cases "l \<le> i"; cases "l < i")
        (auto simp: bit_or_iff bit_push_bit_iff bit_drop_bit_eq ac_simps)
    then show ?thesis using True
      by (auto simp: bit_uval bit_take_bit_iff bit_push_bit_iff_nat)
  qed
qed

lemma join_shift:
  fixes k n i b l s :: nat
  assumes "k = 64 * i + b" "n = 64 * l + s" "b < 64" "s < 64"
  shows "b + s < 64 \<Longrightarrow> (k + n) div 64 = i + l \<and> (k + n) mod 64 = b + s"
    and "64 \<le> b + s \<Longrightarrow> (k + n) div 64 = i + l + 1 \<and> (k + n) mod 64 = b - (64 - s)"
proof -
  show "(k + n) div 64 = i + l \<and> (k + n) mod 64 = b + s" if "b + s < 64"
  proof -
    have "k + n = 64 * (i + l) + (b + s)" using assms by simp
    then show ?thesis using that by (rule digit_64)
  qed
  show "(k + n) div 64 = i + l + 1 \<and> (k + n) mod 64 = b - (64 - s)" if "64 \<le> b + s"
  proof -
    have "k + n = 64 * (i + l + 1) + (b - (64 - s))" using assms that by simp
    then show ?thesis using assms(3) by (intro digit_64) simp_all
  qed
qed

lemma u256_shr_val: "uval (u256_shr x n) = drop_bit n (uval x)"
proof (rule bit_eqI)
  fix k :: nat
  define i b l s where d: "i = k div 64" "b = k mod 64" "l = n div 64" "s = n mod 64"
  have e: "k = 64 * i + b" "n = 64 * l + s" "b < 64" "s < 64" by (simp_all add: d)
  note jn = join_shift [OF e]
  show "bit (uval (u256_shr x n)) k = bit (drop_bit n (uval x)) k"
  proof (cases "k < 256 \<and> n < 256 \<and> n \<noteq> 0")
    case False
    then consider "256 \<le> k" | "256 \<le> n" | "n = 0" by linarith
    then show ?thesis
      by cases (auto simp: u256_shr_def bit_uval_high bit_drop_bit_eq dest: bit_uval_less)
  next
    case True
    then have i: "i < 4" "l < 4" by (simp_all add: d div_less_iff_less_mult)
    then have "bit (uval (u256_shr x n)) k = bit
       (if 4 - l \<le> i then 0
        else if s = 0 then limbs x ! (i + l)
        else drop_bit s (limbs x ! (i + l)) OR
             (if i + l + 1 < 4 then push_bit (64 - s) (limbs x ! (i + l + 1)) else 0)) b"
      using True by (simp add: bit_uval u256_shr_def Let_def flip: d)
    also have "\<dots> = (k + n < 256 \<and> bit (limbs x ! ((k + n) div 64)) ((k + n) mod 64))"
    proof (cases "b + s < 64")
      case True
      then have "k + n < 256 \<longleftrightarrow> i + l < 4" using e by auto
      then show ?thesis using jn(1) [OF True] True e(3,4) i
        by (auto simp: bit_or_iff bit_push_bit_iff bit_drop_bit_eq ac_simps)
    next
      case False
      then have "k + n < 256 \<longleftrightarrow> i + l + 1 < 4" using e by auto
      moreover have "\<not> bit (limbs x ! (i + l)) (b + s)"
        using False by (auto dest: bit_imp_le_length)
      ultimately show ?thesis using jn(2) False e(3,4) i
        by (auto simp: bit_or_iff bit_push_bit_iff bit_drop_bit_eq ac_simps)
    qed
    finally show ?thesis using True
      by (auto simp: bit_uval bit_drop_bit_eq ac_simps)
  qed
qed

lemma limb_index: "k < 256 \<Longrightarrow> k div 64 \<in> {0, 1, 2, 3 :: nat}"
proof -
  assume "k < 256"
  then have "k div 64 < 4" by (simp add: div_less_iff_less_mult)
  then show ?thesis by (simp; linarith)
qed

lemma u256_bitor_val: "uval (u256_bitor x y) = uval x OR uval y"
proof (rule bit_eqI)
  fix k :: nat
  have "limbs (u256_bitor x y) ! (k div 64) = limbs x ! (k div 64) OR limbs y ! (k div 64)"
    if "k < 256"
    using limb_index [OF that] by (cases x; cases y) auto
  then show "bit (uval (u256_bitor x y)) k = bit (uval x OR uval y) k"
    by (auto simp: bit_uval bit_or_iff)
qed

lemma u256_bitand_val: "uval (u256_bitand x y) = uval x AND uval y"
proof (rule bit_eqI)
  fix k :: nat
  have "limbs (u256_bitand x y) ! (k div 64) = limbs x ! (k div 64) AND limbs y ! (k div 64)"
    if "k < 256"
    using limb_index [OF that] by (cases x; cases y) auto
  then show "bit (uval (u256_bitand x y)) k = bit (uval x AND uval y) k"
    by (auto simp: bit_uval bit_and_iff)
qed

lemma u256_bitxor_val: "uval (u256_bitxor x y) = uval x XOR uval y"
proof (rule bit_eqI)
  fix k :: nat
  have "limbs (u256_bitxor x y) ! (k div 64) = limbs x ! (k div 64) XOR limbs y ! (k div 64)"
    if "k < 256"
    using limb_index [OF that] by (cases x; cases y) auto
  then show "bit (uval (u256_bitxor x y)) k = bit (uval x XOR uval y) k"
    by (auto simp: bit_uval bit_xor_iff)
qed

lemma unat_not_u64: "unat (NOT a :: u64) + unat a = 2 ^ 64 - 1"
proof -
  have "NOT a = - 1 - a" by (simp add: not_eq_complement)
  moreover have "unat (- 1 - a) = unat (- 1 :: u64) - unat a"
    by (rule unat_sub) simp
  ultimately show ?thesis using u64_lt [of a] by (simp add: unat_minus_one_word_max)
qed

lemma u256_not_val: "uval (u256_not x) + uval x = 2 ^ 256 - 1"
proof (cases x)
  case (U256 a b c d)
  then show ?thesis
    using unat_not_u64 [of a] unat_not_u64 [of b] unat_not_u64 [of c] unat_not_u64 [of d]
    by (simp add: uval_def)
qed

section \<open>Division, remainder and exponentiation\<close>

text \<open>Shift-and-subtract division; \<open>is\<close> are the remaining values of the loop variable.\<close>

fun div_loop :: "nat list \<Rightarrow> u256 \<Rightarrow> u256 \<Rightarrow> u256 \<Rightarrow> u256 option" where
  "div_loop [] quo remainder divisor = Some quo"
| "div_loop (i # is) quo remainder divisor =
     (if divisor \<le> remainder then
        (case u256_checked_sub remainder divisor of
           None \<Rightarrow> None
         | Some remainder' \<Rightarrow>
             div_loop is (u256_bitor quo (u256_shl U256_ONE i)) remainder' (u256_shr divisor 1))
      else div_loop is quo remainder (u256_shr divisor 1))"

definition u256_checked_div :: "u256 \<Rightarrow> u256 \<Rightarrow> u256 option" where
  "u256_checked_div x y =
     (if u256_is_zero y then None
      else if u256_is_zero x then Some U256_ZERO
      else if x < y then Some U256_ZERO
      else if y = U256_ONE then Some x
      else let shift = u256_leading_zeros y - u256_leading_zeros x
           in div_loop (rev [0..<Suc shift]) U256_ZERO x (u256_shl y shift))"

definition u256_checked_rem :: "u256 \<Rightarrow> u256 \<Rightarrow> u256 option" where
  "u256_checked_rem x y =
     (if u256_is_zero y then None
      else case u256_checked_div x y of
             None \<Rightarrow> None
           | Some quo \<Rightarrow>
               (case u256_checked_mul quo y of
                  None \<Rightarrow> None
                | Some product \<Rightarrow> u256_checked_sub x product))"

fun pow_loop :: "nat \<Rightarrow> u256 \<Rightarrow> u256 \<Rightarrow> u256 option" where
  "pow_loop e base result =
     (if e = 0 then Some result
      else case (if odd e then u256_checked_mul result base else Some result) of
             None \<Rightarrow> None
           | Some result' \<Rightarrow>
               if 0 < e div 2 then
                 (case u256_checked_mul base base of
                    None \<Rightarrow> None
                  | Some base' \<Rightarrow> pow_loop (e div 2) base' result')
               else pow_loop (e div 2) base result')"

declare pow_loop.simps [simp del]

definition u256_checked_pow :: "u256 \<Rightarrow> u32 \<Rightarrow> u256 option" where
  "u256_checked_pow x e = (if e = 0 then Some U256_ONE else pow_loop (unat e) x U256_ONE)"

lemma or_low_bit:
  fixes q :: nat
  assumes "2 ^ Suc i dvd q"
  shows "q OR 2 ^ i = q + 2 ^ i"
proof -
  have "\<not> bit q i" using assms by (auto simp: bit_iff_odd elim!: dvdE)
  then have "q AND 2 ^ i = 0"
    by (intro bit_eqI) (auto simp: bit_and_iff bit_exp_iff)
  then show ?thesis by (simp add: disjunctive_add_eq_or)
qed

lemma div_loop_val:
  "i \<le> 256 \<Longrightarrow> 0 < uval y \<Longrightarrow> (0 < i \<Longrightarrow> uval d = uval y * 2 ^ (i - 1)) \<Longrightarrow>
   uval r < uval y * 2 ^ i \<Longrightarrow> uval q * uval y + uval r = n \<Longrightarrow> 2 ^ i dvd uval q \<Longrightarrow>
   \<exists>z. div_loop (rev [0..<i]) q r d = Some z \<and> uval z = n div uval y"
proof (induction i arbitrary: q r d)
  case 0
  have "n = uval q * uval y + uval r" "uval r < uval y" using 0 by simp_all
  then have "n div uval y = uval q" by (simp add: div_mult_self3)
  then show ?case by simp
next
  case (Suc i)
  have d: "uval d = uval y * 2 ^ i" using Suc.prems(3) by simp
  have d': "uval (u256_shr d 1) = uval y * 2 ^ (i - 1)" if "0 < i"
    using that by (cases i) (simp_all add: u256_shr_val d drop_bit_eq_div)
  have dvd: "2 ^ i dvd uval q" using Suc.prems(6) by (rule power_le_dvd) simp
  show ?case
  proof (cases "uval d \<le> uval r")
    case False
    then show ?thesis
      using Suc.IH [of "u256_shr d 1" r q] Suc.prems d d' dvd by (simp del: One_nat_def)
  next
    case True
    then obtain r' where r': "u256_checked_sub r d = Some r'" "uval r' + uval d = uval r"
      using u256_checked_sub_Some [of r d] u256_checked_sub_None [of r d]
      by (cases "u256_checked_sub r d") auto
    have one: "uval (u256_shl U256_ONE i) = 2 ^ i"
      using power_strict_increasing [of i 256 "2::nat"] Suc.prems(1)
      by (simp add: u256_shl_val take_bit_eq_mod push_bit_eq_mult)
    have q': "uval (u256_bitor q (u256_shl U256_ONE i)) = uval q + 2 ^ i"
      by (simp only: u256_bitor_val one or_low_bit [OF Suc.prems(6)])
    have "uval r' < uval y * 2 ^ i" using r'(2) d Suc.prems(4) by simp
    moreover have "(uval q + 2 ^ i) * uval y + uval r' = n"
      using r'(2) d Suc.prems(5) by (simp add: algebra_simps)
    moreover have "2 ^ i dvd uval q + 2 ^ i" using dvd by simp
    ultimately show ?thesis
      using Suc.IH [of "u256_shr d 1" r' "u256_bitor q (u256_shl U256_ONE i)"] Suc.prems(1,2) d' q' r'(1) True
      by (simp del: One_nat_def)
  qed
qed

lemma u256_checked_div_Some:
  assumes "uval y \<noteq> 0"
  shows "\<exists>z. u256_checked_div x y = Some z \<and> uval z = uval x div uval y"
proof (cases "uval x < uval y \<or> uval y = 1")
  case True
  then show ?thesis using assms
    by (auto simp: u256_checked_div_def uval_eq_iff [of _ U256_ONE] div_less)
next
  case False
  let ?s = "u256_leading_zeros y - u256_leading_zeros x"
  have bl: "bit_length (uval y) \<le> bit_length (uval x)" using False by (intro bit_length_mono) simp
  have pos: "0 < bit_length (uval y)" using assms by (intro Nat.gr0I) simp
  have s: "?s + bit_length (uval y) = bit_length (uval x)"
    using bl bit_length_uval [of x] bit_length_uval [of y] by (simp add: u256_leading_zeros_val)
  have "uval y * 2 ^ ?s < 2 ^ bit_length (uval y) * 2 ^ ?s"
    by (intro mult_strict_right_mono bit_length_upper) simp
  also have "\<dots> = 2 ^ bit_length (uval x)" by (simp only: s [symmetric] power_add mult.commute)
  also have "\<dots> \<le> 2 ^ 256" by (intro power_increasing bit_length_uval) simp
  finally have d: "uval (u256_shl y ?s) = uval y * 2 ^ ?s"
    by (simp add: u256_shl_val take_bit_eq_mod push_bit_eq_mult)
  have "uval x < 2 ^ bit_length (uval x)" by (rule bit_length_upper)
  also have "\<dots> = 2 ^ (bit_length (uval y) - 1) * 2 ^ Suc ?s"
    using s pos by (simp only: power_add [symmetric]) simp
  also have "\<dots> \<le> uval y * 2 ^ Suc ?s"
    using assms by (intro mult_le_mono1 bit_length_lower) simp
  finally have r: "uval x < uval y * 2 ^ Suc ?s" .
  have "\<exists>z. div_loop (rev [0..<Suc ?s]) U256_ZERO x (u256_shl y ?s) = Some z \<and> uval z = uval x div uval y"
    using assms s pos bit_length_uval [of x] d r by (intro div_loop_val) simp_all
  then show ?thesis using False assms
    by (auto simp: u256_checked_div_def Let_def uval_eq_iff [of _ U256_ONE])
qed

lemma u256_checked_div_None: "u256_checked_div x y = None \<longleftrightarrow> uval y = 0"
  using u256_checked_div_Some [of y x] by (auto simp: u256_checked_div_def)

lemma u256_checked_rem_Some:
  assumes "uval y \<noteq> 0"
  shows "\<exists>z. u256_checked_rem x y = Some z \<and> uval z = uval x mod uval y"
proof -
  obtain q where q: "u256_checked_div x y = Some q" "uval q = uval x div uval y"
    using u256_checked_div_Some [OF assms] by blast
  have "uval q * uval y \<le> uval x" using q(2) by simp
  then obtain p where p: "u256_checked_mul q y = Some p" "uval p = uval q * uval y"
    using uval_lt [of x] u256_checked_mul_spec [of q y] by (auto split: option.splits)
  obtain z where z: "u256_checked_sub x p = Some z" "uval z + uval p = uval x"
    using u256_checked_sub_Some [of x p] u256_checked_sub_None [of x p] p(2)
      \<open>uval q * uval y \<le> uval x\<close>
    by (cases "u256_checked_sub x p") auto
  have "uval z = uval x mod uval y"
    using z(2) p(2) div_mult_mod_eq [of "uval x" "uval y"] unfolding q(2) by linarith
  with z(1) p(1) q(1) assms show ?thesis by (simp add: u256_checked_rem_def)
qed

lemma pow_split: "(b :: nat) ^ e = b ^ (e mod 2) * (b * b) ^ (e div 2)"
proof -
  have "(b * b) ^ (e div 2) = b ^ (2 * (e div 2))" by (simp add: power_mult power2_eq_square)
  then show ?thesis by (simp only: power_add [symmetric]) simp
qed

lemma le_mult_power: "0 < k \<Longrightarrow> (r = 0 \<longrightarrow> b = 0) \<Longrightarrow> k \<le> e \<Longrightarrow> b ^ k \<le> r * (b :: nat) ^ e"
proof (cases "b = 0")
  case False
  assume "r = 0 \<longrightarrow> b = 0" "k \<le> e"
  with False have "1 * b ^ k \<le> r * b ^ e" by (intro mult_le_mono power_increasing) simp_all
  then show ?thesis by simp
qed (simp add: power_0_left)

lemma pow_loop_0 [simp]: "pow_loop 0 b r = Some r"
  by (subst pow_loop.simps) simp

lemma pow_loop_val:
  "(uval r = 0 \<longrightarrow> uval b = 0) \<Longrightarrow>
   (case pow_loop e b r of
      None \<Rightarrow> 2 ^ 256 \<le> uval r * uval b ^ e
    | Some z \<Rightarrow> uval z = uval r * uval b ^ e)"
proof (induction e b r rule: pow_loop.induct)
  case (1 e b r)
  let ?first = "if odd e then u256_checked_mul r b else Some r"
  show ?case
  proof (cases "e = 0")
    case True
    then show ?thesis by simp
  next
    case e: False
    show ?thesis
    proof (cases ?first)
      case None
      then have over: "2 ^ 256 \<le> uval r * uval b" by (simp add: u256_checked_mul_None split: if_splits)
      then have "0 < uval b" by (intro Nat.gr0I) simp
      then have "uval b ^ 1 \<le> uval b ^ e" using e by (intro power_increasing) simp_all
      then have "uval r * uval b \<le> uval r * uval b ^ e" by simp
      with over have "2 ^ 256 \<le> uval r * uval b ^ e" by (rule order_trans)
      then show ?thesis using None e by (simp add: pow_loop.simps [of e b r])
    next
      case (Some r')
      then have r': "uval r' = uval r * uval b ^ (e mod 2)"
        by (auto simp: u256_checked_mul_Some odd_iff_mod_2_eq_one even_iff_mod_2_eq_zero split: if_splits)
      show ?thesis
      proof (cases "0 < e div 2")
        case False
        then have "e = 1" using e by linarith
        then show ?thesis using Some r' by (simp add: pow_loop.simps [of "Suc 0" b])
      next
        case half: True
        show ?thesis
        proof (cases "u256_checked_mul b b")
          case None
          then have "2 ^ 256 \<le> uval b ^ 2" by (simp add: u256_checked_mul_None power2_eq_square)
          also have "\<dots> \<le> uval r * uval b ^ e" using half "1.prems" by (intro le_mult_power) simp_all
          finally show ?thesis using None Some half e by (simp add: pow_loop.simps [of e b r])
        next
          case (Some b')
          then have b': "uval b' = uval b * uval b" by (simp add: u256_checked_mul_Some)
          have "case pow_loop (e div 2) b' r' of
              None \<Rightarrow> 2 ^ 256 \<le> uval r' * uval b' ^ (e div 2)
            | Some z \<Rightarrow> uval z = uval r' * uval b' ^ (e div 2)"
            using "1.prems" r' b' by (intro "1.IH"(1) [OF e \<open>?first = Some r'\<close> half Some]) auto
          moreover have "uval r' * uval b' ^ (e div 2) = uval r * uval b ^ e"
            by (simp only: r' b' pow_split [of "uval b" e] mult.assoc)
          moreover have "pow_loop e b r = pow_loop (e div 2) b' r'"
            using \<open>?first = Some r'\<close> Some half e by (simp add: pow_loop.simps [of e b r])
          ultimately show ?thesis by (auto split: option.splits)
        qed
      qed
    qed
  qed
qed

lemma u256_checked_pow_spec:
  "case u256_checked_pow x e of
     None \<Rightarrow> 2 ^ 256 \<le> uval x ^ unat e
   | Some z \<Rightarrow> uval z = uval x ^ unat e"
  using pow_loop_val [of U256_ONE x "unat e"] by (auto simp: u256_checked_pow_def split: option.splits)

section \<open>Conversions\<close>

definition u256_from_be_bytes :: "bytes \<Rightarrow> u256" where
  "u256_from_be_bytes bs =
     of_limbs (map (\<lambda>i. from_be_bytes_w (take 8 (drop ((3 - i) * 8) bs))) [0..<4])"

definition u256_from_le_bytes :: "bytes \<Rightarrow> u256" where
  "u256_from_le_bytes bs =
     of_limbs (map (\<lambda>i. from_le_bytes_w (take 8 (drop (i * 8) bs))) [0..<4])"

definition u256_to_be_bytes :: "u256 \<Rightarrow> bytes" where
  "u256_to_be_bytes x = concat (map (\<lambda>i. to_be_bytes_w (limbs x ! (3 - i))) [0..<4])"

definition u256_to_le_bytes :: "u256 \<Rightarrow> bytes" where
  "u256_to_le_bytes x = concat (map (\<lambda>i. to_le_bytes_w (limbs x ! i)) [0..<4])"

definition u256_from_hex :: "'z prim_env_scheme \<Rightarrow> string \<Rightarrow> primitive_error + u256" where
  "u256_from_hex E s0 =
     (let s = strip_0x s0
      in if s = [] then Inr U256_ZERO
         else if 64 < length s then Inl Overflow
         else case hex_decode E (pad_left 64 (CHR ''0'') s) of
                None \<Rightarrow> Inl InvalidHex
              | Some bs \<Rightarrow> Inr (u256_from_be_bytes bs))"

definition u256_to_hex :: "'z prim_env_scheme \<Rightarrow> u256 \<Rightarrow> string" where
  "u256_to_hex E x =
     (if u256_is_zero x then ''0x0''
      else let trimmed = dropWhile (\<lambda>c. c = CHR ''0'') (hex_encode E (u256_to_be_bytes x))
           in if trimmed = [] then ''0x0'' else ''0x'' @ trimmed)"

definition u256_from_bool :: "bool \<Rightarrow> u256" where
  "u256_from_bool v = (if v then U256_ONE else U256_ZERO)"

definition u64_try_from_u256 :: "u256 \<Rightarrow> primitive_error + u64" where
  "u64_try_from_u256 x =
     (if limbs x ! 1 \<noteq> 0 \<or> limbs x ! 2 \<noteq> 0 \<or> limbs x ! 3 \<noteq> 0 then Inl Overflow
      else Inr (limbs x ! 0))"

definition u128_try_from_u256 :: "u256 \<Rightarrow> primitive_error + u128" where
  "u128_try_from_u256 x =
     (if limbs x ! 2 \<noteq> 0 \<or> limbs x ! 3 \<noteq> 0 then Inl Overflow
      else Inr (u256_low_u128 x))"

lemma upt_4: "[0..<4] = [0, 1, 2, 3 :: nat]"
  by (simp add: upt_rec)

lemma le_val_to_le_bytes_u64 [simp]: "le_val (to_le_bytes_w (w :: u64)) = unat w"
  using u64_lt [of w] by (simp add: to_le_bytes_w_def le_val_digits)

lemma length_to_le_bytes_u64 [simp]: "length (to_le_bytes_w (w :: u64)) = 8"
  by (simp add: to_le_bytes_w_def)

lemma unat_from_le_bytes_u64: "length bs = 8 \<Longrightarrow> unat (from_le_bytes_w bs :: u64) = le_val bs"
  using le_val_lt [of bs] by (simp add: from_le_bytes_w_def unat_of_nat)

lemma u256_to_be_bytes_rev: "u256_to_be_bytes x = rev (u256_to_le_bytes x)"
  by (simp add: u256_to_be_bytes_def u256_to_le_bytes_def to_be_bytes_w_def upt_4)

lemma length_u256_to_le_bytes [simp]: "length (u256_to_le_bytes x) = 32"
  by (simp add: u256_to_le_bytes_def upt_4)

lemma length_u256_to_be_bytes [simp]: "length (u256_to_be_bytes x) = 32"
  by (simp add: u256_to_be_bytes_rev)

lemma le_val_u256_to_le_bytes: "le_val (u256_to_le_bytes x) = uval x"
  by (cases x) (simp add: u256_to_le_bytes_def upt_4 le_val_append uval_def)

lemma le_val_take_drop: "k \<le> length bs \<Longrightarrow> le_val bs = le_val (take k bs) + 256 ^ k * le_val (drop k bs)"
  using le_val_append [of "take k bs" "drop k bs"] by simp

lemma uval_from_le_bytes:
  assumes "length bs = 32"
  shows "uval (u256_from_le_bytes bs) = le_val bs"
proof -
  have "le_val bs = le_val (take 8 bs) + 256 ^ 8 * le_val (drop 8 bs)"
    "le_val (drop 8 bs) = le_val (take 8 (drop 8 bs)) + 256 ^ 8 * le_val (drop 16 bs)"
    "le_val (drop 16 bs) = le_val (take 8 (drop 16 bs)) + 256 ^ 8 * le_val (drop 24 bs)"
    using le_val_take_drop [of 8 bs] le_val_take_drop [of 8 "drop 8 bs"]
      le_val_take_drop [of 8 "drop 16 bs"] assms by simp_all
  then show ?thesis
    using assms by (simp add: u256_from_le_bytes_def upt_4 uval_def unat_from_le_bytes_u64)
qed

lemma take_drop_rev:
  "length bs = 32 \<Longrightarrow> k \<le> 24 \<Longrightarrow> take 8 (drop k (rev bs)) = rev (take 8 (drop (24 - k) bs))"
  by (simp add: drop_rev take_rev take_drop)

lemma u256_from_be_bytes_rev:
  "length bs = 32 \<Longrightarrow> u256_from_be_bytes bs = u256_from_le_bytes (rev bs)"
  by (simp add: u256_from_be_bytes_def u256_from_le_bytes_def from_be_bytes_w_def upt_4 take_drop_rev
      take_drop_rev [of _ 0, simplified] drop_rev [of 24])

lemma u256_le_bytes_roundtrip: "u256_from_le_bytes (u256_to_le_bytes x) = x"
  by (rule uval_inj) (simp add: uval_from_le_bytes le_val_u256_to_le_bytes)

lemma u256_be_bytes_roundtrip [simp]: "u256_from_be_bytes (u256_to_be_bytes x) = x"
  by (simp add: u256_from_be_bytes_rev) (simp add: u256_to_be_bytes_rev u256_le_bytes_roundtrip)

lemma u256_bytes_be_roundtrip: "length bs = 32 \<Longrightarrow> u256_to_be_bytes (u256_from_be_bytes bs) = bs"
proof -
  assume len: "length bs = 32"
  have "u256_to_le_bytes (u256_from_le_bytes (rev bs)) = rev bs"
    by (rule le_val_inj) (simp_all add: len le_val_u256_to_le_bytes uval_from_le_bytes)
  then show ?thesis using len by (simp add: u256_to_be_bytes_rev u256_from_be_bytes_rev)
qed

lemma le_digits_0: "le_digits n 0 = replicate n 0"
  by (induction n) auto

lemma u256_to_be_bytes_ZERO: "u256_to_be_bytes U256_ZERO = replicate 32 0"
proof -
  have "to_be_bytes_w (0 :: u64) = replicate 8 0"
    by (simp add: to_be_bytes_w_def to_le_bytes_w_def le_digits_0)
  then have "u256_to_be_bytes U256_ZERO
      = replicate 8 0 @ replicate 8 0 @ replicate 8 0 @ replicate 8 0"
    by (simp add: u256_to_be_bytes_def U256_ZERO_def upt_4)
  then show ?thesis by (simp flip: replicate_add)
qed

lemma u256_hex_roundtrip:
  assumes "hex_laws E"
  shows "u256_from_hex E (u256_to_hex E x) = Inr x"
proof -
  let ?h = "hex_encode E (u256_to_be_bytes x)" and ?z = "\<lambda>c. c = CHR ''0''"
  have len: "length ?h = 64" using assms by (simp add: hex_laws_length hex_laws_decode_encode hex_laws_zeros)
  have pad: "pad_left 64 (CHR ''0'') (dropWhile ?z ?h) = ?h"
    using len pad_left_dropWhile [of ?h "CHR ''0''"] by simp
  have dec: "hex_decode E ?h = Some (u256_to_be_bytes x)" using assms by (simp add: hex_laws_length hex_laws_decode_encode hex_laws_zeros)
  have short: "length (dropWhile ?z ?h) \<le> 64" using len length_dropWhile_le [of ?z ?h] by simp
  show ?thesis
  proof (cases "u256_is_zero x \<or> dropWhile ?z ?h = []")
    case True
    have "?h = replicate 64 (CHR ''0'')"
    proof (cases "u256_is_zero x")
      case True
      then have "x = U256_ZERO" by (simp add: uval_eq_iff)
      then have "u256_to_be_bytes x = replicate 32 0" by (simp add: u256_to_be_bytes_ZERO)
      then show ?thesis using assms by (simp add: hex_laws_length hex_laws_decode_encode hex_laws_zeros)
    next
      case False
      with True have "\<forall>c \<in> set ?h. c = CHR ''0''" by (simp add: dropWhile_eq_Nil_conv)
      then show ?thesis using len by (metis replicate_length_same)
    qed
    then have pad0: "pad_left 64 (CHR ''0'') ''0'' = ?h"
      using pad_left_dropWhile [of "replicate 64 (CHR ''0'')" "CHR ''0''"]
      by (simp add: pad_left_def replicate_append_same flip: replicate_Suc)
    have "u256_to_hex E x = ''0x0''" using True by (auto simp: u256_to_hex_def Let_def)
    then show ?thesis using pad0 dec
      by (simp add: u256_from_hex_def strip_0x_def strip_prefix_def)
  next
    case False
    define t where "t = dropWhile ?z ?h"
    have t: "t \<noteq> []" "length t \<le> 64" "pad_left 64 (CHR ''0'') t = ?h"
      using False pad short by (simp_all add: t_def)
    have "u256_to_hex E x = ''0x'' @ t" using False by (auto simp: u256_to_hex_def t_def Let_def)
    then show ?thesis using t dec by (simp add: u256_from_hex_def strip_0x_def strip_prefix_def)
  qed
qed

lemma u64_try_from_u256_val:
  "u64_try_from_u256 x = (if uval x < 2 ^ 64 then Inr (u256_low_u64 x) else Inl Overflow)"
proof (cases x)
  case (U256 a b c d)
  have "uval x < 2 ^ 64 \<longleftrightarrow> b = 0 \<and> c = 0 \<and> d = 0"
  proof
    assume "uval x < 2 ^ 64"
    then have "unat b = 0 \<and> unat c = 0 \<and> unat d = 0" by (simp add: U256 uval_def)
    then show "b = 0 \<and> c = 0 \<and> d = 0" by (simp add: unat_eq_zero)
  qed (use U256 u64_lt [of a] in \<open>simp add: uval_def\<close>)
  then show ?thesis using U256 by (auto simp: u64_try_from_u256_def u256_low_u64_def)
qed

lemma u64_try_from_u256_Inr:
  "u64_try_from_u256 x = Inr v \<longleftrightarrow> uval x = unat v"
proof (cases x)
  case (U256 a b c d)
  show ?thesis
  proof
    assume "u64_try_from_u256 x = Inr v"
    then show "uval x = unat v"
      using U256 by (auto simp: u64_try_from_u256_def uval_def split: if_splits)
  next
    assume v: "uval x = unat v"
    then have "x = u256_from_u64 v" by (simp add: uval_eq_iff)
    then show "u64_try_from_u256 x = Inr v"
      by (simp add: u64_try_from_u256_def u256_from_u64_def)
  qed
qed

section \<open>The checked-arithmetic contract\<close>

text \<open>
  What the ledger relies on when it adds and subtracts balances and gas: operations that
  are exact on the values when they return \<open>Some\<close> and return \<open>None\<close> precisely when the
  exact result is not representable. Both \<open>U256\<close> and the built-in unsigned integers keep
  this contract.
\<close>

locale checked_nat =
  fixes val :: "'a \<Rightarrow> nat"
    and bound :: nat
    and add :: "'a \<Rightarrow> 'a \<Rightarrow> 'a option"
    and sub :: "'a \<Rightarrow> 'a \<Rightarrow> 'a option"
    and mul :: "'a \<Rightarrow> 'a \<Rightarrow> 'a option"
  assumes val_bound: "val x < bound"
    and val_eq: "val x = val y \<Longrightarrow> x = y"
    and val_onto: "n < bound \<Longrightarrow> \<exists>x. val x = n"
    and add_exact: "add x y = Some z \<longleftrightarrow> val z = val x + val y"
    and sub_exact: "sub x y = Some z \<longleftrightarrow> val z + val y = val x"
    and mul_exact: "mul x y = Some z \<longleftrightarrow> val z = val x * val y"
begin

lemma add_None: "add x y = None \<longleftrightarrow> bound \<le> val x + val y"
proof
  assume none: "add x y = None"
  show "bound \<le> val x + val y"
  proof (rule ccontr)
    assume "\<not> bound \<le> val x + val y"
    then obtain z where "val z = val x + val y" using val_onto [of "val x + val y"] by auto
    then show False using none add_exact [of x y z] by simp
  qed
next
  assume "bound \<le> val x + val y"
  then show "add x y = None" using add_exact val_bound by (metis leD not_Some_eq)
qed

lemma sub_None: "sub x y = None \<longleftrightarrow> val x < val y"
proof
  assume none: "sub x y = None"
  show "val x < val y"
  proof (rule ccontr)
    assume "\<not> val x < val y"
    moreover have "val x - val y < bound" using val_bound [of x] by simp
    then obtain z where "val z = val x - val y" using val_onto by blast
    ultimately show False using none sub_exact [of x y z] by simp
  qed
next
  assume "val x < val y"
  then show "sub x y = None" using sub_exact by (metis not_Some_eq not_add_less2)
qed

lemma mul_None: "mul x y = None \<longleftrightarrow> bound \<le> val x * val y"
proof
  assume none: "mul x y = None"
  show "bound \<le> val x * val y"
  proof (rule ccontr)
    assume "\<not> bound \<le> val x * val y"
    then obtain z where "val z = val x * val y" using val_onto [of "val x * val y"] by auto
    then show False using none mul_exact [of x y z] by simp
  qed
next
  assume "bound \<le> val x * val y"
  then show "mul x y = None" using mul_exact val_bound by (metis leD not_Some_eq)
qed

lemma add_sub_cancel: "add x y = Some z \<Longrightarrow> sub z y = Some x"
  by (simp add: add_exact sub_exact)

lemma sub_add_cancel: "sub x y = Some z \<Longrightarrow> add z y = Some x"
  by (simp add: add_exact sub_exact)

lemma transfer_conserves:
  "sub a v = Some a' \<Longrightarrow> add b v = Some b' \<Longrightarrow> val a' + val b' = val a + val b"
  by (simp add: add_exact sub_exact)

end

lemma uval_onto: "n < 2 ^ 256 \<Longrightarrow> \<exists>x. uval x = n"
proof -
  assume n: "n < 2 ^ 256"
  have "uval (u256_from_le_bytes (le_digits 32 n)) = n mod 256 ^ 32"
    by (simp add: uval_from_le_bytes le_val_digits)
  then show ?thesis using n by (intro exI [of _ "u256_from_le_bytes (le_digits 32 n)"]) simp
qed

interpretation u256: checked_nat uval "2 ^ 256" u256_checked_add u256_checked_sub u256_checked_mul
  by unfold_locales
    (rule uval_lt uval_inj uval_onto u256_checked_add_Some u256_checked_sub_Some
       u256_checked_mul_Some; assumption?)+

interpretation u64: checked_nat "unat :: u64 \<Rightarrow> nat" "2 ^ 64" checked_add_w checked_sub_w checked_mul_w
proof unfold_locales
  show "unat x < 2 ^ 64" for x :: u64 using u64_lt [of x] by simp
  show "\<exists>x :: u64. unat x = n" if "n < 2 ^ 64" for n
    using that by (intro exI [of _ "of_nat n"]) (simp add: unat_of_nat)
qed (simp_all add: word_unat_eq_iff checked_add_w_Some checked_sub_w_Some checked_mul_w_Some)

section \<open>The other integer types\<close>

text \<open>\<open>U128\<close> wraps a \<open>u128\<close>; \<open>U512\<close> has eight limbs.\<close>

datatype U128 = U128 u128

definition U128_from_u64 :: "u64 \<Rightarrow> U128" where
  "U128_from_u64 v = U128 (ucast v)"

fun U128_is_zero :: "U128 \<Rightarrow> bool" where
  "U128_is_zero (U128 v) \<longleftrightarrow> v = 0"

datatype u512 = U512 "u64 list"

definition u512_wf :: "u512 \<Rightarrow> bool" where
  "u512_wf x = (case x of U512 ls \<Rightarrow> length ls = 8)"

definition u512_is_zero :: "u512 \<Rightarrow> bool" where
  "u512_is_zero x = (case x of U512 ls \<Rightarrow> list_all (\<lambda>i. ls ! i = 0) [0..<8])"

definition u512_to_u256 :: "u512 \<Rightarrow> u256" where
  "u512_to_u256 x = (case x of U512 ls \<Rightarrow> U256 (ls ! 0) (ls ! 1) (ls ! 2) (ls ! 3))"

definition u512_from_u256 :: "u256 \<Rightarrow> u512" where
  "u512_from_u256 x = (case x of U256 a b c d \<Rightarrow> U512 [a, b, c, d, 0, 0, 0, 0])"

lemma u512_u256_roundtrip: "u512_to_u256 (u512_from_u256 x) = x"
  by (cases x) (simp add: u512_to_u256_def u512_from_u256_def)

lemma u512_from_u256_wf: "u512_wf (u512_from_u256 x)"
  by (cases x) (simp add: u512_wf_def u512_from_u256_def)

section \<open>Properties\<close>

text \<open>
  C40: \<open>U256::checked_mul\<close> is exact. It returns the product whenever the product fits into
  256 bits and \<open>None\<close> in every other case: neither the bit-count shortcut nor the
  128-bit row carries lose a product or let an overflow through.
\<close>

theorem u256_mul_exact:
  "(\<forall>z. u256_checked_mul x y = Some z \<longleftrightarrow> uval z = uval x * uval y) \<and>
   (u256_checked_mul x y = None \<longleftrightarrow> 2 ^ 256 \<le> uval x * uval y)"
  by (simp only: u256_checked_mul_Some u256_checked_mul_None simp_thms)

text \<open>
  \<open>U256::checked_div\<close> and \<open>U256::checked_rem\<close> are Euclidean division of the values,
  and fail only for a zero divisor.
\<close>

theorem u256_div_rem_exact:
  "(\<forall>z. u256_checked_div x y = Some z \<longleftrightarrow> uval y \<noteq> 0 \<and> uval z = uval x div uval y) \<and>
   (\<forall>z. u256_checked_rem x y = Some z \<longleftrightarrow> uval y \<noteq> 0 \<and> uval z = uval x mod uval y)"
proof (cases "uval y = 0")
  case True
  then show ?thesis by (simp add: u256_checked_div_def u256_checked_rem_def)
next
  case False
  then show ?thesis
    using u256_checked_div_Some [OF False, of x] u256_checked_rem_Some [OF False, of x]
    by (auto simp: uval_eq_iff)
qed

text \<open>
  \<open>U256::checked_pow\<close> (square and multiply) returns the power exactly when it fits into
  256 bits; squaring the base ahead of need never reports an overflow that is not there.
\<close>

theorem u256_pow_exact:
  "(\<forall>z. u256_checked_pow x e = Some z \<longleftrightarrow> uval z = uval x ^ unat e) \<and>
   (u256_checked_pow x e = None \<longleftrightarrow> 2 ^ 256 \<le> uval x ^ unat e)"
proof (cases "u256_checked_pow x e")
  case None
  then have big: "2 ^ 256 \<le> uval x ^ unat e" using u256_checked_pow_spec [of x e] by simp
  then have "uval z \<noteq> uval x ^ unat e" for z using uval_lt [of z] by linarith
  with None big show ?thesis by simp
next
  case (Some w)
  then have w: "uval w = uval x ^ unat e" using u256_checked_pow_spec [of x e] by simp
  then have "\<not> 2 ^ 256 \<le> uval x ^ unat e" using uval_lt [of w] by linarith
  with Some w show ?thesis by (auto simp: uval_eq_iff)
qed

text \<open>
  \<open>U256::from_hex\<close> reads back what \<open>U256::to_hex\<close> writes, for every value, although
  the printer drops leading zeros.
\<close>

theorem u256_hex_roundtrips:
  assumes "hex_laws E"
  shows "u256_from_hex E (u256_to_hex E x) = Inr x"
  using assms by (rule u256_hex_roundtrip)

theorem u256_hex_roundtrips_witness:
  "u256_from_hex ref_prim (u256_to_hex ref_prim (U256 0 5 0 0)) = Inr (U256 0 5 0 0) \<and>
   u256_to_hex ref_prim (U256 0 5 0 0) = ''0x50000000000000000''"
proof
  show "u256_from_hex ref_prim (u256_to_hex ref_prim (U256 0 5 0 0)) = Inr (U256 0 5 0 0)"
    using u256_hex_roundtrips [OF ref_prim_hex_laws, of "U256 0 5 0 0"] .
  show "u256_to_hex ref_prim (U256 0 5 0 0) = ''0x50000000000000000''"
    by code_simp
qed

end
