(* ===== verification/Hash.thy ===== *)
theory Hash
  imports Uint
begin

text \<open>
  The fixed-size byte types of \<open>crates/ivory-primitives/src/hash.rs\<close> (the \<open>impl_hash\<close>
  macro, with its size as an argument), the account address of \<open>address.rs\<close>, the dynamic
  \<open>Bytes\<close> of \<open>bytes.rs\<close>, the key and signature wrappers of \<open>signature.rs\<close> and the digest of
  \<open>keccak.rs\<close>. A hash of size \<open>n\<close> is a list of \<open>n\<close> bytes.
\<close>

section \<open>Fixed-size hashes\<close>

type_synonym h128 = bytes
type_synonym h160 = bytes
type_synonym h256 = bytes
type_synonym h512 = bytes
type_synonym h520 = bytes

definition hash_zero :: "nat \<Rightarrow> bytes" where
  "hash_zero n = replicate n 0"

definition hash_from_slice :: "nat \<Rightarrow> bytes \<Rightarrow> bytes option" where
  "hash_from_slice n sl = (if length sl \<noteq> n then None else Some sl)"

definition hash_from_hex :: "'z prim_env_scheme \<Rightarrow> nat \<Rightarrow> string \<Rightarrow> primitive_error + bytes" where
  "hash_from_hex E n s0 =
     (let s = strip_0x s0
      in if length s \<noteq> n * 2 then Inl (InvalidLength (n * 2) (length s))
         else case hex_decode E s of
                None \<Rightarrow> Inl InvalidHex
              | Some bs \<Rightarrow>
                  (case hash_from_slice n bs of
                     None \<Rightarrow> Inl (InvalidLength n (length bs))
                   | Some h \<Rightarrow> Inr h))"

definition hash_is_zero :: "bytes \<Rightarrow> bool" where
  "hash_is_zero h = list_all (\<lambda>b. b = 0) h"

definition hash_to_hex :: "'z prim_env_scheme \<Rightarrow> bytes \<Rightarrow> string" where
  "hash_to_hex E h = ''0x'' @ hex_encode E h"

definition hash_to_hex_raw :: "'z prim_env_scheme \<Rightarrow> bytes \<Rightarrow> string" where
  "hash_to_hex_raw E h = hex_encode E h"

definition hash_reversed :: "bytes \<Rightarrow> bytes" where
  "hash_reversed h = rev h"

definition hash_xor :: "nat \<Rightarrow> bytes \<Rightarrow> bytes \<Rightarrow> bytes" where
  "hash_xor n a b = map (\<lambda>i. a ! i XOR b ! i) [0..<n]"

definition hash_and :: "nat \<Rightarrow> bytes \<Rightarrow> bytes \<Rightarrow> bytes" where
  "hash_and n a b = map (\<lambda>i. a ! i AND b ! i) [0..<n]"

definition hash_or :: "nat \<Rightarrow> bytes \<Rightarrow> bytes \<Rightarrow> bytes" where
  "hash_or n a b = map (\<lambda>i. a ! i OR b ! i) [0..<n]"

fun hash_leading_zeros :: "bytes \<Rightarrow> nat" where
  "hash_leading_zeros [] = 0"
| "hash_leading_zeros (b # bs) =
     (if b = 0 then 8 + hash_leading_zeros bs else leading_zeros_w b)"

fun trailing_zero_bits :: "bytes \<Rightarrow> nat" where
  "trailing_zero_bits [] = 0"
| "trailing_zero_bits (b # bs) =
     (if b = 0 then 8 + trailing_zero_bits bs else trailing_zeros_w b)"

definition hash_trailing_zeros :: "bytes \<Rightarrow> nat" where
  "hash_trailing_zeros h = trailing_zero_bits (rev h)"

definition hash_from_u64 :: "nat \<Rightarrow> u64 \<Rightarrow> bytes" where
  "hash_from_u64 n v =
     (let start = n - 8; copy_len = min 8 n
      in take start (hash_zero n) @ drop (8 - copy_len) (to_be_bytes_w v) @
         drop (start + copy_len) (hash_zero n))"

fun hash_cmp :: "bytes \<Rightarrow> bytes \<Rightarrow> ordering" where
  "hash_cmp (a # as) (b # bs) =
     (case cmp_lin a b of Equal \<Rightarrow> hash_cmp as bs | other \<Rightarrow> other)"
| "hash_cmp as bs = cmp_lin (length as) (length bs)"

definition hash_try_from :: "nat \<Rightarrow> bytes \<Rightarrow> primitive_error + bytes" where
  "hash_try_from n sl =
     (case hash_from_slice n sl of
        None \<Rightarrow> Inl (InvalidLength n (length sl))
      | Some h \<Rightarrow> Inr h)"

text \<open>\<open>Display\<close>: the ellipsis is the UTF-8 sequence of U+2026.\<close>

definition hash_display :: "'z prim_env_scheme \<Rightarrow> nat \<Rightarrow> bytes \<Rightarrow> string" where
  "hash_display E n h =
     (if n \<le> 8 then hash_to_hex E h
      else ''0x'' @ hex_encode E (take 4 h) @ [CHR 0xE2, CHR 0x80, CHR 0xA6] @
           hex_encode E (drop (n - 4) h))"

definition byte_02x :: "u8 \<Rightarrow> string" where
  "byte_02x b = [hex_digit (unat b div 16), hex_digit (unat b mod 16)]"

definition hash_lower_hex :: "bool \<Rightarrow> bytes \<Rightarrow> string" where
  "hash_lower_hex alternate h = (if alternate then ''0x'' else []) @ concat (map byte_02x h)"

definition hash_upper_hex :: "bool \<Rightarrow> bytes \<Rightarrow> string" where
  "hash_upper_hex alternate h =
     (if alternate then ''0x'' else []) @ concat (map (\<lambda>b. map ascii_upper (byte_02x b)) h)"

text \<open>
  The sequence visitor of the binary \<open>Deserialize\<close>: it takes exactly \<open>n\<close> elements and
  reports the index at which the sequence ran out.
\<close>

fun hash_visit_seq :: "nat \<Rightarrow> nat \<Rightarrow> bytes \<Rightarrow> nat + (bytes \<times> bytes)" where
  "hash_visit_seq i 0 seq = Inr ([], seq)"
| "hash_visit_seq i (Suc n) seq =
     (case seq of
        [] \<Rightarrow> Inl i
      | b # seq' \<Rightarrow>
          (case hash_visit_seq (Suc i) n seq' of
             Inl e \<Rightarrow> Inl e
           | Inr (arr, rest) \<Rightarrow> Inr (b # arr, rest)))"

definition h256_from_h160 :: "h160 \<Rightarrow> h256" where
  "h256_from_h160 h = take 12 (hash_zero 32) @ h"

definition h256_to_h160 :: "h256 \<Rightarrow> h160" where
  "h256_to_h160 h = take 20 (drop 12 h)"

definition h256_from_u256 :: "u256 \<Rightarrow> h256" where
  "h256_from_u256 u = u256_to_be_bytes u"

definition h256_to_u256 :: "h256 \<Rightarrow> u256" where
  "h256_to_u256 h = u256_from_be_bytes h"

definition keccak256 :: "'z prim_env_scheme \<Rightarrow> bytes \<Rightarrow> h256" where
  "keccak256 E data = sha3_keccak256 E data"

section \<open>Addresses\<close>

type_synonym address = h160

definition address_zero :: address where
  "address_zero = hash_zero 20"

definition address_from_slice :: "bytes \<Rightarrow> address option" where
  "address_from_slice sl = hash_from_slice 20 sl"

definition address_from_hex :: "'z prim_env_scheme \<Rightarrow> string \<Rightarrow> primitive_error + address" where
  "address_from_hex E s = hash_from_hex E 20 s"

definition address_from_h256 :: "h256 \<Rightarrow> address" where
  "address_from_h256 h = h256_to_h160 h"

definition address_to_h256 :: "address \<Rightarrow> h256" where
  "address_to_h256 a = h256_from_h160 a"

definition address_to_hex :: "'z prim_env_scheme \<Rightarrow> address \<Rightarrow> string" where
  "address_to_hex E a = hash_to_hex E a"

definition is_ascii_digit :: "char \<Rightarrow> bool" where
  "is_ascii_digit c = (let n = of_char c :: nat in 48 \<le> n \<and> n \<le> 57)"

definition checksum_char :: "h256 \<Rightarrow> nat \<Rightarrow> char \<Rightarrow> char" where
  "checksum_char hash i ch =
     (if is_ascii_digit ch then ch
      else let byte = hash ! (i div 2);
               nibble = (if i mod 2 = 0 then drop_bit 4 byte else byte AND 0x0f)
           in if 8 \<le> nibble then ascii_upper ch else ch)"

definition string_bytes :: "string \<Rightarrow> bytes" where
  "string_bytes s = map of_char s"

definition address_to_hex_checksummed :: "'z prim_env_scheme \<Rightarrow> address \<Rightarrow> string" where
  "address_to_hex_checksummed E a =
     (let lower = hex_encode E a;
          hash = keccak256 E (string_bytes lower)
      in ''0x'' @ map (\<lambda>i. checksum_char hash i (lower ! i)) [0..<length lower])"

definition address_create :: "'z prim_env_scheme \<Rightarrow> address \<Rightarrow> u64 \<Rightarrow> address" where
  "address_create E sender nonce =
     address_from_h256 (keccak256 E (sender @ to_be_bytes_w nonce))"

definition address_create2 :: "'z prim_env_scheme \<Rightarrow> address \<Rightarrow> h256 \<Rightarrow> h256 \<Rightarrow> address" where
  "address_create2 E sender salt code_hash =
     address_from_h256 (keccak256 E ([0xff] @ sender @ salt @ code_hash))"

section \<open>Dynamic bytes, keys and signatures\<close>

definition bytes_display :: "'z prim_env_scheme \<Rightarrow> bytes \<Rightarrow> string" where
  "bytes_display E b = ''0x'' @ hex_encode E b"

definition bytes_from_json :: "'z prim_env_scheme \<Rightarrow> string \<Rightarrow> bytes option" where
  "bytes_from_json E s =
     hex_decode E (case strip_prefix ''0x'' s of Some t \<Rightarrow> t | None \<Rightarrow> s)"

type_synonym signature = h512
type_synonym public_key = h256
type_synonym secret_key = h256

definition signature_zero :: signature where
  "signature_zero = hash_zero 64"

definition public_key_zero :: public_key where
  "public_key_zero = hash_zero 32"

definition signature_from_slice :: "bytes \<Rightarrow> signature option" where
  "signature_from_slice sl = hash_from_slice 64 sl"

definition public_key_from_slice :: "bytes \<Rightarrow> public_key option" where
  "public_key_from_slice sl = hash_from_slice 32 sl"

definition secret_key_from_slice :: "bytes \<Rightarrow> secret_key option" where
  "secret_key_from_slice sl = hash_from_slice 32 sl"

definition secret_key_debug :: "secret_key \<Rightarrow> string" where
  "secret_key_debug k = ''SecretKey([REDACTED])''"

definition secret_key_serialize :: "secret_key \<Rightarrow> string" where
  "secret_key_serialize k = ''[REDACTED]''"

section \<open>Lemmas\<close>

lemma hash_from_slice_Some: "hash_from_slice n bs = Some h \<longleftrightarrow> h = bs \<and> length bs = n"
  by (auto simp: hash_from_slice_def)

lemma length_hash_zero [simp]: "length (hash_zero n) = n"
  by (simp add: hash_zero_def)

lemma hash_is_zero_iff: "hash_is_zero h \<longleftrightarrow> h = hash_zero (length h)"
  by (induction h) (auto simp: hash_is_zero_def hash_zero_def)

lemma hash_from_hex_length: "hash_from_hex E n s = Inr h \<Longrightarrow> length h = n"
  by (auto simp: hash_from_hex_def Let_def hash_from_slice_Some split: if_splits option.splits)

lemma strip_0x_prefixed [simp]: "strip_0x (CHR ''0'' # CHR ''x'' # s) = s"
  by (simp add: strip_0x_def strip_prefix_def)

lemma hash_hex_roundtrip:
  "hex_laws E \<Longrightarrow> length h = n \<Longrightarrow> hash_from_hex E n (hash_to_hex E h) = Inr h"
  by (simp add: hash_from_hex_def hash_to_hex_def hex_laws_length hex_laws_decode_encode hash_from_slice_def)

lemma hash_from_hex_decode:
  "length t = n * 2 \<Longrightarrow> hex_decode E t = Some h \<Longrightarrow> length h = n \<Longrightarrow>
   hash_from_hex E n (CHR ''0'' # CHR ''x'' # t) = Inr h"
  by (simp add: hash_from_hex_def hash_from_slice_def)

lemma nth_eq_zero_list: "map (\<lambda>i. 0) [0..<n] = replicate n 0"
  by (simp add: map_replicate_const)

lemma hash_xor_self: "hash_xor n a a = hash_zero n"
  by (simp add: hash_xor_def hash_zero_def map_replicate_const)

lemma hash_xor_commute: "hash_xor n a b = hash_xor n b a"
  by (simp add: hash_xor_def xor.commute)

lemma hash_xor_cancel: "length a = n \<Longrightarrow> hash_xor n (hash_xor n a b) b = a"
  by (rule nth_equalityI) (simp_all add: hash_xor_def xor.assoc)

lemma bit_length_be_step:
  "b \<noteq> 0 \<Longrightarrow> bit_length (le_val (bs @ [b])) = 8 * length bs + bit_length (unat (b :: u8))"
proof -
  assume "b \<noteq> 0"
  then have "0 < unat b" by (simp add: unat_gt_0)
  moreover have "le_val bs < 2 ^ (8 * length bs)" using le_val_lt [of bs] by (simp add: power_mult)
  ultimately show ?thesis
    using bit_length_high_digit [of "le_val bs" "8 * length bs" "unat b"]
    by (simp add: le_val_append power_mult)
qed

lemma hash_leading_zeros_val:
  "hash_leading_zeros h + bit_length (le_val (rev h)) = 8 * length h"
proof (induction h)
  case (Cons b bs)
  show ?case
  proof (cases "b = 0")
    case True
    then show ?thesis using Cons by (simp add: le_val_append)
  next
    case False
    then show ?thesis using bit_length_be_step [OF False, of "rev bs"] bit_length_unat [of b]
      by (simp add: leading_zeros_w_def)
  qed
qed simp

lemma cmp_lin_high_digit:
  fixes x y a b m :: nat
  assumes "x < m" "y < m"
  shows "cmp_lin (x + m * a) (y + m * b) = (case cmp_lin a b of Equal \<Rightarrow> cmp_lin x y | other \<Rightarrow> other)"
  using high_digit_less [OF assms(1), of a b y] high_digit_less [OF assms(2), of b a x]
  by (auto simp: cmp_lin_def)

lemma hash_cmp_val:
  "length a = length b \<Longrightarrow> hash_cmp a b = cmp_lin (le_val (rev a)) (le_val (rev b))"
proof (induction a b rule: list_induct2)
  case (Cons x xs y ys)
  have lt: "le_val (rev xs) < 256 ^ length xs" "le_val (rev ys) < 256 ^ length xs"
    using le_val_lt [of "rev xs"] le_val_lt [of "rev ys"] Cons.hyps by simp_all
  have "cmp_lin x y = cmp_lin (unat x) (unat y)"
    by (simp add: cmp_lin_def word_less_nat_alt word_unat_eq_iff)
  then show ?case using cmp_lin_high_digit [OF lt] Cons by (simp add: le_val_append split: ordering.split)
qed (simp add: cmp_lin_def)

lemma u256_from_be_bytes_val: "length h = 32 \<Longrightarrow> uval (u256_from_be_bytes h) = le_val (rev h)"
  by (simp add: u256_from_be_bytes_rev uval_from_le_bytes)

lemma length_keccak256 [simp]: "keccak_laws E \<Longrightarrow> length (keccak256 E d) = 32"
  by (simp add: keccak256_def keccak_laws_def)

lemma length_address_create: "keccak_laws E \<Longrightarrow> length (address_create E s n) = 20"
  by (simp add: address_create_def address_from_h256_def h256_to_h160_def)

lemma length_address_create2: "keccak_laws E \<Longrightarrow> length (address_create2 E s t c) = 20"
  by (simp add: address_create2_def address_from_h256_def h256_to_h160_def)

lemma to_be_bytes_u64_inj: "to_be_bytes_w (a :: u64) = to_be_bytes_w b \<Longrightarrow> a = b"
  unfolding to_be_bytes_w_def
  by (metis le_val_to_le_bytes_u64 rev_is_rev_conv word_unat_eq_iff)

lemma length_to_be_bytes_u64 [simp]: "length (to_be_bytes_w (w :: u64)) = 8"
  by (simp add: to_be_bytes_w_def)

text \<open>Equal contract addresses come from the same creation, or a digest collision is at hand.\<close>

definition address_collision :: "'z prim_env_scheme \<Rightarrow> bytes \<Rightarrow> bytes \<Rightarrow> bool" where
  "address_collision E x y \<longleftrightarrow>
     x \<noteq> y \<and> address_from_h256 (keccak256 E x) = address_from_h256 (keccak256 E y)"

lemma address_create_eq:
  assumes "length s = 20" "length s' = 20" "address_create E s n = address_create E s' n'"
  shows "s = s' \<and> n = n' \<or> address_collision E (s @ to_be_bytes_w n) (s' @ to_be_bytes_w n')"
  using assms to_be_bytes_u64_inj [of n n']
  by (auto simp: address_collision_def address_create_def)

lemma address_create2_eq:
  assumes "length s = 20" "length s' = 20" "length t = 32" "length t' = 32"
    and "address_create2 E s t c = address_create2 E s' t' c'"
  shows "s = s' \<and> t = t' \<and> c = c' \<or>
    address_collision E ([0xff] @ s @ t @ c) ([0xff] @ s' @ t' @ c')"
  using assms by (auto simp: address_collision_def address_create2_def)

lemma ascii_lower_checksum: "ascii_lower (checksum_char h i c) = ascii_lower c"
  by (simp add: checksum_char_def Let_def ascii_lower_upper)

lemma address_checksum_roundtrip:
  assumes "hex_laws E" "length a = 20"
  shows "address_from_hex E (address_to_hex_checksummed E a) = Inr a"
proof -
  let ?l = "hex_encode E a"
  let ?t = "map (\<lambda>i. checksum_char (keccak256 E (string_bytes ?l)) i (?l ! i)) [0..<length ?l]"
  have "map ascii_lower ?t = map ascii_lower ?l"
    by (rule nth_equalityI) (simp_all add: ascii_lower_checksum)
  from hex_laws_case [OF assms(1) this] have "hex_decode E ?t = Some a"
    using assms(1) by (simp add: hex_laws_decode_encode)
  then have "hash_from_hex E 20 (CHR ''0'' # CHR ''x'' # ?t) = Inr a"
    using assms by (intro hash_from_hex_decode) (simp_all add: hex_laws_length)
  then show ?thesis by (simp add: address_from_hex_def address_to_hex_checksummed_def Let_def)
qed

lemma bytes_json_roundtrip: "hex_laws E \<Longrightarrow> bytes_from_json E (bytes_display E b) = Some b"
  by (simp add: bytes_from_json_def bytes_display_def strip_prefix_def hex_laws_decode_encode)

lemma hash_visit_seq_append: "length h = n \<Longrightarrow> hash_visit_seq i n (h @ rest) = Inr (h, rest)"
  by (induction n arbitrary: i h) (auto simp: length_Suc_conv)

lemma hash_visit_seq_short: "length s < n \<Longrightarrow> hash_visit_seq i n s = Inl (i + length s)"
  by (induction n arbitrary: i s) (auto split: list.splits)

lemma h160_h256_roundtrip: "length h = 20 \<Longrightarrow> h256_to_h160 (h256_from_h160 h) = h"
  by (simp add: h256_to_h160_def h256_from_h160_def)

lemma h256_u256_roundtrip: "length h = 32 \<Longrightarrow> h256_from_u256 (h256_to_u256 h) = h"
  by (simp add: h256_from_u256_def h256_to_u256_def u256_bytes_be_roundtrip)

section \<open>Properties\<close>

text \<open>
  Reading a hash as a \<open>U256\<close> keeps its order and loses nothing: the lexicographic byte
  order of \<open>H256\<close> is the numeric order of \<open>to_u256\<close>, and \<open>from_u256\<close> is its inverse.
\<close>

theorem h256_u256_order_iso:
  assumes "length a = 32" "length b = 32"
  shows "hash_cmp a b = u256_cmp (h256_to_u256 a) (h256_to_u256 b) \<and>
    h256_from_u256 (h256_to_u256 a) = a \<and> h256_to_u256 (h256_from_u256 u) = u"
  using assms
  by (simp add: hash_cmp_val h256_to_u256_def u256_cmp_val u256_from_be_bytes_val
      h256_from_u256_def u256_bytes_be_roundtrip)

theorem h256_u256_order_iso_witness:
  "hash_cmp (1 # hash_zero 31) (hash_zero 31 @ [2])
     = u256_cmp (h256_to_u256 (1 # hash_zero 31)) (h256_to_u256 (hash_zero 31 @ [2])) \<and>
   hash_cmp (1 # hash_zero 31) (hash_zero 31 @ [2]) = Greater"
proof
  show "hash_cmp (1 # hash_zero 31) (hash_zero 31 @ [2])
     = u256_cmp (h256_to_u256 (1 # hash_zero 31)) (h256_to_u256 (hash_zero 31 @ [2]))"
    using h256_u256_order_iso [of "1 # hash_zero 31" "hash_zero 31 @ [2]" U256_ZERO] by simp
qed code_simp

text \<open>
  \<open>Address::from_hex\<close> accepts the EIP-55 text of \<open>to_hex_checksummed\<close> and gives the
  address back, whatever the digest makes of the letters' case.
\<close>

theorem address_checksummed_parses:
  assumes "hex_laws E" "length a = 20"
  shows "address_from_hex E (address_to_hex_checksummed E a) = Inr a"
  using assms by (rule address_checksum_roundtrip)

theorem address_checksummed_parses_witness:
  "address_from_hex ref_prim (address_to_hex_checksummed ref_prim (hash_zero 19 @ [0xab]))
   = Inr (hash_zero 19 @ [0xab])"
  using address_checksummed_parses [OF ref_prim_hex_laws, of "hash_zero 19 @ [0xab]"] by simp

end
