(* ===== verification/Codec.thy ===== *)
theory Codec
  imports Uint
begin

text \<open>
  Self-delimiting byte encodings, as combinators. The node serializes with \<open>bincode\<close>, which
  is a parameter of the model; the components state what they rely on (values are read back,
  different values are written differently). The combinators give a concrete serializer for
  which those laws are proved, so that the laws are known to be satisfiable and statements
  that depend on them can be evaluated.
\<close>

type_synonym 'a encoder = "'a \<Rightarrow> bytes"
type_synonym 'a decoder = "bytes \<Rightarrow> ('a \<times> bytes) option"

definition codec :: "'a encoder \<Rightarrow> 'a decoder \<Rightarrow> bool" where
  "codec e d \<longleftrightarrow> (\<forall>x r. d (e x @ r) = Some (x, r))"

definition run_decoder :: "'a decoder \<Rightarrow> bytes \<Rightarrow> 'a option" where
  "run_decoder d bs = (case d bs of Some (x, []) \<Rightarrow> Some x | _ \<Rightarrow> None)"

fun enc_pair :: "'a encoder \<Rightarrow> 'b encoder \<Rightarrow> ('a \<times> 'b) encoder" where
  "enc_pair e f (x, y) = e x @ f y"

definition dec_pair :: "'a decoder \<Rightarrow> 'b decoder \<Rightarrow> ('a \<times> 'b) decoder" where
  "dec_pair d f bs =
     (case d bs of
        None \<Rightarrow> None
      | Some (x, r) \<Rightarrow> (case f r of None \<Rightarrow> None | Some (y, s) \<Rightarrow> Some ((x, y), s)))"

definition enc_word :: "('a::len word) encoder" where
  "enc_word w = le_digits (LENGTH('a) div 8) (unat w)"

definition dec_word :: "('a::len word) decoder" where
  "dec_word bs =
     (let n = LENGTH('a) div 8
      in if length bs < n then None else Some (of_nat (le_val (take n bs)), drop n bs))"

fun enc_list :: "'a encoder \<Rightarrow> ('a list) encoder" where
  "enc_list e [] = [0]"
| "enc_list e (x # xs) = 1 # e x @ enc_list e xs"

fun dec_list_fuel :: "nat \<Rightarrow> 'a decoder \<Rightarrow> ('a list) decoder" where
  "dec_list_fuel 0 d bs = None"
| "dec_list_fuel (Suc n) d bs0 =
     (case bs0 of
        [] \<Rightarrow> None
      | b # bs \<Rightarrow>
          if b = 0 then Some ([], bs)
          else case d bs of
                 None \<Rightarrow> None
               | Some (x, r) \<Rightarrow>
                   (case dec_list_fuel n d r of None \<Rightarrow> None | Some (xs, s) \<Rightarrow> Some (x # xs, s)))"

definition dec_list :: "'a decoder \<Rightarrow> ('a list) decoder" where
  "dec_list d bs = dec_list_fuel (length bs) d bs"

fun enc_option :: "'a encoder \<Rightarrow> ('a option) encoder" where
  "enc_option e None = [0]"
| "enc_option e (Some x) = 1 # e x"

fun dec_option :: "'a decoder \<Rightarrow> ('a option) decoder" where
  "dec_option d [] = None"
| "dec_option d (b # bs) =
     (if b = 0 then Some (None, bs)
      else case d bs of None \<Rightarrow> None | Some (x, r) \<Rightarrow> Some (Some x, r))"

definition dec_map :: "('a \<Rightarrow> 'b) \<Rightarrow> 'a decoder \<Rightarrow> 'b decoder" where
  "dec_map f d bs = (case d bs of None \<Rightarrow> None | Some (x, r) \<Rightarrow> Some (f x, r))"

text \<open>Sequencing, for the fields of a record.\<close>

definition dec_bind :: "'a decoder \<Rightarrow> ('a \<Rightarrow> 'b decoder) \<Rightarrow> 'b decoder" where
  "dec_bind d f bs = (case d bs of None \<Rightarrow> None | Some (x, r) \<Rightarrow> f x r)"

definition dec_return :: "'a \<Rightarrow> 'a decoder" where
  "dec_return x bs = Some (x, bs)"

lemma codecD: "codec e d \<Longrightarrow> d (e x @ r) = Some (x, r)"
  by (simp add: codec_def)

lemma codec_roundtrip: "codec e d \<Longrightarrow> run_decoder d (e x) = Some x"
  using codecD [of e d x "[]"] by (simp add: run_decoder_def)

lemma codec_inj: "codec e d \<Longrightarrow> inj e"
  by (rule injI) (metis codec_roundtrip option.inject)

lemma codec_pair: "codec e d \<Longrightarrow> codec f g \<Longrightarrow> codec (enc_pair e f) (dec_pair d g)"
  by (auto simp: codec_def dec_pair_def)

lemma codec_word:
  assumes "LENGTH('a) = 8 * k"
  shows "codec enc_word (dec_word :: ('a::len word) decoder)"
proof -
  have "(256::nat) ^ k = 2 ^ LENGTH('a)" by (simp add: assms power_mult)
  then have "unat (w :: 'a word) mod 256 ^ k = unat w" for w
    using unat_lt [of w] by simp
  then show ?thesis using assms by (simp add: codec_def enc_word_def dec_word_def le_val_digits)
qed

lemma codec_u8: "codec enc_word (dec_word :: u8 decoder)"
  by (rule codec_word [where k = 1]) simp

lemma codec_u16: "codec enc_word (dec_word :: u16 decoder)"
  by (rule codec_word [where k = 2]) simp

lemma codec_u32: "codec enc_word (dec_word :: u32 decoder)"
  by (rule codec_word [where k = 4]) simp

lemma codec_u64: "codec enc_word (dec_word :: u64 decoder)"
  by (rule codec_word [where k = 8]) simp

lemma dec_list_fuel_enc:
  "codec e d \<Longrightarrow> length (enc_list e xs) \<le> n \<Longrightarrow>
   dec_list_fuel n d (enc_list e xs @ r) = Some (xs, r)"
proof (induction xs arbitrary: n)
  case Nil
  then obtain m where "n = Suc m" by (cases n) simp_all
  then show ?case by simp
next
  case (Cons x xs)
  then obtain m where n: "n = Suc m" by (cases n) simp_all
  then show ?case using Cons codecD [of e d x] by simp
qed

lemma codec_list: "codec e d \<Longrightarrow> codec (enc_list e) (dec_list d)"
  by (simp add: codec_def dec_list_def) (simp add: dec_list_fuel_enc codec_def)

lemma codec_option: "codec e d \<Longrightarrow> codec (enc_option e) (dec_option d)"
proof -
  assume "codec e d"
  then have "dec_option d (enc_option e x @ r) = Some (x, r)" for x r
    by (cases x) (simp_all add: codecD)
  then show ?thesis by (simp add: codec_def)
qed

lemma codec_iso: "codec e d \<Longrightarrow> (\<And>x. f (g x) = x) \<Longrightarrow> codec (e \<circ> g) (dec_map f d)"
  by (simp add: codec_def dec_map_def)

section \<open>The shared base types\<close>

definition enc_bytes :: "bytes encoder" where
  "enc_bytes = enc_list enc_word"

definition dec_bytes :: "bytes decoder" where
  "dec_bytes = dec_list dec_word"

definition enc_string :: "string encoder" where
  "enc_string = enc_bytes \<circ> map of_char"

definition dec_string :: "string decoder" where
  "dec_string = dec_map (map (\<lambda>b. char_of (unat b))) dec_bytes"

definition enc_bool :: "bool encoder" where
  "enc_bool = enc_word \<circ> (\<lambda>b. if b then 1 else (0 :: u8))"

definition dec_bool :: "bool decoder" where
  "dec_bool = dec_map (\<lambda>w. w = (1 :: u8)) dec_word"

definition enc_u256 :: "u256 encoder" where
  "enc_u256 = enc_bytes \<circ> u256_to_be_bytes"

definition dec_u256 :: "u256 decoder" where
  "dec_u256 = dec_map u256_from_be_bytes dec_bytes"

lemma codec_bytes: "codec enc_bytes dec_bytes"
  unfolding enc_bytes_def dec_bytes_def by (intro codec_list codec_u8)

lemma char_of_byte: "char_of (unat (of_char c :: u8)) = c"
proof -
  have "(of_char c :: u8) = of_nat (of_char c)" by (simp add: of_nat_of_char)
  then have "unat (of_char c :: u8) = of_char c mod 256" by (simp only: unat_of_nat) simp
  then show ?thesis by simp
qed

lemma codec_string: "codec enc_string dec_string"
  unfolding enc_string_def dec_string_def
  by (rule codec_iso [OF codec_bytes]) (simp add: comp_def char_of_byte)

lemma codec_bool: "codec enc_bool dec_bool"
  unfolding enc_bool_def dec_bool_def by (rule codec_iso [OF codec_u8]) simp

lemma codec_u256: "codec enc_u256 dec_u256"
  unfolding enc_u256_def dec_u256_def by (rule codec_iso [OF codec_bytes]) simp

lemmas codec_intros = codec_pair codec_list codec_option codec_u8 codec_u16 codec_u32 codec_u64
  codec_bytes codec_string codec_bool codec_u256

lemma dec_bind_enc: "codec e d \<Longrightarrow> dec_bind d f (e x @ r) = f x r"
  by (simp add: codec_def dec_bind_def)

lemmas dec_binds = codec_u8 [THEN dec_bind_enc] codec_u16 [THEN dec_bind_enc]
  codec_u32 [THEN dec_bind_enc] codec_u64 [THEN dec_bind_enc] codec_bytes [THEN dec_bind_enc]
  codec_string [THEN dec_bind_enc] codec_bool [THEN dec_bind_enc] codec_u256 [THEN dec_bind_enc]
  codec_bytes [THEN codec_option, THEN dec_bind_enc]
  codec_string [THEN codec_option, THEN dec_bind_enc]
  codec_bytes [THEN codec_list, THEN dec_bind_enc]

end
