(* ===== verification/Core.thy ===== *)
theory Core
  imports Hash Codec
begin

text \<open>
  The ledger types of \<open>crates/ivory-core/src\<close> (accounts, headers, transactions, receipts,
  blocks, the \<open>IQNT\<close> application envelope) and the signing layer of
  \<open>crates/ivory-crypto/src\<close>. \<open>bincode\<close> and \<open>ed25519-dalek\<close> are parameters in \<open>core_env\<close>; a
  secret, a public key and a signature are the byte lists the wrappers hold.
\<close>

section \<open>Accounts\<close>

record account =
  acc_nonce :: u64
  acc_balance :: u256
  acc_code_hash :: h256
  acc_storage_root :: h256

definition account_new :: account where
  "account_new = \<lparr> acc_nonce = 0, acc_balance = U256_ZERO,
     acc_code_hash = hash_zero 32, acc_storage_root = hash_zero 32 \<rparr>"

definition account_is_empty :: "account \<Rightarrow> bool" where
  "account_is_empty a \<longleftrightarrow>
     acc_nonce a = 0 \<and> u256_is_zero (acc_balance a) \<and>
     acc_code_hash a = hash_zero 32 \<and> acc_storage_root a = hash_zero 32"

section \<open>Blocks and transactions\<close>

record block_header =
  hd_number :: u64
  hd_parent_hash :: h256
  hd_timestamp :: u64
  hd_miner :: address
  hd_gas_limit :: u64
  hd_gas_used :: u64
  hd_state_root :: h256
  hd_transactions_root :: h256
  hd_receipts_root :: h256
  hd_difficulty :: u256
  hd_extra_data :: bytes

record unsigned_transaction =
  tx_from :: address
  tx_to :: "address option"
  tx_value :: u256
  tx_data :: bytes
  tx_gas_price :: u256
  tx_gas :: u64
  tx_nonce :: u64

record transaction = unsigned_transaction +
  tx_signature :: signature
  tx_public_key :: public_key

record log =
  log_address :: address
  log_topics :: "h256 list"
  log_data :: bytes

record receipt =
  rc_tx_hash :: h256
  rc_block_number :: u64
  rc_gas_used :: u64
  rc_status :: bool
  rc_logs :: "log list"

record block =
  blk_header :: block_header
  blk_transactions :: "transaction list"
  blk_receipts :: "receipt list"

datatype block_error =
    GasExceeded
  | InvalidParentHash
  | InvalidTimestamp
  | InvalidQuantEnvelope string
  | InvalidTransactionsRoot
  | InvalidReceiptsRoot
  | TxReceiptCountMismatch

section \<open>The application envelope\<close>

record quant_metric =
  qm_name :: string
  qm_value :: string

record quant_envelope =
  qe_version :: u16
  qe_decision_id :: string
  qe_schema :: string
  qe_metrics :: "quant_metric list"
  qe_content_hash :: "h256 option"
  qe_cid :: "string option"

section \<open>Serialization and signatures as parameters\<close>

record core_env = prim_env +
  bin_header :: "block_header \<Rightarrow> bytes"
  bin_tx :: "transaction \<Rightarrow> bytes"
  bin_unsigned_tx :: "unsigned_transaction \<Rightarrow> bytes"
  bin_txs :: "transaction list \<Rightarrow> bytes"
  bin_receipts :: "receipt list \<Rightarrow> bytes"
  bin_envelope :: "quant_envelope \<Rightarrow> bytes"
  unbin_envelope :: "bytes \<Rightarrow> quant_envelope option"
  ed25519_public :: "secret_key \<Rightarrow> public_key"
  ed25519_sign :: "secret_key \<Rightarrow> bytes \<Rightarrow> signature"
  ed25519_valid_key :: "public_key \<Rightarrow> bool"
  ed25519_verify :: "public_key \<Rightarrow> bytes \<Rightarrow> signature \<Rightarrow> bool"

text \<open>
  What the sources rely on: \<open>bincode\<close> writes different values differently and reads an
  envelope back; a signature has 64 bytes and verifies under the public key of its secret.
\<close>

definition bincode_laws :: "'z core_env_scheme \<Rightarrow> bool" where
  "bincode_laws E \<longleftrightarrow>
     inj (bin_header E) \<and> inj (bin_tx E) \<and> inj (bin_unsigned_tx E) \<and>
     inj (bin_txs E) \<and> inj (bin_receipts E) \<and>
     (\<forall>e. unbin_envelope E (bin_envelope E e) = Some e)"

definition ed25519_laws :: "'z core_env_scheme \<Rightarrow> bool" where
  "ed25519_laws E \<longleftrightarrow>
     (\<forall>sk. ed25519_valid_key E (ed25519_public E sk)) \<and>
     (\<forall>sk m. length (ed25519_sign E sk m) = 64) \<and>
     (\<forall>sk m. ed25519_verify E (ed25519_public E sk) m (ed25519_sign E sk m))"

section \<open>Hashes\<close>

definition header_hash :: "'z core_env_scheme \<Rightarrow> block_header \<Rightarrow> h256" where
  "header_hash E h = keccak256 E (bin_header E h)"

definition tx_hash :: "'z core_env_scheme \<Rightarrow> transaction \<Rightarrow> h256" where
  "tx_hash E tx = keccak256 E (bin_tx E tx)"

definition tx_signing_hash :: "'z core_env_scheme \<Rightarrow> transaction \<Rightarrow> h256" where
  "tx_signing_hash E tx =
     keccak256 E (bin_unsigned_tx E
       \<lparr> tx_from = tx_from tx, tx_to = tx_to tx, tx_value = tx_value tx, tx_data = tx_data tx,
         tx_gas_price = tx_gas_price tx, tx_gas = tx_gas tx, tx_nonce = tx_nonce tx \<rparr>)"

definition list_root_txs :: "'z core_env_scheme \<Rightarrow> transaction list \<Rightarrow> h256" where
  "list_root_txs E txs = keccak256 E (bin_txs E txs)"

definition list_root_receipts :: "'z core_env_scheme \<Rightarrow> receipt list \<Rightarrow> h256" where
  "list_root_receipts E rs = keccak256 E (bin_receipts E rs)"

definition empty_list_roots :: "'z core_env_scheme \<Rightarrow> h256 \<times> h256" where
  "empty_list_roots E = (list_root_txs E [], list_root_receipts E [])"

definition tx_is_create :: "transaction \<Rightarrow> bool" where
  "tx_is_create tx = (tx_to tx = None)"

definition tx_data_len :: "transaction \<Rightarrow> nat" where
  "tx_data_len tx = length (tx_data tx)"

definition block_hash :: "'z core_env_scheme \<Rightarrow> block \<Rightarrow> h256" where
  "block_hash E b = header_hash E (blk_header b)"

definition block_validate :: "'z core_env_scheme \<Rightarrow> block \<Rightarrow> block_error + unit" where
  "block_validate E b =
     (if hd_gas_limit (blk_header b) < hd_gas_used (blk_header b) then Inl GasExceeded
      else if length (blk_transactions b) \<noteq> length (blk_receipts b) then Inl TxReceiptCountMismatch
      else if hd_transactions_root (blk_header b) \<noteq> list_root_txs E (blk_transactions b)
        then Inl InvalidTransactionsRoot
      else if hd_receipts_root (blk_header b) \<noteq> list_root_receipts E (blk_receipts b)
        then Inl InvalidReceiptsRoot
      else Inr ())"

section \<open>Envelope encoding\<close>

definition QUANT_MAGIC :: bytes where
  "QUANT_MAGIC = string_bytes ''IQNT''"

definition QUANT_SCHEMA_VERSION :: u16 where
  "QUANT_SCHEMA_VERSION = 1"

definition quant_encode :: "'z core_env_scheme \<Rightarrow> quant_envelope \<Rightarrow> bytes" where
  "quant_encode E env = QUANT_MAGIC @ bin_envelope E env"

definition quant_decode :: "'z core_env_scheme \<Rightarrow> bytes \<Rightarrow> block_error + quant_envelope" where
  "quant_decode E data =
     (if length data < 4 \<or> take 4 data \<noteq> QUANT_MAGIC
        then Inl (InvalidQuantEnvelope ''missing IQNT magic'')
      else case unbin_envelope E (drop 4 data) of
             None \<Rightarrow> Inl (InvalidQuantEnvelope ''bincode'')
           | Some env \<Rightarrow>
               if qe_version env \<noteq> QUANT_SCHEMA_VERSION
                 then Inl (InvalidQuantEnvelope ''unsupported version'')
               else if qe_decision_id env = []
                 then Inl (InvalidQuantEnvelope ''empty decision_id'')
               else Inr env)"

section \<open>Keys and signed transactions\<close>

datatype crypto_error = InvalidSignature | InvalidPublicKey | InvalidSecretKey | KeyMismatch

definition address_from_public_key :: "'z prim_env_scheme \<Rightarrow> public_key \<Rightarrow> address" where
  "address_from_public_key E pk = address_from_h256 (keccak256 E pk)"

definition public_key_from_secret :: "'z core_env_scheme \<Rightarrow> secret_key \<Rightarrow> public_key" where
  "public_key_from_secret E sk = ed25519_public E sk"

definition address_from_secret :: "'z core_env_scheme \<Rightarrow> secret_key \<Rightarrow> address" where
  "address_from_secret E sk = address_from_public_key E (public_key_from_secret E sk)"

definition keypair_from_seed :: "'z core_env_scheme \<Rightarrow> bytes \<Rightarrow> secret_key \<times> public_key \<times> address" where
  "keypair_from_seed E seed =
     (let pk = ed25519_public E seed in (seed, pk, address_from_public_key E pk))"

definition keypair_from_byte :: "'z core_env_scheme \<Rightarrow> u8 \<Rightarrow> secret_key \<times> public_key \<times> address" where
  "keypair_from_byte E b = keypair_from_seed E (replicate 32 b)"

definition sign_message :: "'z core_env_scheme \<Rightarrow> bytes \<Rightarrow> secret_key \<Rightarrow> signature" where
  "sign_message E message sk = ed25519_sign E sk message"

definition verify_message ::
  "'z core_env_scheme \<Rightarrow> bytes \<Rightarrow> signature \<Rightarrow> public_key \<Rightarrow> crypto_error + unit" where
  "verify_message E message sig pk =
     (if \<not> ed25519_valid_key E pk then Inl InvalidPublicKey
      else if \<not> ed25519_verify E pk message sig then Inl InvalidSignature
      else Inr ())"

definition recover_sender :: "'z core_env_scheme \<Rightarrow> transaction \<Rightarrow> crypto_error + address" where
  "recover_sender E tx =
     (let addr = address_from_public_key E (tx_public_key tx)
      in if addr \<noteq> tx_from tx then Inl KeyMismatch
         else case verify_message E (tx_signing_hash E tx) (tx_signature tx) (tx_public_key tx) of
                Inl e \<Rightarrow> Inl e
              | Inr _ \<Rightarrow> Inr addr)"

definition sign_transaction :: "'z core_env_scheme \<Rightarrow> transaction \<Rightarrow> secret_key \<Rightarrow> transaction" where
  "sign_transaction E tx sk =
     (let tx1 = tx \<lparr> tx_public_key := public_key_from_secret E sk \<rparr>;
          tx2 = tx1 \<lparr> tx_from := address_from_public_key E (tx_public_key tx1) \<rparr>
      in tx2 \<lparr> tx_signature := sign_message E (tx_signing_hash E tx2) sk \<rparr>)"

definition signed_tx ::
  "'z core_env_scheme \<Rightarrow> secret_key \<Rightarrow> address option \<Rightarrow> u64 \<Rightarrow> u256 \<Rightarrow> u64 \<Rightarrow> u256 \<Rightarrow> bytes \<Rightarrow> transaction" where
  "signed_tx E sk to_addr nonce val gas gas_price data =
     sign_transaction E
       \<lparr> tx_from = address_zero, tx_to = to_addr, tx_value = val, tx_data = data,
         tx_gas_price = gas_price, tx_gas = gas, tx_nonce = nonce,
         tx_signature = signature_zero, tx_public_key = public_key_zero \<rparr> sk"

definition signed_transfer ::
  "'z core_env_scheme \<Rightarrow> secret_key \<Rightarrow> address \<Rightarrow> u64 \<Rightarrow> u256 \<Rightarrow> u64 \<Rightarrow> transaction" where
  "signed_transfer E sk to_addr nonce val gas =
     signed_tx E sk (Some to_addr) nonce val gas U256_ONE []"

section \<open>Lemmas\<close>

text \<open>Two inputs with one digest; the statements below name the inputs.\<close>

definition keccak_collision :: "'z prim_env_scheme \<Rightarrow> bytes \<Rightarrow> bytes \<Rightarrow> bool" where
  "keccak_collision E x y \<longleftrightarrow> x \<noteq> y \<and> keccak256 E x = keccak256 E y"

lemma keccak_eq_cases: "keccak256 E x = keccak256 E y \<Longrightarrow> x = y \<or> keccak_collision E x y"
  by (simp add: keccak_collision_def)

lemma block_validate_Inr:
  "block_validate E b = Inr u \<longleftrightarrow>
     hd_gas_used (blk_header b) \<le> hd_gas_limit (blk_header b) \<and>
     length (blk_transactions b) = length (blk_receipts b) \<and>
     hd_transactions_root (blk_header b) = list_root_txs E (blk_transactions b) \<and>
     hd_receipts_root (blk_header b) = list_root_receipts E (blk_receipts b)"
  by (auto simp: block_validate_def not_less)

lemma tx_signing_hash_update [simp]:
  "tx_signing_hash E (tx \<lparr> tx_signature := s \<rparr>) = tx_signing_hash E tx"
  "tx_signing_hash E (tx \<lparr> tx_public_key := k \<rparr>) = tx_signing_hash E tx"
  by (simp_all add: tx_signing_hash_def)

lemma recover_sender_Inr:
  "recover_sender E tx = Inr a \<longleftrightarrow>
     a = tx_from tx \<and> tx_from tx = address_from_public_key E (tx_public_key tx) \<and>
     ed25519_valid_key E (tx_public_key tx) \<and>
     ed25519_verify E (tx_public_key tx) (tx_signing_hash E tx) (tx_signature tx)"
  by (auto simp: recover_sender_def verify_message_def Let_def)

lemma sign_transaction_fields [simp]:
  "tx_public_key (sign_transaction E tx sk) = ed25519_public E sk"
  "tx_from (sign_transaction E tx sk) = address_from_secret E sk"
  "tx_to (sign_transaction E tx sk) = tx_to tx"
  "tx_value (sign_transaction E tx sk) = tx_value tx"
  "tx_data (sign_transaction E tx sk) = tx_data tx"
  "tx_gas_price (sign_transaction E tx sk) = tx_gas_price tx"
  "tx_gas (sign_transaction E tx sk) = tx_gas tx"
  "tx_nonce (sign_transaction E tx sk) = tx_nonce tx"
  by (simp_all add: sign_transaction_def Let_def address_from_secret_def public_key_from_secret_def)

lemma sign_transaction_recovers:
  "ed25519_laws E \<Longrightarrow> recover_sender E (sign_transaction E tx sk) = Inr (address_from_secret E sk)"
  unfolding recover_sender_Inr ed25519_laws_def
  by (simp add: sign_transaction_def Let_def public_key_from_secret_def sign_message_def address_from_secret_def)

lemma quant_decode_encode:
  "bincode_laws E \<Longrightarrow> qe_version e = QUANT_SCHEMA_VERSION \<Longrightarrow> qe_decision_id e \<noteq> [] \<Longrightarrow>
   quant_decode E (quant_encode E e) = Inr e"
  by (simp add: quant_decode_def quant_encode_def bincode_laws_def QUANT_MAGIC_def string_bytes_def)

lemma quant_decode_valid:
  "quant_decode E d = Inr e \<Longrightarrow> qe_version e = QUANT_SCHEMA_VERSION \<and> qe_decision_id e \<noteq> []"
  by (auto simp: quant_decode_def split: if_splits option.splits)

section \<open>A reference environment\<close>

text \<open>
  Concrete parameters for which the laws hold. The signature scheme stands in for Ed25519:
  the public key is the secret and a signature is key and message cut to 64 bytes, which is
  enough for \<open>ed25519_laws\<close>.
\<close>

definition enc_header :: "block_header encoder" where
  "enc_header h =
     enc_word (hd_number h) @ enc_bytes (hd_parent_hash h) @ enc_word (hd_timestamp h) @
     enc_bytes (hd_miner h) @ enc_word (hd_gas_limit h) @ enc_word (hd_gas_used h) @
     enc_bytes (hd_state_root h) @ enc_bytes (hd_transactions_root h) @
     enc_bytes (hd_receipts_root h) @ enc_u256 (hd_difficulty h) @ enc_bytes (hd_extra_data h)"

definition dec_header :: "block_header decoder" where
  "dec_header =
     dec_bind dec_word (\<lambda>n. dec_bind dec_bytes (\<lambda>p. dec_bind dec_word (\<lambda>t.
     dec_bind dec_bytes (\<lambda>m. dec_bind dec_word (\<lambda>gl. dec_bind dec_word (\<lambda>gu.
     dec_bind dec_bytes (\<lambda>sr. dec_bind dec_bytes (\<lambda>tr. dec_bind dec_bytes (\<lambda>rr.
     dec_bind dec_u256 (\<lambda>d. dec_bind dec_bytes (\<lambda>x. dec_return
       \<lparr> hd_number = n, hd_parent_hash = p, hd_timestamp = t, hd_miner = m, hd_gas_limit = gl,
         hd_gas_used = gu, hd_state_root = sr, hd_transactions_root = tr, hd_receipts_root = rr,
         hd_difficulty = d, hd_extra_data = x \<rparr>)))))))))))"

definition enc_unsigned :: "unsigned_transaction encoder" where
  "enc_unsigned t =
     enc_bytes (tx_from t) @ enc_option enc_bytes (tx_to t) @ enc_u256 (tx_value t) @
     enc_bytes (tx_data t) @ enc_u256 (tx_gas_price t) @ enc_word (tx_gas t) @ enc_word (tx_nonce t)"

definition dec_unsigned :: "unsigned_transaction decoder" where
  "dec_unsigned =
     dec_bind dec_bytes (\<lambda>f. dec_bind (dec_option dec_bytes) (\<lambda>t. dec_bind dec_u256 (\<lambda>v.
     dec_bind dec_bytes (\<lambda>d. dec_bind dec_u256 (\<lambda>p. dec_bind dec_word (\<lambda>g.
     dec_bind dec_word (\<lambda>n. dec_return
       \<lparr> tx_from = f, tx_to = t, tx_value = v, tx_data = d, tx_gas_price = p, tx_gas = g,
         tx_nonce = n \<rparr>)))))))"

definition enc_tx :: "transaction encoder" where
  "enc_tx t =
     enc_unsigned (unsigned_transaction.truncate t) @ enc_bytes (tx_signature t) @
     enc_bytes (tx_public_key t)"

definition dec_tx :: "transaction decoder" where
  "dec_tx =
     dec_bind dec_unsigned (\<lambda>u. dec_bind dec_bytes (\<lambda>s. dec_bind dec_bytes (\<lambda>k. dec_return
       (unsigned_transaction.extend u \<lparr> tx_signature = s, tx_public_key = k \<rparr>))))"

definition enc_log :: "log encoder" where
  "enc_log l = enc_bytes (log_address l) @ enc_list enc_bytes (log_topics l) @ enc_bytes (log_data l)"

definition dec_log :: "log decoder" where
  "dec_log =
     dec_bind dec_bytes (\<lambda>a. dec_bind (dec_list dec_bytes) (\<lambda>t. dec_bind dec_bytes (\<lambda>d. dec_return
       \<lparr> log_address = a, log_topics = t, log_data = d \<rparr>)))"

definition enc_receipt :: "receipt encoder" where
  "enc_receipt r =
     enc_bytes (rc_tx_hash r) @ enc_word (rc_block_number r) @ enc_word (rc_gas_used r) @
     enc_bool (rc_status r) @ enc_list enc_log (rc_logs r)"

definition dec_receipt :: "receipt decoder" where
  "dec_receipt =
     dec_bind dec_bytes (\<lambda>h. dec_bind dec_word (\<lambda>n. dec_bind dec_word (\<lambda>g.
     dec_bind dec_bool (\<lambda>s. dec_bind (dec_list dec_log) (\<lambda>l. dec_return
       \<lparr> rc_tx_hash = h, rc_block_number = n, rc_gas_used = g, rc_status = s, rc_logs = l \<rparr>)))))"

definition enc_metric :: "quant_metric encoder" where
  "enc_metric m = enc_string (qm_name m) @ enc_string (qm_value m)"

definition dec_metric :: "quant_metric decoder" where
  "dec_metric = dec_bind dec_string (\<lambda>n. dec_bind dec_string (\<lambda>v. dec_return
     \<lparr> qm_name = n, qm_value = v \<rparr>))"

definition enc_envelope :: "quant_envelope encoder" where
  "enc_envelope e =
     enc_word (qe_version e) @ enc_string (qe_decision_id e) @ enc_string (qe_schema e) @
     enc_list enc_metric (qe_metrics e) @ enc_option enc_bytes (qe_content_hash e) @
     enc_option enc_string (qe_cid e)"

definition dec_envelope :: "quant_envelope decoder" where
  "dec_envelope =
     dec_bind dec_word (\<lambda>v. dec_bind dec_string (\<lambda>i. dec_bind dec_string (\<lambda>s.
     dec_bind (dec_list dec_metric) (\<lambda>m. dec_bind (dec_option dec_bytes) (\<lambda>h.
     dec_bind (dec_option dec_string) (\<lambda>c. dec_return
       \<lparr> qe_version = v, qe_decision_id = i, qe_schema = s, qe_metrics = m,
         qe_content_hash = h, qe_cid = c \<rparr>))))))"

definition ref_sign :: "bytes \<Rightarrow> bytes \<Rightarrow> bytes" where
  "ref_sign sk m = take 64 (sk @ m @ replicate 64 0)"

definition ref_core :: core_env where
  "ref_core = prim_env.extend ref_prim
     \<lparr> bin_header = enc_header, bin_tx = enc_tx, bin_unsigned_tx = enc_unsigned,
       bin_txs = enc_list enc_tx, bin_receipts = enc_list enc_receipt,
       bin_envelope = enc_envelope, unbin_envelope = run_decoder dec_envelope,
       ed25519_public = (\<lambda>sk. sk), ed25519_sign = ref_sign,
       ed25519_valid_key = (\<lambda>pk. True), ed25519_verify = (\<lambda>pk m s. s = ref_sign pk m) \<rparr>"

lemma codec_header: "codec enc_header dec_header"
  by (simp add: codec_def enc_header_def dec_header_def dec_binds dec_return_def)

lemma codec_unsigned: "codec enc_unsigned dec_unsigned"
  by (simp add: codec_def enc_unsigned_def dec_unsigned_def dec_binds dec_return_def)

lemma codec_tx: "codec enc_tx dec_tx"
  by (simp add: codec_def enc_tx_def dec_tx_def dec_binds codec_unsigned [THEN dec_bind_enc]
      dec_return_def unsigned_transaction.defs)

lemma codec_log: "codec enc_log dec_log"
  by (simp add: codec_def enc_log_def dec_log_def dec_binds dec_return_def)

lemma codec_receipt: "codec enc_receipt dec_receipt"
  by (simp add: codec_def enc_receipt_def dec_receipt_def dec_binds
      codec_log [THEN codec_list, THEN dec_bind_enc] dec_return_def)

lemma codec_metric: "codec enc_metric dec_metric"
  by (simp add: codec_def enc_metric_def dec_metric_def dec_binds dec_return_def)

lemma codec_envelope: "codec enc_envelope dec_envelope"
  by (simp add: codec_def enc_envelope_def dec_envelope_def dec_binds
      codec_metric [THEN codec_list, THEN dec_bind_enc] dec_return_def)

lemma ref_core_bincode_laws: "bincode_laws ref_core"
  by (simp add: bincode_laws_def ref_core_def prim_env.defs codec_roundtrip [OF codec_envelope]
      codec_header [THEN codec_inj] codec_tx [THEN codec_inj] codec_unsigned [THEN codec_inj]
      codec_tx [THEN codec_list, THEN codec_inj] codec_receipt [THEN codec_list, THEN codec_inj])

lemma ref_core_ed25519_laws: "ed25519_laws ref_core"
proof -
  have "length (ref_sign sk m) = 64" for sk m
    by (simp only: ref_sign_def length_take length_append length_replicate)
  then show ?thesis by (simp add: ed25519_laws_def ref_core_def prim_env.defs)
qed

lemma ref_core_prim [simp]:
  "sha3_keccak256 ref_core = ref_digest"
  "hex_encode ref_core = ref_hex_encode"
  "hex_decode ref_core = ref_hex_decode"
  by (simp_all add: ref_core_def ref_prim_def prim_env.defs)

lemma ref_core_keccak_laws: "keccak_laws ref_core"
  by (simp add: keccak_laws_def)

section \<open>Properties\<close>

text \<open>
  C39: a block hash commits to the whole block. Two blocks that both pass \<open>Block::validate\<close>
  and have the same hash are equal, header, transactions and receipts, unless two of the
  serializations that were hashed form a Keccak collision.
\<close>

theorem block_hash_commits:
  assumes "bincode_laws E"
    and "block_validate E b = Inr ()" "block_validate E c = Inr ()"
    and "block_hash E b = block_hash E c"
  shows "b = c \<or>
    keccak_collision E (bin_header E (blk_header b)) (bin_header E (blk_header c)) \<or>
    keccak_collision E (bin_txs E (blk_transactions b)) (bin_txs E (blk_transactions c)) \<or>
    keccak_collision E (bin_receipts E (blk_receipts b)) (bin_receipts E (blk_receipts c))"
proof (rule ccontr)
  assume "\<not> ?thesis"
  then have ne: "b \<noteq> c"
    and h: "\<not> keccak_collision E (bin_header E (blk_header b)) (bin_header E (blk_header c))"
    and t: "\<not> keccak_collision E (bin_txs E (blk_transactions b)) (bin_txs E (blk_transactions c))"
    and r: "\<not> keccak_collision E (bin_receipts E (blk_receipts b)) (bin_receipts E (blk_receipts c))"
    by simp_all
  have hd: "blk_header b = blk_header c"
    using assms(1,4) h
    by (auto simp: keccak_collision_def block_hash_def header_hash_def bincode_laws_def dest: injD)
  have "list_root_txs E (blk_transactions b) = list_root_txs E (blk_transactions c)"
    "list_root_receipts E (blk_receipts b) = list_root_receipts E (blk_receipts c)"
    using assms(2,3) hd by (simp_all add: block_validate_Inr)
  then have "blk_transactions b = blk_transactions c" "blk_receipts b = blk_receipts c"
    using assms(1) t r
    by (auto simp: keccak_collision_def list_root_txs_def list_root_receipts_def bincode_laws_def dest: injD)
  with hd ne show False by (simp add: block.equality)
qed

definition sample_header :: block_header where
  "sample_header =
     \<lparr> hd_number = 1, hd_parent_hash = hash_zero 32, hd_timestamp = 7, hd_miner = address_zero,
       hd_gas_limit = 100, hd_gas_used = 0, hd_state_root = hash_zero 32,
       hd_transactions_root = list_root_txs ref_core [],
       hd_receipts_root = list_root_receipts ref_core [],
       hd_difficulty = U256_ZERO, hd_extra_data = [] \<rparr>"

definition sample_block :: block where
  "sample_block = \<lparr> blk_header = sample_header, blk_transactions = [], blk_receipts = [] \<rparr>"

lemma sample_block_validates: "block_validate ref_core sample_block = Inr ()"
  by (simp add: block_validate_Inr sample_block_def sample_header_def)

theorem block_hash_commits_witness:
  "block_validate ref_core sample_block = Inr () \<and>
   (sample_block = sample_block \<or>
    keccak_collision ref_core (bin_header ref_core (blk_header sample_block))
      (bin_header ref_core (blk_header sample_block)) \<or>
    keccak_collision ref_core (bin_txs ref_core (blk_transactions sample_block))
      (bin_txs ref_core (blk_transactions sample_block)) \<or>
    keccak_collision ref_core (bin_receipts ref_core (blk_receipts sample_block))
      (bin_receipts ref_core (blk_receipts sample_block)))"
  using block_hash_commits [OF ref_core_bincode_laws sample_block_validates sample_block_validates]
    sample_block_validates by simp

text \<open>
  A transaction signed by \<open>sign_transaction\<close> is accepted by \<open>recover_sender\<close>, which
  returns the address of the signing key, and signing changes none of the signed-over fields
  but the sender.
\<close>

theorem signed_transaction_recovers:
  assumes "ed25519_laws E"
  shows "recover_sender E (signed_tx E sk to_addr nonce val gas gas_price data)
      = Inr (address_from_secret E sk) \<and>
    tx_to (signed_tx E sk to_addr nonce val gas gas_price data) = to_addr \<and>
    tx_nonce (signed_tx E sk to_addr nonce val gas gas_price data) = nonce \<and>
    tx_value (signed_tx E sk to_addr nonce val gas gas_price data) = val \<and>
    tx_gas (signed_tx E sk to_addr nonce val gas gas_price data) = gas \<and>
    tx_gas_price (signed_tx E sk to_addr nonce val gas gas_price data) = gas_price \<and>
    tx_data (signed_tx E sk to_addr nonce val gas gas_price data) = data"
  using assms by (simp add: signed_tx_def sign_transaction_recovers)

theorem signed_transaction_recovers_witness:
  "recover_sender ref_core (signed_tx ref_core (replicate 32 7) None 0 U256_ONE 21000 U256_ONE [])
   = Inr (address_from_secret ref_core (replicate 32 7))"
  using signed_transaction_recovers [OF ref_core_ed25519_laws, of "replicate 32 7" None 0 U256_ONE 21000 U256_ONE "[]"]
  by simp

end
