(* ===== verification/Trie.thy ===== *)
theory Trie
  imports Core
begin

text \<open>
  The Keccak hexary Patricia trie of \<open>crates/ivory-state/src/trie.rs\<close>: building the root and
  the encoded nodes from key/value pairs, path proofs and their verification. The builder
  pushes every node it encodes to an output list, as the code does.
\<close>

section \<open>Nodes and parameters\<close>

datatype trie_node =
    Empty
  | Leaf bytes bytes
  | Extension bytes h256
  | Branch "h256 option list" "bytes option"

record state_env = core_env +
  bin_node :: "trie_node \<Rightarrow> bytes"
  unbin_node :: "bytes \<Rightarrow> trie_node option"
  bin_account :: "account \<Rightarrow> bytes"
  unbin_account :: "bytes \<Rightarrow> account option"

definition node_laws :: "'z state_env_scheme \<Rightarrow> bool" where
  "node_laws E \<longleftrightarrow>
     (\<forall>n. unbin_node E (bin_node E n) = Some n) \<and>
     (\<forall>a. unbin_account E (bin_account E a) = Some a)"

type_synonym items = "(bytes \<times> bytes) list"
type_synonym node_store = "(h256 \<times> bytes) list"

section \<open>Building\<close>

fun to_nibbles :: "bytes \<Rightarrow> bytes" where
  "to_nibbles [] = []"
| "to_nibbles (b # bs) = drop_bit 4 b # (b AND 0x0f) # to_nibbles bs"

fun shared_len :: "bytes \<Rightarrow> bytes \<Rightarrow> nat" where
  "shared_len (a # as) (b # bs) = (if a = b then Suc (shared_len as bs) else 0)"
| "shared_len _ _ = 0"

definition common_prefix_len :: "items \<Rightarrow> nat" where
  "common_prefix_len items =
     (case items of
        [] \<Rightarrow> 0
      | (first, _) # rest \<Rightarrow> fold (\<lambda>(key, _) n. min n (shared_len first key)) rest (length first))"

definition hash_node :: "'z state_env_scheme \<Rightarrow> trie_node \<Rightarrow> h256" where
  "hash_node E node = keccak256 E (bin_node E node)"

definition empty_root :: "'z state_env_scheme \<Rightarrow> h256" where
  "empty_root E = hash_node E Empty"

definition store_node :: "'z state_env_scheme \<Rightarrow> trie_node \<Rightarrow> node_store \<Rightarrow> h256 \<times> node_store" where
  "store_node E node out =
     (let bs = bin_node E node; h = keccak256 E bs in (h, out @ [(h, bs)]))"

definition strip_items :: "nat \<Rightarrow> items \<Rightarrow> items" where
  "strip_items n items = map (\<lambda>(k, v). (drop n k, v)) items"

definition group_items :: "u8 \<Rightarrow> items \<Rightarrow> items" where
  "group_items i items =
     map (\<lambda>(k, v). (tl k, v)) (filter (\<lambda>(k, _). k \<noteq> [] \<and> hd k = i) items)"

definition branch_value :: "items \<Rightarrow> bytes option" where
  "branch_value items = fold (\<lambda>(key, val) acc. if key = [] then Some val else acc) items None"

definition nibble_range :: "u8 list" where
  "nibble_range = map of_nat [0..<16]"

definition key_weight :: "items \<Rightarrow> nat" where
  "key_weight items = sum_list (map (\<lambda>(k, _). length k) items)"

lemma length_nibble_range [simp]: "length nibble_range = 16"
  by (simp add: nibble_range_def)

lemma nth_nibble_range: "n < 16 \<Longrightarrow> nibble_range ! n = of_nat n"
  unfolding nibble_range_def by (subst nth_map) simp_all

lemma set_nibble_range: "i \<in> set nibble_range \<longleftrightarrow> (\<exists>n < 16. i = of_nat n)"
  unfolding nibble_range_def set_map by (auto simp del: upt_Suc)

lemma key_weight_simps [simp]:
  "key_weight [] = 0"
  "key_weight ((k, v) # items) = length k + key_weight items"
  by (simp_all add: key_weight_def)

lemma key_weight_group_le: "key_weight (group_items i items) + length (group_items i items) \<le> key_weight items"
proof (induction items)
  case (Cons kv items)
  obtain k v where kv: "kv = (k, v)" by fastforce
  show ?case using Cons by (cases k) (auto simp: kv group_items_def)
qed (simp add: group_items_def)

lemma key_weight_group: "group_items i items \<noteq> [] \<Longrightarrow> key_weight (group_items i items) < key_weight items"
  using key_weight_group_le [of i items] by (cases "group_items i items") auto

lemma fold_min_le:
  "fold (\<lambda>(key, _) n. min n (f key)) xs n \<le> (n :: nat)"
proof (induction xs arbitrary: n)
  case (Cons x xs)
  obtain k v where x: "x = (k, v)" by fastforce
  show ?case using order_trans [OF Cons.IH min.cobounded1] by (simp add: x)
qed simp

lemma key_weight_strip_le: "key_weight (strip_items n items) \<le> key_weight items"
  by (induction items) (auto simp: strip_items_def)

lemma key_weight_strip:
  assumes "0 < common_prefix_len items"
  shows "key_weight (strip_items (common_prefix_len items) items) < key_weight items"
proof (cases items)
  case Nil
  with assms show ?thesis by (simp add: common_prefix_len_def)
next
  case (Cons kv rest)
  obtain k v where kv: "kv = (k, v)" by fastforce
  let ?n = "common_prefix_len items"
  have "?n \<le> length k"
    using fold_min_le [of "shared_len k" rest "length k"] Cons kv by (simp add: common_prefix_len_def)
  then have "length (drop ?n k) < length k" using assms by simp
  moreover have "key_weight (strip_items ?n rest) \<le> key_weight rest" by (rule key_weight_strip_le)
  ultimately show ?thesis using Cons kv by (simp add: strip_items_def)
qed

text \<open>
  \<open>store_tree\<close>, \<open>build_node_collected\<close> and the loop over the sixteen nibbles that fills the
  children of a branch (its last argument but one is what is left of the loop's range).
\<close>

function (sequential) store_tree :: "'z state_env_scheme \<Rightarrow> items \<Rightarrow> node_store \<Rightarrow> h256 \<times> node_store"
  and build_node_collected :: "'z state_env_scheme \<Rightarrow> items \<Rightarrow> node_store \<Rightarrow> trie_node \<times> node_store"
  and build_children :: "'z state_env_scheme \<Rightarrow> items \<Rightarrow> u8 list \<Rightarrow> node_store \<Rightarrow> h256 option list \<times> node_store" where
  "store_tree E items out =
     (let (node, out') = build_node_collected E items out in store_node E node out')"
| "build_node_collected E items out =
     (if items = [] then (Empty, out)
      else if length items = 1 then (Leaf (fst (items ! 0)) (snd (items ! 0)), out)
      else if 0 < common_prefix_len items then
        (let prefix = common_prefix_len items;
             (child, out') = store_tree E (strip_items prefix items) out
         in (Extension (take prefix (fst (items ! 0))) child, out'))
      else
        (let (children, out') = build_children E items nibble_range out
         in (Branch children (branch_value items), out')))"
| "build_children E items [] out = ([], out)"
| "build_children E items (i # is) out =
     (if group_items i items = [] then
        (let (cs, out') = build_children E items is out in (None # cs, out'))
      else
        (let (h, out1) = store_tree E (group_items i items) out;
             (cs, out2) = build_children E items is out1
         in (Some h # cs, out2)))"
  by pat_completeness auto

termination
  by (relation "measures
       [\<lambda>x. case x of Inl (E, items, out) \<Rightarrow> key_weight items
             | Inr (Inl (E, items, out)) \<Rightarrow> key_weight items
             | Inr (Inr (E, items, is, out)) \<Rightarrow> key_weight items,
        \<lambda>x. case x of Inl _ \<Rightarrow> 18 | Inr (Inl _) \<Rightarrow> 17 | Inr (Inr (E, items, is, out)) \<Rightarrow> length is]")
    (auto simp: key_weight_strip key_weight_group)

declare store_tree.simps [simp del] build_node_collected.simps [simp del] build_children.simps [simp del]

definition patricia_nodes :: "'z state_env_scheme \<Rightarrow> items \<Rightarrow> h256 \<times> node_store" where
  "patricia_nodes E pairs =
     (if pairs = [] then store_node E Empty []
      else store_tree E (bt_collect (map (\<lambda>(k, v). (to_nibbles k, v)) pairs)) [])"

definition patricia_root :: "'z state_env_scheme \<Rightarrow> items \<Rightarrow> h256" where
  "patricia_root E pairs = fst (patricia_nodes E pairs)"

section \<open>Proofs\<close>

datatype proof_error = InvalidNode | HashMismatch | Incomplete

record trie_proof =
  tp_root :: h256
  tp_nodes :: "bytes list"
  tp_value :: "bytes option"

definition starts_with :: "bytes \<Rightarrow> bytes \<Rightarrow> bool" where
  "starts_with rest path \<longleftrightarrow> take (length path) rest = path"

text \<open>
  The walk of \<open>prove\<close> follows child hashes through the node map. It is a \<open>loop\<close> with no bound
  in the code, so it is a partial function here: \<open>None\<close> means that it does not return.
\<close>

partial_function (option) prove_walk ::
  "'z state_env_scheme \<Rightarrow> (h256, bytes) hmap \<Rightarrow> bytes \<Rightarrow> bytes list \<Rightarrow> h256 \<Rightarrow> (bytes list \<times> bytes option) option" where
  "prove_walk E by_hash rest nodes expected =
     (case hm_get by_hash expected of
        None \<Rightarrow> Some (nodes, None)
      | Some enc \<Rightarrow>
          (let nodes' = nodes @ [enc]
           in case unbin_node E enc of
                None \<Rightarrow> Some (nodes', None)
              | Some node \<Rightarrow>
                  (case node of
                     Empty \<Rightarrow> Some (nodes', None)
                   | Leaf path leaf \<Rightarrow> Some (nodes', if path = rest then Some leaf else None)
                   | Extension path child \<Rightarrow>
                       if starts_with rest path
                       then prove_walk E by_hash (drop (length path) rest) nodes' child
                       else Some (nodes', None)
                   | Branch children branch_val \<Rightarrow>
                       if rest = [] then Some (nodes', branch_val)
                       else case children ! unat (hd rest) of
                              Some h \<Rightarrow> prove_walk E by_hash (tl rest) nodes' h
                            | None \<Rightarrow> Some (nodes', None))))"

definition prove :: "'z state_env_scheme \<Rightarrow> items \<Rightarrow> bytes \<Rightarrow> trie_proof option" where
  "prove E pairs key =
     (let (root, stored) = patricia_nodes E pairs
      in case prove_walk E (hm_collect stored) (to_nibbles key) [] root of
           None \<Rightarrow> None
         | Some (nodes, val) \<Rightarrow> Some \<lparr> tp_root = root, tp_nodes = nodes, tp_value = val \<rparr>)"

fun verify_loop :: "'z state_env_scheme \<Rightarrow> h256 \<Rightarrow> bytes \<Rightarrow> bytes list \<Rightarrow> proof_error + bytes option" where
  "verify_loop E expected rest [] = Inl Incomplete"
| "verify_loop E expected rest (enc # proof) =
     (if keccak256 E enc \<noteq> expected then Inl HashMismatch
      else case unbin_node E enc of
             None \<Rightarrow> Inl InvalidNode
           | Some node \<Rightarrow>
               (let last = (proof = [])
                in case node of
                     Empty \<Rightarrow> if last then Inr None else Inl Incomplete
                   | Leaf path leaf \<Rightarrow>
                       if last then Inr (if path = rest then Some leaf else None) else Inl Incomplete
                   | Extension path child \<Rightarrow>
                       if \<not> starts_with rest path then (if last then Inr None else Inl Incomplete)
                       else if last then Inl Incomplete
                       else verify_loop E child (drop (length path) rest) proof
                   | Branch children branch_val \<Rightarrow>
                       if rest = [] then (if last then Inr branch_val else Inl Incomplete)
                       else case children ! unat (hd rest) of
                              None \<Rightarrow> if last then Inr None else Inl Incomplete
                            | Some h \<Rightarrow>
                                if last then Inl Incomplete else verify_loop E h (tl rest) proof))"

definition trie_verify :: "'z state_env_scheme \<Rightarrow> h256 \<Rightarrow> bytes \<Rightarrow> bytes list \<Rightarrow> proof_error + bytes option" where
  "trie_verify E root key proof =
     (if proof = [] then Inl Incomplete else verify_loop E root (to_nibbles key) proof)"

section \<open>The tree behind the builder\<close>

text \<open>
  What the builder returns does not depend on the output collected so far. \<open>tree_node\<close>,
  \<open>tree_hash\<close> and \<open>tree_out\<close> name the node of an item list, its hash, and every node below it.
\<close>

definition tree_hash :: "'z state_env_scheme \<Rightarrow> items \<Rightarrow> h256" where
  "tree_hash E items = fst (store_tree E items [])"

definition tree_out :: "'z state_env_scheme \<Rightarrow> items \<Rightarrow> node_store" where
  "tree_out E items = snd (store_tree E items [])"

definition tree_node :: "'z state_env_scheme \<Rightarrow> items \<Rightarrow> trie_node" where
  "tree_node E items = fst (build_node_collected E items [])"

lemma build_children_out:
  assumes "\<And>g out. key_weight g < key_weight items \<Longrightarrow>
      store_tree E g out = (tree_hash E g, out @ tree_out E g)"
  shows "build_children E items is out
    = (map (\<lambda>i. if group_items i items = [] then None else Some (tree_hash E (group_items i items))) is,
       out @ concat (map (\<lambda>i. if group_items i items = [] then [] else tree_out E (group_items i items)) is))"
  by (induction "is" arbitrary: out)
    (auto simp: build_children.simps assms key_weight_group)

lemma store_tree_out: "store_tree E items out = (tree_hash E items, out @ tree_out E items)"
proof (induction "key_weight items" arbitrary: items out rule: less_induct)
  case less
  note IH = less(1)
  note children = build_children_out [OF IH]
  have "\<exists>N D. \<forall>out. build_node_collected E items out = (N, out @ D)"
  proof (cases "items = [] \<or> length items = 1")
    case False
    show ?thesis
    proof (cases "0 < common_prefix_len items")
      case True
      then show ?thesis using False IH [OF key_weight_strip [OF True]]
        by (simp add: build_node_collected.simps Let_def)
    next
      case False
      then show ?thesis using \<open>\<not> (items = [] \<or> length items = 1)\<close> children
        by (simp add: build_node_collected.simps Let_def)
    qed
  qed (auto simp: build_node_collected.simps)
  then obtain N D where "\<And>out. build_node_collected E items out = (N, out @ D)" by blast
  then have "store_tree E items out = store_node E N (out @ D)" for out
    by (simp add: store_tree.simps)
  then show ?case by (simp add: tree_hash_def tree_out_def store_node_def Let_def)
qed

lemma tree_hash_node: "tree_hash E items = keccak256 E (bin_node E (tree_node E items))"
  by (simp add: tree_hash_def tree_node_def store_tree.simps store_node_def Let_def split: prod.splits)

lemma tree_out_root: "(tree_hash E items, bin_node E (tree_node E items)) \<in> set (tree_out E items)"
  by (simp add: tree_out_def tree_hash_node tree_node_def store_tree.simps store_node_def Let_def
      split: prod.splits)

lemma tree_out_eq:
  "tree_out E items = snd (build_node_collected E items []) @ [(tree_hash E items, bin_node E (tree_node E items))]"
  by (simp add: tree_out_def tree_hash_node tree_node_def store_tree.simps store_node_def Let_def
      split: prod.splits)

lemma tree_node_Nil [simp]: "tree_node E [] = Empty"
  by (simp add: tree_node_def build_node_collected.simps)

lemma tree_node_single [simp]: "tree_node E [(k, v)] = Leaf k v"
  by (simp add: tree_node_def build_node_collected.simps)

lemma tree_extension:
  assumes "1 < length items" "0 < common_prefix_len items"
  shows "tree_node E items = Extension (take (common_prefix_len items) (fst (items ! 0)))
      (tree_hash E (strip_items (common_prefix_len items) items))"
    and "set (tree_out E (strip_items (common_prefix_len items) items)) \<subseteq> set (tree_out E items)"
  using assms
  by (auto simp: tree_node_def tree_out_eq [of E items] build_node_collected.simps Let_def store_tree_out)

lemma tree_branch:
  assumes "1 < length items" "common_prefix_len items = 0"
  shows "tree_node E items = Branch
      (map (\<lambda>i. if group_items i items = [] then None else Some (tree_hash E (group_items i items)))
         nibble_range) (branch_value items)"
    and "n < 16 \<Longrightarrow> group_items (of_nat n) items \<noteq> [] \<Longrightarrow>
      set (tree_out E (group_items (of_nat n) items)) \<subseteq> set (tree_out E items)"
proof -
  note b = build_children_out [OF store_tree_out, of E items nibble_range "[]"]
  show "tree_node E items = Branch
      (map (\<lambda>i. if group_items i items = [] then None else Some (tree_hash E (group_items i items)))
         nibble_range) (branch_value items)"
    using assms by (auto simp: tree_node_def build_node_collected.simps b)
  assume n: "n < 16" and g: "group_items (of_nat n) items \<noteq> []"
  have "of_nat n \<in> set nibble_range" using n by (auto simp: set_nibble_range)
  then show "set (tree_out E (group_items (of_nat n) items)) \<subseteq> set (tree_out E items)"
    using assms g by (auto simp: tree_out_eq [of E items] build_node_collected.simps b)
qed

lemma tree_out_hash: "(h, e) \<in> set (tree_out E items) \<Longrightarrow> h = keccak256 E e"
proof (induction "key_weight items" arbitrary: items rule: less_induct)
  case less
  show ?case
  proof (cases "items = [] \<or> length items = 1")
    case True
    then show ?thesis using less.prems
      by (auto simp: tree_out_eq build_node_collected.simps tree_hash_node split: if_splits)
  next
    case False
    then have len: "1 < length items" by (cases items) auto
    show ?thesis
    proof (cases "0 < common_prefix_len items")
      case True
      then show ?thesis using less.prems less.hyps [OF key_weight_strip [OF True]] False
        by (auto simp: tree_out_eq [of E items] build_node_collected.simps Let_def store_tree_out tree_hash_node)
    next
      case nop: False
      then show ?thesis using less.prems less.hyps [OF key_weight_group] False
        by (auto simp: tree_out_eq [of E items] build_node_collected.simps Let_def
            build_children_out [OF store_tree_out] tree_hash_node split: if_splits)
    qed
  qed
qed

section \<open>What the tree stores\<close>

lemma shared_len_take: "n \<le> shared_len a b \<Longrightarrow> take n a = take n b \<and> n \<le> length a \<and> n \<le> length b"
proof (induction a b arbitrary: n rule: shared_len.induct)
  case (1 a as b bs)
  then show ?case by (cases n) (auto split: if_splits)
qed simp_all

lemma fold_min_bound:
  "(k, v) \<in> set xs \<Longrightarrow> fold (\<lambda>(key, _) n. min n (f key)) xs n \<le> (f k :: nat)"
proof (induction xs arbitrary: n)
  case (Cons x xs)
  obtain k' v' where x: "x = (k', v')" by fastforce
  show ?case
  proof (cases "(k, v) = x")
    case True
    then show ?thesis using order_trans [OF fold_min_le min.cobounded2] x by simp
  next
    case False
    then have "(k, v) \<in> set xs" using Cons.prems by auto
    then show ?thesis using Cons.IH x by simp
  qed
qed simp

lemma common_prefix_take:
  assumes "(k, v) \<in> set items"
  shows "take (common_prefix_len items) k = take (common_prefix_len items) (fst (items ! 0)) \<and>
    common_prefix_len items \<le> length k"
proof (cases items)
  case (Cons x rest)
  obtain f w where x: "x = (f, w)" by fastforce
  let ?n = "common_prefix_len items"
  have n: "?n = fold (\<lambda>(key, _) n. min n (shared_len f key)) rest (length f)"
    using Cons x by (simp add: common_prefix_len_def)
  show ?thesis
  proof (cases "(k, v) = x")
    case True
    then show ?thesis using n fold_min_le [of "shared_len f" rest "length f"] Cons x by simp
  next
    case False
    then have "(k, v) \<in> set rest" using assms Cons by auto
    then have "?n \<le> shared_len f k" using n fold_min_bound [of k v rest "shared_len f"] by simp
    then show ?thesis using shared_len_take [of ?n f k] Cons x by simp
  qed
qed (use assms in simp)

lemma map_of_strip:
  assumes "\<And>k v. (k, v) \<in> set items \<Longrightarrow> take n k = p" "length p = n"
  shows "map_of (strip_items n items) r = map_of items (p @ r)"
  using assms(1)
proof (induction items)
  case (Cons x items)
  obtain k v where x: "x = (k, v)" by fastforce
  have "take n k = p" using Cons.prems [of k v] x by simp
  then have "drop n k = r \<longleftrightarrow> k = p @ r" using assms(2) by (metis append_eq_conv_conj append_take_drop_id)
  then show ?case using Cons x by (auto simp: strip_items_def)
qed (simp add: strip_items_def)

lemma distinct_strip:
  assumes "\<And>k v. (k, v) \<in> set items \<Longrightarrow> take n k = p" "distinct (map fst items)"
  shows "distinct (map fst (strip_items n items))"
proof -
  have "inj_on (drop n) (fst ` set items)"
    using assms(1) by (intro inj_onI) (metis append_take_drop_id imageE prod.collapse)
  moreover have "map fst (strip_items n items) = map (drop n) (map fst items)"
    by (simp add: strip_items_def comp_def case_prod_beta)
  ultimately show ?thesis using assms(2) by (simp only: distinct_map set_map)
qed

lemma map_of_group: "map_of (group_items x items) xs = map_of items (x # xs)"
proof (induction items)
  case (Cons y items)
  obtain k v where y: "y = (k, v)" by fastforce
  show ?case using Cons y by (cases k) (auto simp: group_items_def)
qed (simp add: group_items_def)

lemma distinct_group: "distinct (map fst items) \<Longrightarrow> distinct (map fst (group_items x items))"
proof (induction items)
  case (Cons y items)
  obtain k v where y: "y = (k, v)" by fastforce
  show ?case
  proof (cases "k \<noteq> [] \<and> hd k = x")
    case False
    then show ?thesis using Cons y by (auto simp: group_items_def)
  next
    case True
    have "tl k \<notin> fst ` set (group_items x items)"
    proof
      assume "tl k \<in> fst ` set (group_items x items)"
      then obtain k' v' where "(k', v') \<in> set items" "k' \<noteq> []" "hd k' = x" "tl k' = tl k"
        by (auto simp: group_items_def)
      then have "k \<in> fst ` set items" using True by (metis fst_conv image_eqI list.collapse)
      then show False using Cons.prems y by simp
    qed
    then show ?thesis using True Cons y by (auto simp: group_items_def)
  qed
qed (simp add: group_items_def)

lemma branch_value_fold:
  "distinct (map fst items) \<Longrightarrow>
   fold (\<lambda>(key, val) acc. if key = [] then Some val else acc) items acc
   = (case map_of items [] of None \<Rightarrow> acc | Some v \<Rightarrow> Some v)"
proof (induction items arbitrary: acc)
  case (Cons y items)
  obtain k v where y: "y = (k, v)" by fastforce
  have "k = [] \<Longrightarrow> map_of items [] = None" using Cons.prems y by (auto simp: map_of_eq_None_iff)
  then show ?case using Cons y by (auto split: option.splits)
qed simp

lemma branch_value_lookup: "distinct (map fst items) \<Longrightarrow> branch_value items = map_of items []"
  by (simp add: branch_value_def branch_value_fold split: option.splits)

definition nibbles_ok :: "bytes \<Rightarrow> bool" where
  "nibbles_ok rest = list_all (\<lambda>x. unat x < 16) rest"

lemma nibble_child: "unat x < 16 \<Longrightarrow> nibble_range ! unat x = (x :: u8)"
  using nth_nibble_range [of "unat x"] by simp

lemma group_empty_lookup: "group_items x items = [] \<Longrightarrow> map_of items (x # xs) = None"
  using map_of_group [of x items xs] by simp

section \<open>Verification is sound\<close>

text \<open>No hashed proof node collides with a node of the tree.\<close>

definition collision_free :: "'z prim_env_scheme \<Rightarrow> bytes set \<Rightarrow> bytes set \<Rightarrow> bool" where
  "collision_free E A B \<longleftrightarrow> (\<forall>a \<in> A. \<forall>b \<in> B. keccak256 E a = keccak256 E b \<longrightarrow> a = b)"

lemma collision_freeD:
  "collision_free E A B \<Longrightarrow> a \<in> A \<Longrightarrow> b \<in> B \<Longrightarrow> keccak256 E a = keccak256 E b \<Longrightarrow> a = b"
  by (simp add: collision_free_def)

lemma collision_free_mono:
  "collision_free E A B \<Longrightarrow> A' \<subseteq> A \<Longrightarrow> B' \<subseteq> B \<Longrightarrow> collision_free E A' B'"
  by (auto simp: collision_free_def)

lemma items_cases:
  obtains "items = []" | k v where "items = [(k, v)]"
    | "1 < length items" "0 < common_prefix_len items"
    | "1 < length items" "common_prefix_len items = 0"
proof (cases items)
  case (Cons kv rest)
  then show ?thesis using that by (cases kv; cases rest) auto
qed (use that in simp)

text \<open>The lookup steps of a walk: what the tree of the remaining items answers.\<close>

lemma lookup_extension:
  assumes "1 < length items" "distinct (map fst items)"
  defines "n \<equiv> common_prefix_len items" and "p \<equiv> take (common_prefix_len items) (fst (items ! 0))"
  shows "starts_with rest p \<Longrightarrow> map_of items rest = map_of (strip_items n items) (drop (length p) rest)"
    and "\<not> starts_with rest p \<Longrightarrow> map_of items rest = None"
    and "distinct (map fst (strip_items n items))"
    and "length p = n"
proof -
  have p: "take n k = p" "n \<le> length k" if "(k, v) \<in> set items" for k v
    using common_prefix_take [OF that] by (simp_all add: n_def p_def)
  have "items ! 0 \<in> set items" using assms(1) by (intro nth_mem) linarith
  then have first: "n \<le> length (fst (items ! 0))" using p(2) [of "fst (items ! 0)" "snd (items ! 0)"] by simp
  then show len: "length p = n" by (simp add: p_def n_def)
  show "distinct (map fst (strip_items n items))" using distinct_strip [of items n p] p(1) assms(2) by blast
  show "map_of items rest = map_of (strip_items n items) (drop (length p) rest)" if "starts_with rest p"
  proof -
    have "p @ drop (length p) rest = rest" using that by (metis append_take_drop_id starts_with_def)
    then show ?thesis using map_of_strip [of items n p "drop (length p) rest"] p(1) len by simp
  qed
  show "map_of items rest = None" if "\<not> starts_with rest p"
  proof (rule ccontr)
    assume "map_of items rest \<noteq> None"
    then obtain v where "(rest, v) \<in> set items" by (auto dest: map_of_SomeD)
    then show False using p(1) that len by (simp add: starts_with_def)
  qed
qed

lemma verify_loop_sound:
  assumes laws: "node_laws E"
  shows "distinct (map fst items) \<Longrightarrow> nibbles_ok rest \<Longrightarrow>
    collision_free E (set pf) (snd ` set (tree_out E items)) \<Longrightarrow>
    verify_loop E (tree_hash E items) rest pf = Inr v \<Longrightarrow> v = map_of items rest"
proof (induction pf arbitrary: items rest)
  case (Cons enc pf)
  have "keccak256 E enc = tree_hash E items" using Cons.prems(4) by (simp split: if_splits)
  then have enc: "enc = bin_node E (tree_node E items)"
    using collision_freeD [OF Cons.prems(3), of enc "bin_node E (tree_node E items)"] tree_out_root [of E items]
    by (force simp: tree_hash_node)
  have node: "unbin_node E enc = Some (tree_node E items)" using laws enc by (simp add: node_laws_def)
  have hash: "keccak256 E enc = tree_hash E items" by (simp add: enc tree_hash_node)
  show ?case
  proof (cases rule: items_cases [of items])
    case 1
    then show ?thesis using Cons.prems(4) node hash by (simp split: if_splits)
  next
    case (2 k w)
    then show ?thesis using Cons.prems(4) node hash by (auto split: if_splits)
  next
    case 3
    note ext = tree_extension [OF 3, of E] and look = lookup_extension [OF 3(1) Cons.prems(1)]
    let ?n = "common_prefix_len items" let ?p = "take ?n (fst (items ! 0))"
    show ?thesis
    proof (cases "starts_with rest ?p")
      case False
      then show ?thesis using Cons.prems(4) node hash look(2) [OF False] by (simp add: ext(1) split: if_splits)
    next
      case True
      have loop: "verify_loop E (tree_hash E (strip_items ?n items)) (drop (length ?p) rest) pf = Inr v"
        using Cons.prems(4) node hash True by (simp add: ext(1) split: if_splits)
      have "nibbles_ok (drop (length ?p) rest)"
        using Cons.prems(2) by (auto simp: nibbles_ok_def list_all_iff dest: in_set_dropD)
      moreover have "collision_free E (set pf) (snd ` set (tree_out E (strip_items ?n items)))"
        using Cons.prems(3) by (rule collision_free_mono) (use ext(2) in auto)
      ultimately show ?thesis using Cons.IH [OF look(3) _ _ loop] look(1) [OF True] by simp
    qed
  next
    case 4
    note br = tree_branch [OF 4, where E = E]
    show ?thesis
    proof (cases rest)
      case Nil
      then show ?thesis using Cons.prems(1,4) node hash
        by (simp add: br(1) branch_value_lookup split: if_splits)
    next
      case (Cons x xs)
      have x: "unat x < 16" using Cons.prems(2) Cons by (simp add: nibbles_ok_def)
      show ?thesis
      proof (cases "group_items x items = []")
        case True
        then show ?thesis using Cons.prems(4) node hash Cons x
          by (simp add: br(1) nibble_child group_empty_lookup split: if_splits)
      next
        case False
        have loop: "verify_loop E (tree_hash E (group_items x items)) xs pf = Inr v"
          using Cons.prems(4) node hash Cons x False
          by (simp add: br(1) nibble_child split: if_splits)
        have "set (tree_out E (group_items x items)) \<subseteq> set (tree_out E items)"
          using br(2) [OF x] False by simp
        then have "collision_free E (set pf) (snd ` set (tree_out E (group_items x items)))"
          using Cons.prems(3) by (elim collision_free_mono) auto
        moreover have "nibbles_ok xs" using Cons.prems(2) Cons by (simp add: nibbles_ok_def)
        ultimately show ?thesis
          using Cons.IH [OF distinct_group [OF Cons.prems(1)] _ _ loop] Cons by (simp add: map_of_group)
      qed
    qed
  qed
qed simp

section \<open>Proofs are complete\<close>

lemma prove_walk_complete:
  assumes laws: "node_laws E"
  shows "distinct (map fst items) \<Longrightarrow> nibbles_ok rest \<Longrightarrow>
    (\<And>e. e \<in> snd ` set (tree_out E items) \<Longrightarrow> hm_get by_hash (keccak256 E e) = Some e) \<Longrightarrow>
    \<exists>ps. prove_walk E by_hash rest nodes (tree_hash E items) = Some (nodes @ ps, map_of items rest) \<and>
      ps \<noteq> [] \<and> set ps \<subseteq> snd ` set (tree_out E items) \<and>
      verify_loop E (tree_hash E items) rest ps = Inr (map_of items rest)"
proof (induction "key_weight items" arbitrary: items rest nodes rule: less_induct)
  case less
  note dist = less.prems(1) and ok = less.prems(2) and get = less.prems(3)
  let ?enc = "bin_node E (tree_node E items)"
  have mem: "?enc \<in> snd ` set (tree_out E items)" using tree_out_root [of E items] by force
  have hash: "keccak256 E ?enc = tree_hash E items" by (simp add: tree_hash_node)
  have at: "hm_get by_hash (tree_hash E items) = Some ?enc" using get [OF mem] hash by simp
  have node: "unbin_node E ?enc = Some (tree_node E items)" using laws by (simp add: node_laws_def)
  note walk = prove_walk.simps [of E by_hash rest nodes "tree_hash E items"]
  show ?case
  proof (cases rule: items_cases [of items])
    case 1
    then show ?thesis using at node hash mem walk by (intro exI [of _ "[?enc]"]) simp
  next
    case (2 k w)
    then show ?thesis using at node hash mem walk by (intro exI [of _ "[?enc]"]) auto
  next
    case 3
    note ext = tree_extension [OF 3, of E] and look = lookup_extension [OF 3(1) dist]
    let ?n = "common_prefix_len items" let ?p = "take ?n (fst (items ! 0))"
    let ?sub = "strip_items ?n items"
    show ?thesis
    proof (cases "starts_with rest ?p")
      case False
      then show ?thesis using at node hash mem walk look(2) [OF False]
        by (intro exI [of _ "[?enc]"]) (simp add: ext(1))
    next
      case True
      have "nibbles_ok (drop (length ?p) rest)"
        using ok by (auto simp: nibbles_ok_def list_all_iff dest: in_set_dropD)
      moreover have "hm_get by_hash (keccak256 E e) = Some e" if "e \<in> snd ` set (tree_out E ?sub)" for e
        using get that ext(2) by blast
      ultimately obtain ps where ps:
        "prove_walk E by_hash (drop (length ?p) rest) (nodes @ [?enc]) (tree_hash E ?sub)
           = Some ((nodes @ [?enc]) @ ps, map_of ?sub (drop (length ?p) rest))"
        "ps \<noteq> []" "set ps \<subseteq> snd ` set (tree_out E ?sub)"
        "verify_loop E (tree_hash E ?sub) (drop (length ?p) rest) ps
           = Inr (map_of ?sub (drop (length ?p) rest))"
        using less.hyps [OF key_weight_strip [OF 3(2)] look(3), of "drop (length ?p) rest" "nodes @ [?enc]"]
        by blast
      then show ?thesis using at node hash mem walk look(1) [OF True] ext True
        by (intro exI [of _ "?enc # ps"]) auto
    qed
  next
    case 4
    note br = tree_branch [OF 4, where E = E]
    show ?thesis
    proof (cases rest)
      case Nil
      then show ?thesis using at node hash mem walk dist
        by (intro exI [of _ "[?enc]"]) (simp add: br(1) branch_value_lookup)
    next
      case (Cons x xs)
      have x: "unat x < 16" using ok Cons by (simp add: nibbles_ok_def)
      let ?sub = "group_items x items"
      show ?thesis
      proof (cases "?sub = []")
        case True
        then show ?thesis using at node hash mem walk Cons x
          by (intro exI [of _ "[?enc]"]) (simp add: br(1) nibble_child group_empty_lookup)
      next
        case False
        have sub: "set (tree_out E ?sub) \<subseteq> set (tree_out E items)" using br(2) [OF x] False by simp
        have "nibbles_ok xs" using ok Cons by (simp add: nibbles_ok_def)
        moreover have "hm_get by_hash (keccak256 E e) = Some e" if "e \<in> snd ` set (tree_out E ?sub)" for e
          using get that sub by blast
        ultimately obtain ps where ps:
          "prove_walk E by_hash xs (nodes @ [?enc]) (tree_hash E ?sub)
             = Some ((nodes @ [?enc]) @ ps, map_of ?sub xs)"
          "ps \<noteq> []" "set ps \<subseteq> snd ` set (tree_out E ?sub)"
          "verify_loop E (tree_hash E ?sub) xs ps = Inr (map_of ?sub xs)"
          using less.hyps [OF key_weight_group [OF False] distinct_group [OF dist], of xs "nodes @ [?enc]"]
          by blast
        then show ?thesis using at node hash mem walk br(1) Cons x False sub
          by (intro exI [of _ "?enc # ps"]) (auto simp: nibble_child map_of_group)
      qed
    qed
  qed
qed

section \<open>From byte keys\<close>

definition trie_items :: "items \<Rightarrow> items" where
  "trie_items pairs = bt_collect (map (\<lambda>(k, v). (to_nibbles k, v)) pairs)"

text \<open>The last value given for a key, which is what the trie is to hold for it.\<close>

definition last_value :: "items \<Rightarrow> bytes \<Rightarrow> bytes option" where
  "last_value pairs key = map_of (rev pairs) key"

definition trie_node_set :: "'z state_env_scheme \<Rightarrow> items \<Rightarrow> bytes set" where
  "trie_node_set E pairs = snd ` set (snd (patricia_nodes E pairs))"

lemma byte_nibbles: "unat (drop_bit 4 b :: u8) = unat b div 16" "unat (b AND 0x0f :: u8) = unat b mod 16"
proof -
  show "unat (drop_bit 4 b :: u8) = unat b div 16"
    unfolding unat_drop_bit_eq by (simp add: drop_bit_eq_div)
  have "b AND 0x0f = take_bit 4 b"
    by (simp add: take_bit_eq_mask mask_eq_exp_minus_1)
  then have "unat (b AND 0x0f :: u8) = take_bit 4 (unat b)" by (simp only: unsigned_take_bit_eq)
  then show "unat (b AND 0x0f :: u8) = unat b mod 16" by (simp add: take_bit_eq_mod)
qed

lemma to_nibbles_inj: "to_nibbles a = to_nibbles b \<Longrightarrow> a = b"
proof (induction a arbitrary: b)
  case Nil
  then show ?case by (cases b) simp_all
next
  case (Cons x xs)
  then obtain y ys where b: "b = y # ys" by (cases b) simp_all
  have "unat x div 16 = unat y div 16" "unat x mod 16 = unat y mod 16"
    using Cons.prems b by (simp_all flip: byte_nibbles)
  then have "unat x = unat y" by (metis div_mult_mod_eq)
  then show ?case using Cons b by (simp add: word_unat_eq_iff)
qed

lemma nibbles_ok_to_nibbles: "nibbles_ok (to_nibbles key)"
proof (induction key)
  case (Cons b bs)
  have "unat b < 256" using unat_lt [of b] by simp
  then have "unat b div 16 < 16" by (simp add: div_less_iff_less_mult)
  then show ?case using Cons by (simp add: nibbles_ok_def byte_nibbles)
qed (simp add: nibbles_ok_def)

lemma patricia_nodes_tree: "patricia_nodes E pairs = (tree_hash E (trie_items pairs), tree_out E (trie_items pairs))"
proof (cases "pairs = []")
  case True
  then show ?thesis
    by (simp add: patricia_nodes_def trie_items_def bt_collect_def tree_out_eq tree_hash_node
        build_node_collected.simps store_node_def Let_def)
next
  case False
  then show ?thesis
    using store_tree_out [of E "trie_items pairs" "[]"] by (simp add: patricia_nodes_def trie_items_def)
qed

lemma patricia_root_tree: "patricia_root E pairs = tree_hash E (trie_items pairs)"
  by (simp add: patricia_root_def patricia_nodes_tree)

lemma map_of_nibble_keys:
  "map_of (map (\<lambda>(k, v). (to_nibbles k, v)) pairs) (to_nibbles key) = map_of pairs key"
  by (induction pairs) (auto dest: to_nibbles_inj)

lemma lookup_trie_items: "map_of (trie_items pairs) (to_nibbles key) = last_value pairs key"
  by (simp add: trie_items_def map_of_bt_collect last_value_def rev_map map_of_nibble_keys)

lemma distinct_trie_items: "distinct (map fst (trie_items pairs))"
  by (simp add: trie_items_def bt_collect_wf bt_wf_distinct)

lemma trie_items_ext:
  assumes "\<And>key. last_value p key = last_value q key"
  shows "trie_items p = trie_items q"
  unfolding trie_items_def
proof (rule bt_wf_ext [OF bt_collect_wf bt_collect_wf], rule ext)
  fix n
  let ?f = "map (\<lambda>(k, v :: bytes). (to_nibbles k, v))"
  show "map_of (bt_collect (?f p)) n = map_of (bt_collect (?f q)) n"
  proof (cases "\<exists>key. n = to_nibbles key")
    case True
    then show ?thesis using assms lookup_trie_items by (metis trie_items_def)
  next
    case False
    then have "map_of (rev (?f r)) n = None" for r :: items
      by (auto simp: map_of_eq_None_iff)
    then show ?thesis by (simp add: map_of_bt_collect)
  qed
qed

lemma hm_collect_nodes:
  assumes "inj_on (keccak256 E) (snd ` set (tree_out E items))" "e \<in> snd ` set (tree_out E items)"
  shows "hm_get (hm_collect (tree_out E items)) (keccak256 E e) = Some e"
proof -
  obtain h where "(h, e) \<in> set (tree_out E items)" using assms(2) by auto
  then have "(keccak256 E e, e) \<in> set (rev (tree_out E items))"
    using tree_out_hash [of h e E items] by simp
  then obtain e' where e': "map_of (rev (tree_out E items)) (keccak256 E e) = Some e'"
    using weak_map_of_SomeI by fast
  then have "(keccak256 E e, e') \<in> set (tree_out E items)" using map_of_SomeD by fastforce
  then have "keccak256 E e = keccak256 E e'" "e' \<in> snd ` set (tree_out E items)"
    using tree_out_hash by (blast, force)
  then have "e' = e" using assms by (auto dest: inj_onD)
  then show ?thesis using e' by (simp add: hm_collect_get)
qed

lemma prove_complete:
  assumes "node_laws E" "inj_on (keccak256 E) (trie_node_set E pairs)"
  shows "\<exists>pr. prove E pairs key = Some pr \<and> tp_root pr = patricia_root E pairs \<and>
    tp_value pr = last_value pairs key \<and> set (tp_nodes pr) \<subseteq> trie_node_set E pairs \<and>
    trie_verify E (tp_root pr) key (tp_nodes pr) = Inr (last_value pairs key)"
proof -
  let ?items = "trie_items pairs"
  have inj: "inj_on (keccak256 E) (snd ` set (tree_out E ?items))"
    using assms(2) by (simp add: trie_node_set_def patricia_nodes_tree)
  obtain ps where "prove_walk E (hm_collect (tree_out E ?items)) (to_nibbles key) [] (tree_hash E ?items)
      = Some (ps, map_of ?items (to_nibbles key))"
    "ps \<noteq> []" "set ps \<subseteq> snd ` set (tree_out E ?items)"
    "verify_loop E (tree_hash E ?items) (to_nibbles key) ps = Inr (map_of ?items (to_nibbles key))"
    using prove_walk_complete [OF assms(1) distinct_trie_items nibbles_ok_to_nibbles, of pairs
        "hm_collect (tree_out E ?items)" key "[]"] hm_collect_nodes [OF inj] by auto
  then show ?thesis
    by (simp add: prove_def patricia_nodes_tree patricia_root_tree trie_verify_def lookup_trie_items
        trie_node_set_def)
qed

lemma verify_sound:
  assumes "node_laws E" "collision_free E (set pf) (trie_node_set E pairs)"
    and "trie_verify E (patricia_root E pairs) key pf = Inr v"
  shows "v = last_value pairs key"
proof -
  have "verify_loop E (tree_hash E (trie_items pairs)) (to_nibbles key) pf = Inr v"
    using assms(3) by (simp add: trie_verify_def patricia_root_tree split: if_splits)
  from verify_loop_sound [OF assms(1) distinct_trie_items nibbles_ok_to_nibbles _ this]
  show ?thesis using assms(2) by (simp add: trie_node_set_def patricia_nodes_tree lookup_trie_items)
qed

lemma root_binding:
  assumes "node_laws E" "inj_on (keccak256 E) (trie_node_set E p \<union> trie_node_set E q)"
    and "patricia_root E p = patricia_root E q"
  shows "last_value p key = last_value q key"
proof -
  have "inj_on (keccak256 E) (trie_node_set E p)" using assms(2) by (rule inj_on_subset) simp
  from prove_complete [OF assms(1) this, of key] obtain pr :: trie_proof where
    pr: "set (tp_nodes pr) \<subseteq> trie_node_set E p" "tp_root pr = patricia_root E p"
      "trie_verify E (tp_root pr) key (tp_nodes pr) = Inr (last_value p key)" by blast
  have "collision_free E (set (tp_nodes pr)) (trie_node_set E q)"
    using assms(2) pr(1) by (auto simp: collision_free_def inj_on_def)
  from verify_sound [OF assms(1) this] show ?thesis using pr(2,3) assms(3) by simp
qed

section \<open>A reference environment\<close>

fun enc_node :: "trie_node encoder" where
  "enc_node Empty = [0]"
| "enc_node (Leaf p v) = 1 # enc_bytes p @ enc_bytes v"
| "enc_node (Extension p c) = 2 # enc_bytes p @ enc_bytes c"
| "enc_node (Branch cs v) = 3 # enc_list (enc_option enc_bytes) cs @ enc_option enc_bytes v"

fun dec_node :: "trie_node decoder" where
  "dec_node [] = None"
| "dec_node (t # bs) =
     (if t = 0 then Some (Empty, bs)
      else if t = 1 then dec_bind dec_bytes (\<lambda>p. dec_bind dec_bytes (\<lambda>v. dec_return (Leaf p v))) bs
      else if t = 2 then dec_bind dec_bytes (\<lambda>p. dec_bind dec_bytes (\<lambda>c. dec_return (Extension p c))) bs
      else dec_bind (dec_list (dec_option dec_bytes)) (\<lambda>cs. dec_bind (dec_option dec_bytes)
             (\<lambda>v. dec_return (Branch cs v))) bs)"

definition enc_account :: "account encoder" where
  "enc_account a =
     enc_word (acc_nonce a) @ enc_u256 (acc_balance a) @ enc_bytes (acc_code_hash a) @
     enc_bytes (acc_storage_root a)"

definition dec_account :: "account decoder" where
  "dec_account =
     dec_bind dec_word (\<lambda>n. dec_bind dec_u256 (\<lambda>b. dec_bind dec_bytes (\<lambda>c. dec_bind dec_bytes (\<lambda>r.
       dec_return \<lparr> acc_nonce = n, acc_balance = b, acc_code_hash = c, acc_storage_root = r \<rparr>))))"

definition ref_state :: state_env where
  "ref_state = core_env.extend ref_core
     \<lparr> bin_node = enc_node, unbin_node = run_decoder dec_node,
       bin_account = enc_account, unbin_account = run_decoder dec_account \<rparr>"

lemma codec_node: "codec enc_node dec_node"
proof -
  have "dec_node (enc_node n @ r) = Some (n, r)" for n r
    by (cases n) (simp_all add: dec_binds dec_return_def
        codec_bytes [THEN codec_option, THEN codec_list, THEN dec_bind_enc])
  then show ?thesis by (simp add: codec_def)
qed

lemma codec_account: "codec enc_account dec_account"
  by (simp add: codec_def enc_account_def dec_account_def dec_binds dec_return_def)

lemma ref_state_node_laws: "node_laws ref_state"
  by (simp add: node_laws_def ref_state_def core_env.defs codec_roundtrip [OF codec_node]
      codec_roundtrip [OF codec_account])

section \<open>Properties\<close>

text \<open>
  C36: the Patricia root is a function of the map that the pairs describe. Two lists of
  pairs that give every key the same last value have the same root and the same encoded
  nodes, whatever their order.
\<close>

theorem patricia_root_canonical:
  assumes "\<forall>key. last_value p key = last_value q key"
  shows "patricia_root E p = patricia_root E q \<and> patricia_nodes E p = patricia_nodes E q"
  using trie_items_ext [of p q] assms by (simp add: patricia_root_tree patricia_nodes_tree)

theorem patricia_root_canonical_witness:
  "patricia_root ref_state [([1], [7]), ([2], [8]), ([1], [9])]
   = patricia_root ref_state [([2], [8]), ([1], [9])]"
  using patricia_root_canonical [of "[([1], [7]), ([2], [8]), ([1], [9])]" "[([2], [8]), ([1], [9])]"
      ref_state]
  by (simp add: last_value_def)

text \<open>
  C35: the root binds. If no two of the nodes involved collide, equal roots mean that the
  two sets of pairs agree on every key.
\<close>

theorem patricia_root_binding:
  assumes "node_laws E" "inj_on (keccak256 E) (trie_node_set E p \<union> trie_node_set E q)"
    and "patricia_root E p = patricia_root E q"
  shows "last_value p key = last_value q key"
  using assms by (rule root_binding)

definition sample_pairs :: items where
  "sample_pairs = [([0x12], [7]), ([0x13], [8])]"

definition sample_pairs_rev :: items where
  "sample_pairs_rev = [([0x13], [8]), ([0x12], [7])]"

lemma inj_on_set: "distinct (map f (remdups xs)) \<Longrightarrow> inj_on f (set xs)"
  by (simp add: distinct_map)

lemma sample_pairs_inj:
  "inj_on (keccak256 ref_state) (trie_node_set ref_state sample_pairs \<union> trie_node_set ref_state sample_pairs_rev)"
proof -
  have "distinct (map (keccak256 ref_state)
      (remdups (map snd (snd (patricia_nodes ref_state sample_pairs) @ snd (patricia_nodes ref_state sample_pairs_rev)))))"
    by code_simp
  from inj_on_set [OF this] show ?thesis by (simp add: trie_node_set_def)
qed

theorem patricia_root_binding_witness:
  "patricia_root ref_state sample_pairs = patricia_root ref_state sample_pairs_rev \<and>
   last_value sample_pairs [0x12] = last_value sample_pairs_rev [0x12]"
proof -
  have root: "patricia_root ref_state sample_pairs = patricia_root ref_state sample_pairs_rev"
    by code_simp
  from patricia_root_binding [OF ref_state_node_laws sample_pairs_inj root, of "[0x12]"] root
  show ?thesis by simp
qed

text \<open>
  \<open>prove\<close> always returns, with the value the pairs give the key (or absence), and
  \<open>verify\<close> accepts its nodes under the root and reports the same value.
\<close>

theorem trie_prove_complete:
  assumes "node_laws E" "inj_on (keccak256 E) (trie_node_set E pairs)"
  shows "\<exists>pr. prove E pairs key = Some pr \<and> tp_root pr = patricia_root E pairs \<and>
    tp_value pr = last_value pairs key \<and>
    trie_verify E (tp_root pr) key (tp_nodes pr) = Inr (last_value pairs key)"
  using prove_complete [OF assms] by blast

theorem trie_prove_complete_witness:
  "\<exists>pr. prove ref_state sample_pairs [0x13] = Some pr \<and>
     tp_root pr = patricia_root ref_state sample_pairs \<and> tp_value pr = Some [8] \<and>
     trie_verify ref_state (tp_root pr) [0x13] (tp_nodes pr) = Inr (Some [8])"
proof -
  have "inj_on (keccak256 ref_state) (trie_node_set ref_state sample_pairs)"
    using sample_pairs_inj by (rule inj_on_subset) simp
  from trie_prove_complete [OF ref_state_node_laws this, of "[0x13]"] show ?thesis
    by (simp add: last_value_def sample_pairs_def)
qed

text \<open>
  C12: \<open>verify\<close> is sound against any prover. Whatever nodes are offered, an accepted answer
  for the root of \<open>pairs\<close> is the value of the key in \<open>pairs\<close>, unless an offered node
  collides with a node of the trie.
\<close>

theorem trie_verify_sound:
  assumes "node_laws E"
    and "trie_verify E (patricia_root E pairs) key pf = Inr v"
  shows "v = last_value pairs key \<or>
    (\<exists>a b. a \<in> set pf \<and> b \<in> trie_node_set E pairs \<and> keccak_collision E a b)"
proof (cases "collision_free E (set pf) (trie_node_set E pairs)")
  case True
  then show ?thesis using verify_sound [OF assms(1) _ assms(2)] by simp
qed (auto simp: collision_free_def keccak_collision_def)

definition sample_nodes :: "bytes list" where
  "sample_nodes = map (\<lambda>i. snd (snd (patricia_nodes ref_state sample_pairs) ! i)) [3, 2, 1]"

theorem trie_verify_sound_witness:
  "trie_verify ref_state (patricia_root ref_state sample_pairs) [0x13] sample_nodes = Inr (Some [8]) \<and>
   (Some [8] = last_value sample_pairs [0x13] \<or>
    (\<exists>a b. a \<in> set sample_nodes \<and> b \<in> trie_node_set ref_state sample_pairs \<and>
       keccak_collision ref_state a b))"
proof -
  have v: "trie_verify ref_state (patricia_root ref_state sample_pairs) [0x13] sample_nodes = Inr (Some [8])"
    by code_simp
  from trie_verify_sound [OF ref_state_node_laws v] v show ?thesis by simp
qed

end
