(* ===== verification/State.thy ===== *)
theory State
  imports Trie
begin

text \<open>
  The in-memory state database of \<open>crates/ivory-state/src/state.rs\<close>: account, storage and
  code maps with a storage root per account, the account-trie root, proofs and snapshots.
  A \<open>StateDB\<close> handle is the value of its three maps; the operations that take \<open>&self\<close> and
  write through the locks return the new value.
\<close>

record state_snapshot =
  sn_accounts :: "(address \<times> account) list"
  sn_storage :: "(address \<times> h256 \<times> u256) list"
  sn_code :: "(address \<times> bytes) list"

record state_db =
  st_accounts :: "(address, account) hmap"
  st_storage :: "(address \<times> h256, u256) hmap"
  st_code :: "(address, bytes) hmap"

definition state_new :: state_db where
  "state_new = \<lparr> st_accounts = [], st_storage = [], st_code = [] \<rparr>"

text \<open>\<open>fork\<close> copies the maps and \<open>reset_from\<close> overwrites a handle with a copy.\<close>

definition state_fork :: "state_db \<Rightarrow> state_db" where
  "state_fork s = \<lparr> st_accounts = st_accounts s, st_storage = st_storage s, st_code = st_code s \<rparr>"

definition state_reset_from :: "state_db \<Rightarrow> state_db \<Rightarrow> state_db" where
  "state_reset_from s snapshot =
     s \<lparr> st_accounts := st_accounts snapshot, st_storage := st_storage snapshot,
         st_code := st_code snapshot \<rparr>"

definition get_account :: "state_db \<Rightarrow> address \<Rightarrow> account option" where
  "get_account s addr = hm_get (st_accounts s) addr"

definition storage_pairs :: "state_db \<Rightarrow> address \<Rightarrow> items" where
  "storage_pairs s addr =
     map (\<lambda>((a, slot), val). (slot, u256_to_be_bytes val))
       (filter (\<lambda>((a, slot), val). a = addr \<and> \<not> u256_is_zero val) (st_storage s))"

definition compute_storage_root :: "'z state_env_scheme \<Rightarrow> state_db \<Rightarrow> address \<Rightarrow> h256" where
  "compute_storage_root E s addr =
     (let pairs = storage_pairs s addr
      in if pairs = [] then hash_zero 32 else patricia_root E pairs)"

definition refresh_storage_root :: "'z state_env_scheme \<Rightarrow> address \<Rightarrow> state_db \<Rightarrow> state_db" where
  "refresh_storage_root E addr s =
     (let root = compute_storage_root E s addr
      in case hm_get (st_accounts s) addr of
           Some acc \<Rightarrow>
             s \<lparr> st_accounts := hm_insert addr (acc \<lparr> acc_storage_root := root \<rparr>) (st_accounts s) \<rparr>
         | None \<Rightarrow>
             if root \<noteq> hash_zero 32
             then s \<lparr> st_accounts :=
                    hm_insert addr (account_new \<lparr> acc_storage_root := root \<rparr>) (st_accounts s) \<rparr>
             else s)"

definition set_account :: "'z state_env_scheme \<Rightarrow> address \<Rightarrow> account \<Rightarrow> state_db \<Rightarrow> state_db" where
  "set_account E addr account s =
     s \<lparr> st_accounts := hm_insert addr
           (account \<lparr> acc_storage_root := compute_storage_root E s addr \<rparr>) (st_accounts s) \<rparr>"

definition get_storage :: "state_db \<Rightarrow> address \<Rightarrow> h256 \<Rightarrow> u256" where
  "get_storage s addr slot =
     (case hm_get (st_storage s) (addr, slot) of Some v \<Rightarrow> v | None \<Rightarrow> U256_ZERO)"

definition write_slot :: "address \<Rightarrow> h256 \<Rightarrow> u256 \<Rightarrow> state_db \<Rightarrow> state_db" where
  "write_slot addr slot val s =
     (if u256_is_zero val
      then s \<lparr> st_storage := hm_remove (addr, slot) (st_storage s) \<rparr>
      else s \<lparr> st_storage := hm_insert (addr, slot) val (st_storage s) \<rparr>)"

definition set_storage :: "'z state_env_scheme \<Rightarrow> address \<Rightarrow> h256 \<Rightarrow> u256 \<Rightarrow> state_db \<Rightarrow> state_db" where
  "set_storage E addr slot val s = refresh_storage_root E addr (write_slot addr slot val s)"

definition get_code :: "state_db \<Rightarrow> address \<Rightarrow> bytes" where
  "get_code s addr = (case hm_get (st_code s) addr of Some c \<Rightarrow> c | None \<Rightarrow> [])"

definition set_code :: "address \<Rightarrow> bytes \<Rightarrow> state_db \<Rightarrow> state_db" where
  "set_code addr code s = s \<lparr> st_code := hm_insert addr code (st_code s) \<rparr>"

definition sync_all_storage_roots :: "'z state_env_scheme \<Rightarrow> state_db \<Rightarrow> state_db" where
  "sync_all_storage_roots E s =
     (let addrs = remdups (hm_keys (st_accounts s) @ map fst (hm_keys (st_storage s)))
      in fold (refresh_storage_root E) addrs s)"

definition collect_account_pairs :: "'z state_env_scheme \<Rightarrow> state_db \<Rightarrow> items" where
  "collect_account_pairs E s =
     map (\<lambda>(addr, acc). (addr, bin_account E acc))
       (filter (\<lambda>(addr, acc). \<not> account_is_empty acc) (st_accounts s))"

definition account_pairs :: "'z state_env_scheme \<Rightarrow> state_db \<Rightarrow> items \<times> state_db" where
  "account_pairs E s =
     (let s' = sync_all_storage_roots E s in (collect_account_pairs E s', s'))"

definition root_hash :: "'z state_env_scheme \<Rightarrow> state_db \<Rightarrow> h256 \<times> state_db" where
  "root_hash E s =
     (let s' = sync_all_storage_roots E s in (patricia_root E (collect_account_pairs E s'), s'))"

definition trie_nodes :: "'z state_env_scheme \<Rightarrow> state_db \<Rightarrow> node_store \<times> state_db" where
  "trie_nodes E s =
     (let s' = sync_all_storage_roots E s in (snd (patricia_nodes E (collect_account_pairs E s')), s'))"

definition account_proof :: "'z state_env_scheme \<Rightarrow> state_db \<Rightarrow> address \<Rightarrow> trie_proof option \<times> state_db" where
  "account_proof E s addr =
     (let (pairs, s') = account_pairs E s in (prove E pairs addr, s'))"

definition storage_proof :: "'z state_env_scheme \<Rightarrow> state_db \<Rightarrow> address \<Rightarrow> h256 \<Rightarrow> trie_proof option" where
  "storage_proof E s addr slot = prove E (storage_pairs s addr) slot"

definition to_snapshot :: "state_db \<Rightarrow> state_snapshot" where
  "to_snapshot s =
     \<lparr> sn_accounts = st_accounts s,
       sn_storage = map (\<lambda>((a, slot), v). (a, slot, v)) (st_storage s),
       sn_code = st_code s \<rparr>"

definition from_snapshot :: "state_snapshot \<Rightarrow> state_db" where
  "from_snapshot snap =
     state_new \<lparr> st_accounts := hm_collect (sn_accounts snap),
       st_storage := hm_collect (map (\<lambda>(a, slot, v). ((a, slot), v)) (sn_storage snap)),
       st_code := hm_collect (sn_code snap) \<rparr>"

section \<open>Invariant\<close>

text \<open>
  The maps have distinct keys, no zero slot is kept, every account records the root of its
  slots, and an address with slots has an account (unless its root happens to be the zero
  hash).
\<close>

definition state_wf :: "state_db \<Rightarrow> bool" where
  "state_wf s \<longleftrightarrow> hm_wf (st_accounts s) \<and> hm_wf (st_storage s) \<and> hm_wf (st_code s)"

definition roots_synced :: "'z state_env_scheme \<Rightarrow> state_db \<Rightarrow> bool" where
  "roots_synced E s \<longleftrightarrow>
     (\<forall>a acc. get_account s a = Some acc \<longrightarrow> acc_storage_root acc = compute_storage_root E s a) \<and>
     (\<forall>a. get_account s a = None \<longrightarrow> compute_storage_root E s a = hash_zero 32)"

definition state_inv :: "'z state_env_scheme \<Rightarrow> state_db \<Rightarrow> bool" where
  "state_inv E s \<longleftrightarrow> state_wf s \<and> roots_synced E s \<and> (\<forall>kv \<in> set (st_storage s). \<not> u256_is_zero (snd kv))"

lemma storage_pairs_distinct:
  assumes "hm_wf (st_storage s)"
  shows "distinct (map fst (storage_pairs s addr))"
proof -
  let ?f = "filter (\<lambda>((a, slot), val). a = addr \<and> \<not> u256_is_zero val) (st_storage s)"
  have "distinct (map fst ?f)" using assms by (simp add: hm_wf_def distinct_map_filter)
  moreover have "inj_on snd (set (map fst ?f))" by (auto simp: inj_on_def)
  ultimately have "distinct (map snd (map fst ?f))" unfolding distinct_map [of snd "map fst ?f"] ..
  moreover have "map fst (storage_pairs s addr) = map snd (map fst ?f)"
    by (simp add: storage_pairs_def comp_def case_prod_beta)
  ultimately show ?thesis by simp
qed

lemma storage_pairs_lookup:
  assumes "hm_wf (st_storage s)"
  shows "last_value (storage_pairs s addr) slot =
    (if u256_is_zero (get_storage s addr slot) then None
     else Some (u256_to_be_bytes (get_storage s addr slot)))"
proof -
  have iff: "last_value (storage_pairs s addr) slot = Some w \<longleftrightarrow>
      (\<exists>v. hm_get (st_storage s) (addr, slot) = Some v \<and> \<not> u256_is_zero v \<and> w = u256_to_be_bytes v)" for w
    unfolding last_value_def last_of_distinct [OF storage_pairs_distinct [OF assms]]
    using assms by (force simp: storage_pairs_def hm_get_in)
  show ?thesis
  proof (cases "last_value (storage_pairs s addr) slot")
    case None
    then show ?thesis using iff by (auto simp: get_storage_def split: option.splits)
  next
    case (Some w)
    then show ?thesis using iff [of w] by (auto simp: get_storage_def)
  qed
qed

lemma storage_pairs_empty:
  "hm_wf (st_storage s) \<Longrightarrow> storage_pairs s addr = [] \<longleftrightarrow> (\<forall>slot. u256_is_zero (get_storage s addr slot))"
proof
  assume wf: "hm_wf (st_storage s)" and all: "\<forall>slot. u256_is_zero (get_storage s addr slot)"
  then have none: "last_value (storage_pairs s addr) slot = None" for slot
    using storage_pairs_lookup [OF wf, of addr slot] by simp
  show "storage_pairs s addr = []"
  proof (cases "storage_pairs s addr")
    case (Cons kv rest)
    then have "last_value (storage_pairs s addr) (fst kv) \<noteq> None"
      by (auto simp: last_value_def map_of_eq_None_iff)
    then show ?thesis using none by simp
  qed
next
  assume wf: "hm_wf (st_storage s)" and empty: "storage_pairs s addr = []"
  have "u256_is_zero (get_storage s addr slot)" for slot
    using storage_pairs_lookup [OF wf, of addr slot] empty
    by (simp add: last_value_def split: if_splits)
  then show "\<forall>slot. u256_is_zero (get_storage s addr slot)" ..
qed

lemma compute_storage_root_ext:
  assumes "hm_wf (st_storage s)" "hm_wf (st_storage t)"
    and "\<And>slot. get_storage s addr slot = get_storage t addr slot"
  shows "compute_storage_root E s addr = compute_storage_root E t addr"
proof -
  have "trie_items (storage_pairs s addr) = trie_items (storage_pairs t addr)"
    using assms by (intro trie_items_ext) (simp add: storage_pairs_lookup)
  moreover have "storage_pairs s addr = [] \<longleftrightarrow> storage_pairs t addr = []"
    using assms by (simp add: storage_pairs_empty)
  ultimately show ?thesis by (simp add: compute_storage_root_def patricia_root_tree)
qed

section \<open>Reads after writes\<close>

lemma compute_root_accounts [simp]:
  "compute_storage_root E (s \<lparr> st_accounts := m \<rparr>) a = compute_storage_root E s a"
  "compute_storage_root E (s \<lparr> st_code := c \<rparr>) a = compute_storage_root E s a"
  by (simp_all add: compute_storage_root_def storage_pairs_def)

lemma get_account_set_account:
  "get_account (set_account E a acc s) b =
   (if b = a then Some (acc \<lparr> acc_storage_root := compute_storage_root E s a \<rparr>) else get_account s b)"
  by (simp add: get_account_def set_account_def hm_simps)

lemma set_account_frame [simp]:
  "st_storage (set_account E a acc s) = st_storage s"
  "st_code (set_account E a acc s) = st_code s"
  by (simp_all add: set_account_def)

lemma set_code_frame [simp]:
  "st_accounts (set_code a c s) = st_accounts s"
  "st_storage (set_code a c s) = st_storage s"
  "get_account (set_code a c s) = get_account s"
  by (simp_all add: set_code_def get_account_def fun_eq_iff)

lemma get_code_set_code: "get_code (set_code a c s) b = (if b = a then c else get_code s b)"
  by (simp add: get_code_def set_code_def hm_simps)

lemma refresh_frame [simp]:
  "st_storage (refresh_storage_root E a s) = st_storage s"
  "st_code (refresh_storage_root E a s) = st_code s"
  "compute_storage_root E' (refresh_storage_root E a s) b = compute_storage_root E' s b"
  by (simp_all add: refresh_storage_root_def Let_def split: option.split)

lemma get_account_refresh:
  "get_account (refresh_storage_root E a s) b =
   (if b = a then
      (case get_account s a of
         Some acc \<Rightarrow> Some (acc \<lparr> acc_storage_root := compute_storage_root E s a \<rparr>)
       | None \<Rightarrow>
           if compute_storage_root E s a \<noteq> hash_zero 32
           then Some (account_new \<lparr> acc_storage_root := compute_storage_root E s a \<rparr>) else None)
    else get_account s b)"
  by (auto simp: get_account_def refresh_storage_root_def hm_simps split: option.split)

lemma get_storage_cong: "st_storage s = st_storage t \<Longrightarrow> get_storage s = get_storage t"
  by (simp add: get_storage_def fun_eq_iff)

lemma write_slot_frame [simp]:
  "st_accounts (write_slot a slot v s) = st_accounts s"
  "st_code (write_slot a slot v s) = st_code s"
  "get_account (write_slot a slot v s) = get_account s"
  by (simp_all add: write_slot_def get_account_def fun_eq_iff)

lemma set_storage_code [simp]: "st_code (set_storage E a slot v s) = st_code s"
  by (simp add: set_storage_def)

lemma get_storage_set_storage:
  assumes "hm_wf (st_storage s)"
  shows "get_storage (set_storage E a slot v s) b k = (if (b, k) = (a, slot) then v else get_storage s b k)"
proof -
  have "v = U256_ZERO" if "u256_is_zero v" using that by (simp add: uval_eq_iff)
  then show ?thesis using assms by (auto simp: get_storage_def set_storage_def write_slot_def hm_simps)
qed

lemma wf_set_storage_map: "hm_wf (st_storage s) \<Longrightarrow> hm_wf (st_storage (set_storage E a slot v s))"
  by (simp add: set_storage_def write_slot_def hm_simps)

lemma compute_root_set_storage_other:
  "hm_wf (st_storage s) \<Longrightarrow> b \<noteq> a \<Longrightarrow>
   compute_storage_root E (set_storage E' a slot v s) b = compute_storage_root E s b"
  by (intro compute_storage_root_ext) (simp_all add: get_storage_set_storage wf_set_storage_map)

lemma get_account_set_storage_other:
  "b \<noteq> a \<Longrightarrow> get_account (set_storage E a slot v s) b = get_account s b"
  by (simp add: set_storage_def get_account_refresh)

lemma get_account_set_storage:
  "get_account (set_storage E a slot v s) a =
   (case get_account s a of
      Some acc \<Rightarrow> Some (acc \<lparr> acc_storage_root := compute_storage_root E (set_storage E a slot v s) a \<rparr>)
    | None \<Rightarrow>
        if compute_storage_root E (set_storage E a slot v s) a \<noteq> hash_zero 32
        then Some (account_new \<lparr> acc_storage_root := compute_storage_root E (set_storage E a slot v s) a \<rparr>)
        else None)"
  by (simp add: set_storage_def get_account_refresh split: option.split)

section \<open>The invariant is kept\<close>

lemma state_inv_new: "state_inv E state_new"
  by (simp add: state_inv_def state_wf_def roots_synced_def state_new_def get_account_def
      compute_storage_root_def storage_pairs_def hm_simps)

lemma state_wf_set_account: "state_wf s \<Longrightarrow> state_wf (set_account E a acc s)"
  by (simp add: state_wf_def hm_simps) (simp add: set_account_def hm_simps)

lemma state_inv_set_account: "state_inv E s \<Longrightarrow> state_inv E (set_account E a acc s)"
  unfolding state_inv_def roots_synced_def
  by (auto simp: state_wf_set_account get_account_set_account split: if_splits)
    (simp_all add: set_account_def)

lemma state_wf_refresh: "state_wf s \<Longrightarrow> state_wf (refresh_storage_root E a s)"
  by (auto simp: state_wf_def refresh_storage_root_def Let_def hm_simps split: option.split)

lemma state_wf_set_storage: "state_wf s \<Longrightarrow> state_wf (set_storage E a slot v s)"
  unfolding set_storage_def
  by (intro state_wf_refresh) (simp add: state_wf_def write_slot_def hm_simps)

lemma nonzero_set_storage:
  assumes "\<forall>kv \<in> set (st_storage s). \<not> u256_is_zero (snd kv)" "hm_wf (st_storage s)"
  shows "\<forall>kv \<in> set (st_storage (set_storage E a slot v s)). \<not> u256_is_zero (snd kv)"
proof -
  have wf: "hm_wf (st_storage (set_storage E a slot v s))" using assms(2) by (rule wf_set_storage_map)
  have old: "\<not> u256_is_zero w" if "hm_get (st_storage s) k = Some w" for k w
    using that assms by (auto simp: hm_get_in)
  have "\<not> u256_is_zero w" if "hm_get (st_storage (set_storage E a slot v s)) k = Some w" for k w
    using that assms(2) old [of k w]
    by (auto simp: set_storage_def write_slot_def hm_simps split: if_splits)
  then show ?thesis using hm_get_in [OF wf] by (metis prod.collapse)
qed

lemma state_inv_set_storage:
  assumes "state_inv E s"
  shows "state_inv E (set_storage E a slot v s)"
proof -
  have wf: "state_wf s" "hm_wf (st_storage s)" using assms by (simp_all add: state_inv_def state_wf_def)
  have "roots_synced E (set_storage E a slot v s)"
    unfolding roots_synced_def
  proof (intro conjI allI impI)
    fix b acc
    assume "get_account (set_storage E a slot v s) b = Some acc"
    then show "acc_storage_root acc = compute_storage_root E (set_storage E a slot v s) b"
      using assms wf
      by (cases "b = a") (auto simp: get_account_set_storage get_account_set_storage_other
          compute_root_set_storage_other state_inv_def roots_synced_def split: option.splits if_splits)
  next
    fix b
    assume "get_account (set_storage E a slot v s) b = None"
    then show "compute_storage_root E (set_storage E a slot v s) b = hash_zero 32"
      using assms wf
      by (cases "b = a") (auto simp: get_account_set_storage get_account_set_storage_other
          compute_root_set_storage_other state_inv_def roots_synced_def split: option.splits if_splits)
  qed
  then show ?thesis
    using assms state_wf_set_storage [OF wf(1)] nonzero_set_storage [OF _ wf(2)]
    unfolding state_inv_def by blast
qed

lemma state_inv_set_code: "state_inv E s \<Longrightarrow> state_inv E (set_code a c s)"
  unfolding state_inv_def roots_synced_def
  by (simp add: state_wf_def) (simp add: set_code_def hm_simps)

lemma refresh_synced:
  assumes "roots_synced E s"
  shows "refresh_storage_root E a s = s"
proof (cases "hm_get (st_accounts s) a")
  case None
  then show ?thesis using assms
    by (simp add: refresh_storage_root_def roots_synced_def get_account_def)
next
  case (Some acc)
  then have "acc_storage_root acc = compute_storage_root E s a"
    using assms by (simp add: roots_synced_def get_account_def)
  then have "acc \<lparr> acc_storage_root := compute_storage_root E s a \<rparr> = acc" by (metis account.surjective account.update_convs(4))
  then show ?thesis using Some hm_insert_same [OF Some] by (simp add: refresh_storage_root_def)
qed

lemma sync_synced: "roots_synced E s \<Longrightarrow> sync_all_storage_roots E s = s"
proof -
  assume "roots_synced E s"
  then have "fold (refresh_storage_root E) addrs s = s" for addrs
    by (induction addrs) (simp_all add: refresh_synced)
  then show ?thesis by (simp add: sync_all_storage_roots_def Let_def)
qed

lemma state_inv_sync: "state_inv E s \<Longrightarrow> sync_all_storage_roots E s = s"
  by (simp add: state_inv_def sync_synced)

section \<open>Roots and snapshots\<close>

lemma account_pairs_distinct:
  "hm_wf (st_accounts s) \<Longrightarrow> distinct (map fst (collect_account_pairs E s))"
proof -
  let ?f = "filter (\<lambda>(addr, acc). \<not> account_is_empty acc) (st_accounts s)"
  assume "hm_wf (st_accounts s)"
  then have "distinct (map fst ?f)" by (simp add: hm_wf_def distinct_map_filter)
  moreover have "map fst (collect_account_pairs E s) = map fst ?f"
    by (simp add: collect_account_pairs_def comp_def case_prod_beta)
  ultimately show ?thesis by simp
qed

definition account_entry :: "'z state_env_scheme \<Rightarrow> account option \<Rightarrow> bytes option" where
  "account_entry E x =
     (case x of Some acc \<Rightarrow> if account_is_empty acc then None else Some (bin_account E acc) | None \<Rightarrow> None)"

lemma account_pairs_lookup:
  assumes "hm_wf (st_accounts s)"
  shows "last_value (collect_account_pairs E s) a = account_entry E (get_account s a)"
proof -
  have iff: "last_value (collect_account_pairs E s) a = Some w \<longleftrightarrow>
      (\<exists>acc. hm_get (st_accounts s) a = Some acc \<and> \<not> account_is_empty acc \<and> w = bin_account E acc)" for w
    unfolding last_value_def last_of_distinct [OF account_pairs_distinct [OF assms]]
    using assms by (force simp: collect_account_pairs_def hm_get_in)
  show ?thesis
  proof (cases "last_value (collect_account_pairs E s) a")
    case None
    then show ?thesis using iff by (auto simp: account_entry_def get_account_def split: option.splits)
  next
    case (Some w)
    then show ?thesis using iff [of w] by (auto simp: account_entry_def get_account_def)
  qed
qed

lemma root_hash_inv: "state_inv E s \<Longrightarrow> root_hash E s = (patricia_root E (collect_account_pairs E s), s)"
  by (simp add: root_hash_def state_inv_sync)

text \<open>The account at an address unless it is empty, which is how the trie sees it.\<close>

definition nonempty_account :: "state_db \<Rightarrow> address \<Rightarrow> account option" where
  "nonempty_account s a =
     (case get_account s a of Some acc \<Rightarrow> if account_is_empty acc then None else Some acc | None \<Rightarrow> None)"

lemma account_entry_nonempty: "account_entry E (get_account s a) = map_option (bin_account E) (nonempty_account s a)"
  by (simp add: account_entry_def nonempty_account_def split: option.split)

lemma root_hash_ext:
  assumes "state_inv E s" "state_inv E t" "\<And>a. nonempty_account s a = nonempty_account t a"
  shows "fst (root_hash E s) = fst (root_hash E t)"
proof -
  have "trie_items (collect_account_pairs E s) = trie_items (collect_account_pairs E t)"
    using assms by (intro trie_items_ext) (simp add: account_pairs_lookup account_entry_nonempty state_inv_def state_wf_def)
  then show ?thesis using assms by (simp add: root_hash_inv patricia_root_tree)
qed

lemma bin_account_inj: "node_laws E \<Longrightarrow> map_option (bin_account E) x = map_option (bin_account E) y \<Longrightarrow> x = y"
  by (cases x; cases y) (auto simp: node_laws_def, metis option.inject)

lemma snapshot_roundtrip: "state_wf s \<Longrightarrow> from_snapshot (to_snapshot s) = s"
  by (simp add: from_snapshot_def to_snapshot_def state_wf_def state_new_def hm_collect_id
      comp_def case_prod_beta)

lemma state_fork_eq [simp]: "state_fork s = s"
  by (simp add: state_fork_def)

lemma empty_state [simp]:
  "get_account state_new a = None" "get_code state_new a = []"
  by (simp_all add: get_account_def get_code_def hm_get_def state_new_def)

lemma get_code_frame [simp]:
  "get_code (set_account E a acc s) = get_code s" "get_code (set_storage E a slot v s) = get_code s"
  by (simp_all add: get_code_def fun_eq_iff)

lemma state_reset_from_eq [simp]: "state_reset_from s t = t"
  by (simp add: state_reset_from_def)

section \<open>Balances\<close>

definition balance_of :: "state_db \<Rightarrow> address \<Rightarrow> nat" where
  "balance_of s a = (case get_account s a of Some acc \<Rightarrow> uval (acc_balance acc) | None \<Rightarrow> 0)"

definition nonce_of :: "state_db \<Rightarrow> address \<Rightarrow> u64" where
  "nonce_of s a = (case get_account s a of Some acc \<Rightarrow> acc_nonce acc | None \<Rightarrow> 0)"

definition total_balance :: "state_db \<Rightarrow> nat" where
  "total_balance s = hm_sum (\<lambda>acc. uval (acc_balance acc)) (st_accounts s)"

text \<open>
  What the executor needs of the state: writing an account changes that account's balance
  and nonce and nothing else, and moves the total by the difference.
\<close>

locale balance_ledger =
  fixes put :: "address \<Rightarrow> account \<Rightarrow> 's \<Rightarrow> 's"
    and bal :: "'s \<Rightarrow> address \<Rightarrow> nat"
    and nonce :: "'s \<Rightarrow> address \<Rightarrow> u64"
    and total :: "'s \<Rightarrow> nat"
  assumes bal_put: "bal (put a x s) b = (if b = a then uval (acc_balance x) else bal s b)"
    and nonce_put: "nonce (put a x s) b = (if b = a then acc_nonce x else nonce s b)"
    and total_put: "total (put a x s) + bal s a = total s + uval (acc_balance x)"
begin

text \<open>Two writes that move \<open>v\<close> from one account to another keep the total.\<close>

lemma transfer_total:
  assumes "uval (acc_balance x) + v = bal s a" "uval (acc_balance y) = bal (put a x s) b + v"
  shows "total (put b y (put a x s)) = total s"
  using total_put [of a x s] total_put [of b y "put a x s"] assms by simp

lemma debit_total:
  assumes "uval (acc_balance x) + v = bal s a"
  shows "total (put a x s) + v = total s"
  using total_put [of a x s] assms by simp

lemma credit_total:
  assumes "uval (acc_balance x) = bal s a + v"
  shows "total (put a x s) = total s + v"
  using total_put [of a x s] assms by simp

end

lemma total_set_account: "total_balance (set_account E a x s) + balance_of s a = total_balance s + uval (acc_balance x)"
  using hm_sum_insert [of "\<lambda>acc. uval (acc_balance acc)" a
      "x \<lparr> acc_storage_root := compute_storage_root E s a \<rparr>" "st_accounts s"]
  by (simp add: total_balance_def set_account_def balance_of_def get_account_def split: option.splits)

interpretation ledger: balance_ledger "set_account E" balance_of nonce_of total_balance for E :: "'z state_env_scheme"
proof unfold_locales
  show "total_balance (set_account E a x s) + balance_of s a = total_balance s + uval (acc_balance x)" for a x s
    by (rule total_set_account)
qed (simp_all add: balance_of_def nonce_of_def get_account_set_account)

lemma balance_le_total: "balance_of s a \<le> total_balance s"
  by (auto simp: balance_of_def total_balance_def get_account_def split: option.splits
      intro: hm_sum_get_le [of _ _ _ "\<lambda>acc. uval (acc_balance acc)"])

lemma balance_lt: "balance_of s a < 2 ^ 256"
  using uval_lt by (simp add: balance_of_def split: option.split)

lemma ledger_new [simp]: "balance_of state_new a = 0" "nonce_of state_new a = 0" "total_balance state_new = 0"
  by (simp_all add: balance_of_def nonce_of_def) (simp add: total_balance_def state_new_def hm_sum_def)

lemma ledger_code [simp]:
  "balance_of (set_code a c s) = balance_of s"
  "nonce_of (set_code a c s) = nonce_of s"
  "total_balance (set_code a c s) = total_balance s"
  by (simp_all add: balance_of_def nonce_of_def total_balance_def fun_eq_iff)

lemma total_refresh [simp]: "total_balance (refresh_storage_root E a s) = total_balance s"
proof (cases "hm_get (st_accounts s) a")
  case None
  then show ?thesis
    using hm_sum_insert [of "\<lambda>acc. uval (acc_balance acc)" a
        "account_new \<lparr> acc_storage_root := compute_storage_root E s a \<rparr>" "st_accounts s"]
    by (simp add: refresh_storage_root_def total_balance_def account_new_def Let_def)
next
  case (Some acc)
  then show ?thesis
    using hm_sum_insert [of "\<lambda>acc. uval (acc_balance acc)" a
        "acc \<lparr> acc_storage_root := compute_storage_root E s a \<rparr>" "st_accounts s"]
    by (simp add: refresh_storage_root_def total_balance_def Let_def)
qed

lemma balance_refresh [simp]:
  "balance_of (refresh_storage_root E a s) b = balance_of s b"
  "nonce_of (refresh_storage_root E a s) b = nonce_of s b"
  by (simp_all add: balance_of_def nonce_of_def get_account_refresh account_new_def split: option.split)

lemma ledger_write_slot [simp]:
  "balance_of (write_slot a slot v s) = balance_of s"
  "nonce_of (write_slot a slot v s) = nonce_of s"
  "total_balance (write_slot a slot v s) = total_balance s"
  by (simp_all add: balance_of_def nonce_of_def total_balance_def fun_eq_iff)

lemma ledger_storage [simp]:
  "balance_of (set_storage E a slot v s) b = balance_of s b"
  "nonce_of (set_storage E a slot v s) b = nonce_of s b"
  "total_balance (set_storage E a slot v s) = total_balance s"
  by (simp_all add: set_storage_def)

section \<open>Reachable states\<close>

text \<open>Every way in which the node changes a state database.\<close>

inductive state_reach :: "'z state_env_scheme \<Rightarrow> state_db \<Rightarrow> bool" for E where
  reach_new: "state_reach E state_new"
| reach_account: "state_reach E s \<Longrightarrow> state_reach E (set_account E a acc s)"
| reach_storage: "state_reach E s \<Longrightarrow> state_reach E (set_storage E a slot v s)"
| reach_code: "state_reach E s \<Longrightarrow> state_reach E (set_code a c s)"
| reach_root: "state_reach E s \<Longrightarrow> state_reach E (snd (root_hash E s))"
| reach_snapshot: "state_reach E s \<Longrightarrow> state_reach E (from_snapshot (to_snapshot s))"
| reach_fork: "state_reach E s \<Longrightarrow> state_reach E (state_fork s)"

lemma reach_inv: "state_reach E s \<Longrightarrow> state_inv E s"
proof (induction rule: state_reach.induct)
  case (reach_snapshot s)
  then show ?case by (simp add: snapshot_roundtrip state_inv_def)
qed (simp_all add: state_inv_new state_inv_set_account state_inv_set_storage state_inv_set_code
    root_hash_inv)

section \<open>Properties\<close>

text \<open>
  In every state that the operations can produce, each account records the root of
  exactly its non-zero slots, so computing the state root changes nothing, and a snapshot
  restores the same state with the same root.
\<close>

theorem state_root_stable:
  assumes "state_reach E s"
  shows "state_inv E s \<and> snd (root_hash E s) = s \<and> from_snapshot (to_snapshot s) = s"
  using reach_inv [OF assms] by (simp add: root_hash_inv snapshot_roundtrip state_inv_def)

theorem state_root_stable_witness:
  "snd (root_hash ref_state (set_storage ref_state address_zero (hash_zero 32) U256_ONE state_new))
   = set_storage ref_state address_zero (hash_zero 32) U256_ONE state_new"
  using state_root_stable [OF reach_storage [OF reach_new]] by blast

text \<open>
  C11: the state root commits to the accounts. States with the same non-empty accounts have the
  same root, whatever empty accounts they hold and in whatever order their maps iterate; states
  with the same root have the same non-empty accounts, field by field, if none of the trie nodes
  involved collide.
\<close>

theorem state_root_commits:
  assumes "state_inv E s" "state_inv E t"
  shows "((\<forall>a. nonempty_account s a = nonempty_account t a) \<longrightarrow> fst (root_hash E s) = fst (root_hash E t)) \<and>
    (node_laws E \<longrightarrow>
     inj_on (keccak256 E) (trie_node_set E (collect_account_pairs E s) \<union> trie_node_set E (collect_account_pairs E t)) \<longrightarrow>
     fst (root_hash E s) = fst (root_hash E t) \<longrightarrow>
     (\<forall>a. nonempty_account s a = nonempty_account t a))"
proof (intro conjI impI allI)
  assume "\<forall>a. nonempty_account s a = nonempty_account t a"
  then show "fst (root_hash E s) = fst (root_hash E t)" using root_hash_ext [OF assms] by blast
next
  fix a
  assume laws: "node_laws E"
    and "inj_on (keccak256 E) (trie_node_set E (collect_account_pairs E s) \<union> trie_node_set E (collect_account_pairs E t))"
    and "fst (root_hash E s) = fst (root_hash E t)"
  then have "account_entry E (get_account s a) = account_entry E (get_account t a)"
    using root_binding [of E "collect_account_pairs E s" "collect_account_pairs E t" a] assms
    by (simp add: root_hash_inv account_pairs_lookup state_inv_def state_wf_def)
  then show "nonempty_account s a = nonempty_account t a"
    using bin_account_inj [OF laws] by (simp add: account_entry_nonempty)
qed

definition sample_account :: account where
  "sample_account = account_new \<lparr> acc_balance := U256 9 0 0 0 \<rparr>"

definition sample_state :: state_db where
  "sample_state = set_account ref_state [1] sample_account
     (set_account ref_state [3] account_new (set_account ref_state [2] sample_account state_new))"

definition sample_state_swapped :: state_db where
  "sample_state_swapped = set_account ref_state [2] sample_account (set_account ref_state [1] sample_account state_new)"

lemma sample_state_inv: "state_inv ref_state sample_state" "state_inv ref_state sample_state_swapped"
  unfolding sample_state_def sample_state_swapped_def
  by (intro reach_inv reach_account reach_new)+

theorem state_root_commits_witness:
  "get_account sample_state [3] \<noteq> get_account sample_state_swapped [3] \<and>
   fst (root_hash ref_state sample_state) = fst (root_hash ref_state sample_state_swapped)"
proof
  show "get_account sample_state [3] \<noteq> get_account sample_state_swapped [3]" by code_simp
  have "get_account state_new [3] = None" "st_storage state_new = []"
    by (simp_all add: get_account_def hm_get_def state_new_def)
  then have "nonempty_account sample_state a = nonempty_account sample_state_swapped a" for a
    by (simp add: nonempty_account_def sample_state_def sample_state_swapped_def get_account_set_account
        compute_storage_root_def storage_pairs_def account_new_def account_is_empty_def)
  then show "fst (root_hash ref_state sample_state) = fst (root_hash ref_state sample_state_swapped)"
    using state_root_commits [OF sample_state_inv] by blast
qed

text \<open>
  C34: account and storage proofs authenticate, inclusion and exclusion alike. For every account
  and slot both proofs are produced. The account proof verifies against the state root and carries
  the encoded account, or nothing when it is absent or empty. The storage proof verifies against
  its own root and carries the value, or nothing for a zero slot. The account records that root as
  its storage root, except that an account without a non-zero slot records the zero hash while
  the proof has the root of the empty trie. (No two of the trie nodes involved collide.)
\<close>

theorem state_proofs_verify:
  assumes "node_laws E" "state_inv E s"
    and "inj_on (keccak256 E) (trie_node_set E (collect_account_pairs E s))"
    and "inj_on (keccak256 E) (trie_node_set E (storage_pairs s a))"
  shows "\<exists>pa ps. account_proof E s a = (Some pa, s) \<and> storage_proof E s a slot = Some ps \<and>
    trie_verify E (fst (root_hash E s)) a (tp_nodes pa) = Inr (map_option (bin_account E) (nonempty_account s a)) \<and>
    trie_verify E (tp_root ps) slot (tp_nodes ps)
      = Inr (if u256_is_zero (get_storage s a slot) then None else Some (u256_to_be_bytes (get_storage s a slot))) \<and>
    (\<forall>acc. get_account s a = Some acc \<longrightarrow>
       (if \<forall>k. u256_is_zero (get_storage s a k) then acc_storage_root acc = hash_zero 32 \<and> tp_root ps = empty_root E
        else acc_storage_root acc = tp_root ps))"
proof -
  have wf: "hm_wf (st_accounts s)" "hm_wf (st_storage s)" using assms(2) by (simp_all add: state_inv_def state_wf_def)
  obtain pa :: trie_proof where pa: "prove E (collect_account_pairs E s) a = Some pa"
    "tp_root pa = patricia_root E (collect_account_pairs E s)"
    "trie_verify E (tp_root pa) a (tp_nodes pa) = Inr (map_option (bin_account E) (nonempty_account s a))"
    using prove_complete [OF assms(1,3), of a] account_pairs_lookup [OF wf(1), of E a] by (auto simp: account_entry_nonempty)
  obtain ps :: trie_proof where ps: "prove E (storage_pairs s a) slot = Some ps"
    "tp_root ps = patricia_root E (storage_pairs s a)"
    "trie_verify E (tp_root ps) slot (tp_nodes ps)
      = Inr (if u256_is_zero (get_storage s a slot) then None else Some (u256_to_be_bytes (get_storage s a slot)))"
    using prove_complete [OF assms(1,4), of slot] storage_pairs_lookup [OF wf(2), of a slot] by auto
  have "patricia_root E [] = empty_root E"
    by (simp add: patricia_root_def patricia_nodes_def store_node_def empty_root_def hash_node_def Let_def)
  moreover have "acc_storage_root acc = compute_storage_root E s a" if "get_account s a = Some acc" for acc
    using assms(2) that by (auto simp: state_inv_def roots_synced_def)
  ultimately have root: "if \<forall>k. u256_is_zero (get_storage s a k) then acc_storage_root acc = hash_zero 32 \<and> tp_root ps = empty_root E
        else acc_storage_root acc = tp_root ps" if "get_account s a = Some acc" for acc
    using that ps(2) storage_pairs_empty [OF wf(2), of a] by (auto simp: compute_storage_root_def Let_def)
  have "fst (root_hash E s) = tp_root pa" using pa(2) assms(2) by (simp add: root_hash_inv)
  then have "account_proof E s a = (Some pa, s)" "storage_proof E s a slot = Some ps"
    "trie_verify E (fst (root_hash E s)) a (tp_nodes pa) = Inr (map_option (bin_account E) (nonempty_account s a))"
    using pa ps(1) assms(2) by (simp_all add: account_proof_def storage_proof_def account_pairs_def state_inv_sync)
  then show ?thesis using ps(3) root by blast
qed

definition sample_contract_state :: state_db where
  "sample_contract_state = set_storage ref_state [1] [7] U256_ONE (set_account ref_state [1] sample_account state_new)"

lemma sample_contract_inv: "state_inv ref_state sample_contract_state"
  unfolding sample_contract_state_def by (intro reach_inv reach_storage reach_account reach_new)

lemma trie_node_set_single: "trie_node_set E [(k, v)] = {bin_node E (Leaf (to_nibbles k) v)}"
  by (simp add: trie_node_set_def patricia_nodes_tree trie_items_def bt_collect_def tree_out_eq
      build_node_collected.simps)

lemma sample_contract_inj:
  "inj_on (keccak256 ref_state) (trie_node_set ref_state (collect_account_pairs ref_state sample_contract_state))"
  "inj_on (keccak256 ref_state) (trie_node_set ref_state (storage_pairs sample_contract_state [1]))"
  by (simp_all add: sample_contract_state_def set_storage_def write_slot_def refresh_storage_root_def
      set_account_def state_new_def hm_insert_def hm_get_def collect_account_pairs_def storage_pairs_def
      sample_account_def account_new_def account_is_empty_def uval_def U256_ONE_def trie_node_set_single)

theorem state_proofs_verify_witness:
  "\<exists>ps acc. get_account sample_contract_state [1] = Some acc \<and>
     storage_proof ref_state sample_contract_state [1] [7] = Some ps \<and>
     trie_verify ref_state (acc_storage_root acc) [7] (tp_nodes ps) = Inr (Some (u256_to_be_bytes U256_ONE)) \<and>
     (\<exists>ps'. storage_proof ref_state sample_contract_state [1] [8] = Some ps' \<and>
        trie_verify ref_state (acc_storage_root acc) [8] (tp_nodes ps') = Inr None)"
proof -
  obtain acc where acc: "get_account sample_contract_state [1] = Some acc"
    by (auto simp: sample_contract_state_def get_account_set_storage get_account_set_account)
  have v: "get_storage sample_contract_state [1] [7] = U256_ONE" "u256_is_zero (get_storage sample_contract_state [1] [8])"
    by (simp_all add: sample_contract_state_def get_storage_set_storage state_new_def hm_wf_def)
      (simp add: get_storage_def set_account_def refresh_storage_root_def hm_get_def)
  then have one: "\<not> (\<forall>k. u256_is_zero (get_storage sample_contract_state [1] k))" 
    by (auto intro: exI [of _ "[7]"])
  note proofs = state_proofs_verify [OF ref_state_node_laws sample_contract_inv sample_contract_inj,
      unfolded if_not_P [OF one]]
  from proofs [of "[7]"] obtain ps where p: "storage_proof ref_state sample_contract_state [1] [7] = Some ps"
    "trie_verify ref_state (acc_storage_root acc) [7] (tp_nodes ps) = Inr (Some (u256_to_be_bytes U256_ONE))"
    using acc by (auto simp: v)
  from proofs [of "[8]"] obtain ps' where "storage_proof ref_state sample_contract_state [1] [8] = Some ps'"
    "trie_verify ref_state (acc_storage_root acc) [8] (tp_nodes ps') = Inr None"
    using acc v(2) by auto
  with p show ?thesis using acc by blast
qed

end
