(* ===== verification/Vm.thy ===== *)
theory Vm
  imports State
begin

text \<open>
  The WASM host of \<open>crates/ivory-vm/src/vm.rs\<close>. The interpreter itself (\<open>wasmi\<close>) is a
  parameter: a module, run with some fuel, is a tree of the host calls it makes and ends by
  returning with the fuel that is left or by a trap. Fuel metering is what makes the trees
  finite. The five host functions and the way \<open>execute\<close> drives an instance are the code's.
\<close>

section \<open>Guests\<close>

datatype 'r guest =
    Return 'r u64
  | Trap string
  | StorageGet i32 "i64 \<Rightarrow> 'r guest"
  | StorageSet i32 i64 "'r guest"
  | EmitLog i32 "'r guest"
  | CalldataLen "i32 \<Rightarrow> 'r guest"
  | CalldataAt i32 "i32 \<Rightarrow> 'r guest"

text \<open>
  What \<open>instance.get_func(&store, "call")\<close> and \<open>func.typed\<close> find; a function is given the
  store's fuel.
\<close>

datatype call_export =
    NoCall
  | CallI32 "u64 \<Rightarrow> i32 guest"
  | CallUnit "u64 \<Rightarrow> unit guest"
  | CallOther

text \<open>
  \<open>wasmi_module\<close> is \<open>Module::new\<close>: an error text, or a module. A module instantiates against
  the five imports with an error text, or runs its start function from the fuel set on the
  store.
\<close>

type_synonym wasm_module = "string + (u64 \<Rightarrow> call_export guest)"

record vm_env = state_env +
  wasmi_module :: "bytes \<Rightarrow> string + wasm_module"

section \<open>Host\<close>

datatype vm_error = InvalidModule string | Instantiate string | Export string | TrapError string

record vm_output =
  vo_success :: bool
  vo_return_value :: "i32 option"
  vo_logs :: "log list"
  vo_gas_left :: u64

record host =
  ho_state :: state_db
  ho_address :: address
  ho_logs :: "log list"
  ho_calldata :: bytes

definition slot_key :: "i32 \<Rightarrow> h256" where
  "slot_key slot = replicate 28 0 @ to_be_bytes_w slot"

definition topic_from_i32 :: "i32 \<Rightarrow> h256" where
  "topic_from_i32 topic = replicate 28 0 @ to_be_bytes_w topic"

definition host_storage_get :: "host \<Rightarrow> i32 \<Rightarrow> i64" where
  "host_storage_get h slot = limbs (get_storage (ho_state h) (ho_address h) (slot_key slot)) ! 0"

definition host_storage_set :: "'z state_env_scheme \<Rightarrow> i32 \<Rightarrow> i64 \<Rightarrow> host \<Rightarrow> host" where
  "host_storage_set E slot val h =
     h \<lparr> ho_state := set_storage E (ho_address h) (slot_key slot) (u256_from_u64 val) (ho_state h) \<rparr>"

definition host_emit_log :: "i32 \<Rightarrow> host \<Rightarrow> host" where
  "host_emit_log topic h =
     h \<lparr> ho_logs := ho_logs h @
           [\<lparr> log_address = ho_address h, log_topics = [topic_from_i32 topic], log_data = [] \<rparr>] \<rparr>"

definition host_calldata_len :: "host \<Rightarrow> i32" where
  "host_calldata_len h = of_nat (length (ho_calldata h))"

text \<open>\<open>index as usize\<close> sign-extends to 64 bits.\<close>

definition host_calldata_at :: "host \<Rightarrow> i32 \<Rightarrow> i32" where
  "host_calldata_at h index =
     (let i = unat (scast index :: u64)
      in if i < length (ho_calldata h) then ucast (ho_calldata h ! i) else 0)"

primrec run_guest :: "'z state_env_scheme \<Rightarrow> 'r guest \<Rightarrow> host \<Rightarrow> (string + 'r \<times> u64) \<times> host" where
  "run_guest E (Return r fuel) h = (Inr (r, fuel), h)"
| "run_guest E (Trap msg) h = (Inl msg, h)"
| "run_guest E (StorageGet slot k) h = run_guest E (k (host_storage_get h slot)) h"
| "run_guest E (StorageSet slot val g) h = run_guest E g (host_storage_set E slot val h)"
| "run_guest E (EmitLog topic g) h = run_guest E g (host_emit_log topic h)"
| "run_guest E (CalldataLen k) h = run_guest E (k (host_calldata_len h)) h"
| "run_guest E (CalldataAt index k) h = run_guest E (k (host_calldata_at h index)) h"

definition remaining_fuel :: "u64 \<Rightarrow> u64 \<Rightarrow> u64" where
  "remaining_fuel fuel gas_limit = (if gas_limit = 0 then 0 else fuel)"

definition vm_done :: "i32 option \<Rightarrow> u64 \<Rightarrow> u64 \<Rightarrow> host \<Rightarrow> (vm_error + vm_output) \<times> state_db" where
  "vm_done ret fuel gas_limit h =
     (Inr \<lparr> vo_success = True, vo_return_value = ret, vo_logs = ho_logs h,
            vo_gas_left = remaining_fuel fuel gas_limit \<rparr>, ho_state h)"

definition vm_host :: "state_db \<Rightarrow> address \<Rightarrow> bytes \<Rightarrow> host" where
  "vm_host s addr input = \<lparr> ho_state = s, ho_address = addr, ho_logs = [], ho_calldata = input \<rparr>"

definition start_fuel :: "u64 \<Rightarrow> u64" where
  "start_fuel gas_limit = (if gas_limit = 0 then 10000000 else gas_limit)"

text \<open>\<open>WasmVm::execute\<close>. The state is written through the shared handle, so it is returned on
  the error branches as well.\<close>

definition wasm_execute ::
  "'z vm_env_scheme \<Rightarrow> bytes \<Rightarrow> state_db \<Rightarrow> address \<Rightarrow> u64 \<Rightarrow> bytes \<Rightarrow> (vm_error + vm_output) \<times> state_db" where
  "wasm_execute E code state addr gas_limit input =
     (case wasmi_module E code of
           Inl e \<Rightarrow> (Inl (InvalidModule e), state)
         | Inr (Inl e) \<Rightarrow> (Inl (Instantiate e), state)
         | Inr (Inr start) \<Rightarrow>
             (case run_guest E (start (start_fuel gas_limit)) (vm_host state addr input) of
                (Inl e, h) \<Rightarrow> (Inl (Instantiate e), ho_state h)
              | (Inr (NoCall, fuel1), h) \<Rightarrow> vm_done None fuel1 gas_limit h
              | (Inr (CallOther, fuel1), h) \<Rightarrow>
                  (Inl (Export ''call must have type () -> i32 or () -> ()''), ho_state h)
              | (Inr (CallI32 f, fuel1), h) \<Rightarrow>
                  (case run_guest E (f fuel1) h of
                     (Inl e, h') \<Rightarrow> (Inl (TrapError e), ho_state h')
                   | (Inr (r, fuel2), h') \<Rightarrow> vm_done (Some r) fuel2 gas_limit h')
              | (Inr (CallUnit f, fuel1), h) \<Rightarrow>
                  (case run_guest E (f fuel1) h of
                     (Inl e, h') \<Rightarrow> (Inl (TrapError e), ho_state h')
                   | (Inr (r, fuel2), h') \<Rightarrow> vm_done None fuel2 gas_limit h')))"

section \<open>A guest only writes its own storage\<close>

text \<open>
  What a guest run may change of the host: the slots of its own address, the storage root
  of its own account, and the log list, which only grows with logs of its own address.
\<close>

definition guest_frame :: "'z state_env_scheme \<Rightarrow> host \<Rightarrow> host \<Rightarrow> bool" where
  "guest_frame E h h' \<longleftrightarrow>
     ho_address h' = ho_address h \<and> ho_calldata h' = ho_calldata h \<and>
     (\<exists>new. ho_logs h' = ho_logs h @ new \<and> (\<forall>l \<in> set new. log_address l = ho_address h)) \<and>
     st_code (ho_state h') = st_code (ho_state h) \<and>
     (\<forall>b. b \<noteq> ho_address h \<longrightarrow> get_account (ho_state h') b = get_account (ho_state h) b) \<and>
     (hm_wf (st_storage (ho_state h)) \<longrightarrow> hm_wf (st_storage (ho_state h')) \<and>
        (\<forall>b k. b \<noteq> ho_address h \<longrightarrow> get_storage (ho_state h') b k = get_storage (ho_state h) b k)) \<and>
     (\<forall>b. balance_of (ho_state h') b = balance_of (ho_state h) b \<and>
          nonce_of (ho_state h') b = nonce_of (ho_state h) b) \<and>
     total_balance (ho_state h') = total_balance (ho_state h) \<and>
     (state_inv E (ho_state h) \<longrightarrow> state_inv E (ho_state h'))"

lemma guest_frame_refl: "guest_frame E h h"
  by (simp add: guest_frame_def)

lemma guest_frame_trans: "guest_frame E h h' \<Longrightarrow> guest_frame E h' h'' \<Longrightarrow> guest_frame E h h''"
  unfolding guest_frame_def by auto

lemma guest_frame_storage_set: "guest_frame E h (host_storage_set E slot v h)"
  by (simp add: guest_frame_def host_storage_set_def get_account_set_storage_other
      get_storage_set_storage wf_set_storage_map state_inv_set_storage)

lemma guest_frame_emit_log: "guest_frame E h (host_emit_log t h)"
  by (simp add: guest_frame_def host_emit_log_def)

lemma run_guest_frame: "run_guest E g h = (r, h') \<Longrightarrow> guest_frame E h h'"
proof (induction g arbitrary: h)
  case (StorageSet slot v g)
  then have "guest_frame E (host_storage_set E slot v h) h'" by simp
  then show ?case by (rule guest_frame_trans [OF guest_frame_storage_set])
next
  case (EmitLog t g)
  then have "guest_frame E (host_emit_log t h) h'" by simp
  then show ?case by (rule guest_frame_trans [OF guest_frame_emit_log])
qed (auto simp: guest_frame_refl)

lemma wasm_execute_frame:
  assumes "wasm_execute E code s a gas_limit input = (r, s')"
  shows "\<exists>h'. guest_frame E (vm_host s a input) h' \<and> s' = ho_state h' \<and>
    (\<forall>out. r = Inr out \<longrightarrow> vo_logs out = ho_logs h' \<and> vo_success out)"
proof -
  have refl: "\<exists>h'. guest_frame E (vm_host s a input) h' \<and> s = ho_state h'"
    using guest_frame_refl [of E "vm_host s a input"] by (intro exI [of _ "vm_host s a input"]) (simp add: vm_host_def)
  show ?thesis
    using assms refl unfolding wasm_execute_def vm_done_def
    by (auto split: sum.splits prod.splits call_export.splits
        dest!: run_guest_frame intro: guest_frame_trans)
qed

section \<open>A reference interpreter\<close>

text \<open>
  Three modules: one that stores its calldata length and logs, one that stores and then
  traps, and one without a \<open>call\<close> export.
\<close>

definition ref_start :: "bytes \<Rightarrow> u64 \<Rightarrow> call_export guest" where
  "ref_start code fuel =
     (if code = [1] then
        Return (CallI32 (\<lambda>f. CalldataLen (\<lambda>n. StorageSet 0 (ucast n) (EmitLog 9 (Return n (f - 100)))))) fuel
      else if code = [2] then Return (CallUnit (\<lambda>f. StorageSet 0 5 (Trap ''unreachable''))) fuel
      else Return NoCall fuel)"

definition ref_vm :: vm_env where
  "ref_vm = state_env.extend ref_state
     \<lparr> wasmi_module = (\<lambda>code. if code = [] then Inl ''unexpected end'' else Inr (Inr (ref_start code))) \<rparr>"

lemma ref_vm_module [simp]: "wasmi_module ref_vm (b # bs) = Inr (Inr (ref_start (b # bs)))"
  by (simp add: ref_vm_def state_env.defs)

section \<open>Properties\<close>

text \<open>
  C37: a contract run is confined. Whatever the module does and however it ends, only
  storage slots (and the storage root) of the contract's own address change: no balance, no
  nonce, no code and nothing of another account; the logs it leaves carry its own address
  and the state invariant is kept.
\<close>

theorem wasm_execute_confined:
  assumes "state_inv E s" "wasm_execute E code s a gas_limit input = (r, s')"
  shows "state_inv E s' \<and> st_code s' = st_code s \<and> total_balance s' = total_balance s \<and>
    (\<forall>b. balance_of s' b = balance_of s b \<and> nonce_of s' b = nonce_of s b) \<and>
    (\<forall>b k. b \<noteq> a \<longrightarrow> get_account s' b = get_account s b \<and> get_storage s' b k = get_storage s b k) \<and>
    (\<forall>out l. r = Inr out \<longrightarrow> l \<in> set (vo_logs out) \<longrightarrow> log_address l = a)"
proof -
  obtain h' where h: "guest_frame E (vm_host s a input) h'" "s' = ho_state h'"
    "\<forall>out. r = Inr out \<longrightarrow> vo_logs out = ho_logs h' \<and> vo_success out"
    using wasm_execute_frame [OF assms(2)] by blast
  then show ?thesis using assms(1)
    by (auto simp: guest_frame_def vm_host_def state_inv_def state_wf_def)
qed

definition sample_vm_state :: state_db where
  "sample_vm_state = set_account ref_vm [1] sample_account (set_account ref_vm [2] sample_account state_new)"

lemma sample_vm_inv: "state_inv ref_vm sample_vm_state"
  unfolding sample_vm_state_def by (intro reach_inv reach_account reach_new)

lemmas vm_run_simps = wasm_execute_def ref_start_def vm_host_def host_calldata_len_def
  host_storage_set_def host_emit_log_def vm_done_def remaining_fuel_def start_fuel_def

theorem wasm_execute_confined_witness:
  "\<exists>s'. wasm_execute ref_vm [2] sample_vm_state [1] 5000 [] = (Inl (TrapError ''unreachable''), s') \<and>
     state_inv ref_vm s' \<and> balance_of s' [1] = 9 \<and> get_account s' [2] = get_account sample_vm_state [2]"
proof -
  obtain s' where run: "wasm_execute ref_vm [2] sample_vm_state [1] 5000 [] = (Inl (TrapError ''unreachable''), s')"
    by (simp add: vm_run_simps)
  have "balance_of sample_vm_state [1] = 9"
    by (simp add: sample_vm_state_def ledger.bal_put sample_account_def uval_def)
  then show ?thesis using wasm_execute_confined [OF sample_vm_inv run] run by auto
qed

text \<open>
  C38: a gas limit of zero is not a limit. A contract called with no gas left runs on
  10,000,000 units of fuel, with the same effects on the state, and reports that none of it
  remains, so that nothing is charged for it.
\<close>

theorem zero_gas_runs_unmetered:
  "wasm_execute E code s a 0 input =
     (case wasm_execute E code s a 10000000 input of
        (Inl e, s') \<Rightarrow> (Inl e, s')
      | (Inr out, s') \<Rightarrow> (Inr (out \<lparr> vo_gas_left := 0 \<rparr>), s'))"
  by (simp add: wasm_execute_def start_fuel_def vm_done_def remaining_fuel_def
      split: sum.split prod.split call_export.split)

end
