(* ===== verification/Executor.thy ===== *)
theory Executor
  imports Vm
begin

text \<open>
  Transaction execution, \<open>crates/ivory-executor/src\<close>: the gas schedule and meter, the
  dispatch of a call to the VM, \<open>Executor::execute_transaction\<close> and \<open>Executor::simulate\<close>.
  An operation that writes the shared state returns the state on every branch, errors
  included, because the code writes before it fails.
\<close>

section \<open>Gas\<close>

record gas_config =
  gc_tx_gas_cost :: u64
  gc_data_gas_cost :: u64
  gc_max_gas_per_block :: u64

definition gas_config_default :: gas_config where
  "gas_config_default =
     \<lparr> gc_tx_gas_cost = 21000, gc_data_gas_cost = 16, gc_max_gas_per_block = 30000000 \<rparr>"

datatype execution_error =
    NonceMismatch u64 u64
  | InsufficientBalance
  | OutOfGas
  | Overflow
  | BlockGasLimitExceeded
  | VmFailed string

record gas_meter =
  gm_limit :: u64
  gm_remaining :: u64
  gm_intrinsic :: u64

definition gas_meter_new :: "u64 \<Rightarrow> u64 \<Rightarrow> execution_error + gas_meter" where
  "gas_meter_new limit intrinsic =
     (case checked_sub_w limit intrinsic of
        None \<Rightarrow> Inl OutOfGas
      | Some remaining \<Rightarrow>
          Inr \<lparr> gm_limit = limit, gm_remaining = remaining, gm_intrinsic = intrinsic \<rparr>)"

definition meter_gas_used :: "gas_meter \<Rightarrow> u64" where
  "meter_gas_used m = saturating_sub_w (gm_limit m) (gm_remaining m)"

definition meter_refund_gas :: "gas_meter \<Rightarrow> u64" where
  "meter_refund_gas m = gm_remaining m"

definition meter_spend :: "u64 \<Rightarrow> gas_meter \<Rightarrow> execution_error + gas_meter" where
  "meter_spend amount m =
     (case checked_sub_w (gm_remaining m) amount of
        None \<Rightarrow> Inl OutOfGas
      | Some remaining \<Rightarrow> Inr (m \<lparr> gm_remaining := remaining \<rparr>))"

definition compute_intrinsic_gas_len :: "nat \<Rightarrow> gas_config \<Rightarrow> u64" where
  "compute_intrinsic_gas_len data_len cfg =
     (let data_cost = saturating_mul_w (of_nat data_len) (gc_data_gas_cost cfg)
      in saturating_add_w (gc_tx_gas_cost cfg) data_cost)"

definition compute_intrinsic_gas :: "transaction \<Rightarrow> gas_config \<Rightarrow> u64" where
  "compute_intrinsic_gas tx cfg = compute_intrinsic_gas_len (tx_data_len tx) cfg"

section \<open>Calls\<close>

datatype call_kind = Call | Create

definition call_kind_from_tx :: "transaction \<Rightarrow> call_kind" where
  "call_kind_from_tx tx = (if tx_is_create tx then Create else Call)"

record call_input =
  ci_kind :: call_kind
  ci_from :: address
  ci_to :: "address option"
  ci_value :: u256
  ci_data :: bytes

definition call_input_from_tx :: "transaction \<Rightarrow> call_input" where
  "call_input_from_tx tx =
     \<lparr> ci_kind = call_kind_from_tx tx, ci_from = tx_from tx, ci_to = tx_to tx,
       ci_value = tx_value tx, ci_data = tx_data tx \<rparr>"

record call_result =
  cr_success :: bool
  cr_logs :: "log list"
  cr_gas_used :: u64
  cr_output :: bytes

definition call_result_empty :: "bool \<Rightarrow> u64 \<Rightarrow> call_result" where
  "call_result_empty success gas_used =
     \<lparr> cr_success = success, cr_logs = [], cr_gas_used = gas_used, cr_output = [] \<rparr>"

definition output_from_i32 :: "i32 \<Rightarrow> bytes" where
  "output_from_i32 val = replicate 28 0 @ to_be_bytes_w val"

text \<open>The \<open>Display\<close> texts that \<open>thiserror\<close> derives for \<open>VmError\<close>.\<close>

fun vm_error_display :: "vm_error \<Rightarrow> string" where
  "vm_error_display (InvalidModule e) = ''invalid wasm: '' @ e"
| "vm_error_display (Instantiate e) = ''instantiate: '' @ e"
| "vm_error_display (Export e) = ''export: '' @ e"
| "vm_error_display (TrapError e) = ''trap: '' @ e"

definition execute_call ::
  "'z vm_env_scheme \<Rightarrow> call_input \<Rightarrow> state_db \<Rightarrow> u64 \<Rightarrow> (execution_error + call_result) \<times> state_db" where
  "execute_call E input state gas_limit =
     (case ci_kind input of
        Create \<Rightarrow> (Inr (call_result_empty True 0), state)
      | Call \<Rightarrow>
          (let to_addr = (case ci_to input of Some a \<Rightarrow> a | None \<Rightarrow> ci_from input);
               code = get_code state to_addr
           in if code = [] then (Inr (call_result_empty True 0), state)
              else case wasm_execute E code state to_addr gas_limit (ci_data input) of
                     (Inl e, state') \<Rightarrow> (Inl (VmFailed (vm_error_display e)), state')
                   | (Inr out, state') \<Rightarrow>
                       (Inr \<lparr> cr_success = vo_success out, cr_logs = vo_logs out,
                              cr_gas_used = saturating_sub_w gas_limit (vo_gas_left out),
                              cr_output = (case vo_return_value out of
                                             Some v \<Rightarrow> output_from_i32 v | None \<Rightarrow> []) \<rparr>,
                        state')))"

section \<open>Execution\<close>

record execution_context =
  ec_block_number :: u64
  ec_timestamp :: u64
  ec_gas_used :: u64
  ec_beneficiary :: address

definition execution_context_new :: "u64 \<Rightarrow> u64 \<Rightarrow> execution_context" where
  "execution_context_new block_number timestamp =
     \<lparr> ec_block_number = block_number, ec_timestamp = timestamp, ec_gas_used = 0,
       ec_beneficiary = address_zero \<rparr>"

record execution_outcome =
  eo_receipt :: receipt
  eo_gas_used :: u64
  eo_gas_refunded :: u64
  eo_call :: call_result

definition account_or_default :: "state_db \<Rightarrow> address \<Rightarrow> account" where
  "account_or_default s a = (case get_account s a of Some acc \<Rightarrow> acc | None \<Rightarrow> account_new)"

text \<open>The checks and the debit of the sender: the meter and the account to store.\<close>

definition buy_gas ::
  "gas_config \<Rightarrow> transaction \<Rightarrow> execution_context \<Rightarrow> state_db \<Rightarrow> execution_error + gas_meter \<times> account" where
  "buy_gas cfg tx ctx s =
     (let sender = account_or_default s (tx_from tx)
      in if acc_nonce sender \<noteq> tx_nonce tx then Inl (NonceMismatch (acc_nonce sender) (tx_nonce tx))
         else case gas_meter_new (tx_gas tx) (compute_intrinsic_gas tx cfg) of
           Inl e \<Rightarrow> Inl e
         | Inr meter \<Rightarrow>
         (case u256_checked_mul (u256_from_u64 (tx_gas tx)) (tx_gas_price tx) of
            None \<Rightarrow> Inl Overflow
          | Some gas_cost \<Rightarrow>
         (case u256_checked_add (tx_value tx) gas_cost of
            None \<Rightarrow> Inl Overflow
          | Some cost \<Rightarrow>
              if acc_balance sender < cost then Inl InsufficientBalance
              else if gc_max_gas_per_block cfg < saturating_add_w (ec_gas_used ctx) (tx_gas tx)
                then Inl BlockGasLimitExceeded
              else case u256_checked_sub (acc_balance sender) cost of
                None \<Rightarrow> Inl Overflow
              | Some bal \<Rightarrow>
              (case checked_add_w (acc_nonce sender) 1 of
                 None \<Rightarrow> Inl Overflow
               | Some nonce \<Rightarrow>
                   Inr (meter, sender \<lparr> acc_balance := bal, acc_nonce := nonce \<rparr>)))))"

text \<open>The value credit, and for a creation the code.\<close>

definition apply_value ::
  "'z state_env_scheme \<Rightarrow> transaction \<Rightarrow> state_db \<Rightarrow> execution_error + state_db" where
  "apply_value E tx s =
     (case tx_to tx of
        Some to_addr \<Rightarrow>
          (let recipient = account_or_default s to_addr
           in case u256_checked_add (acc_balance recipient) (tx_value tx) of
                None \<Rightarrow> Inl Overflow
              | Some bal \<Rightarrow> Inr (set_account E to_addr (recipient \<lparr> acc_balance := bal \<rparr>) s))
      | None \<Rightarrow>
          (let created = address_create E (tx_from tx) (tx_nonce tx);
               account = account_or_default s created
           in case u256_checked_add (acc_balance account) (tx_value tx) of
                None \<Rightarrow> Inl Overflow
              | Some bal \<Rightarrow>
                  Inr (set_code created (tx_data tx)
                    (set_account E created
                       (account \<lparr> acc_balance := bal, acc_code_hash := keccak256 E (tx_data tx) \<rparr>) s))))"

definition refund_sender ::
  "'z state_env_scheme \<Rightarrow> transaction \<Rightarrow> u64 \<Rightarrow> state_db \<Rightarrow> execution_error + state_db" where
  "refund_sender E tx refund_units s =
     (case u256_checked_mul (u256_from_u64 refund_units) (tx_gas_price tx) of
        None \<Rightarrow> Inl Overflow
      | Some refund \<Rightarrow>
          if u256_is_zero refund then Inr s
          else let sender = account_or_default s (tx_from tx)
               in case u256_checked_add (acc_balance sender) refund of
                    None \<Rightarrow> Inl Overflow
                  | Some bal \<Rightarrow> Inr (set_account E (tx_from tx) (sender \<lparr> acc_balance := bal \<rparr>) s))"

definition charge_call :: "call_result \<Rightarrow> gas_meter \<Rightarrow> execution_error + gas_meter" where
  "charge_call call meter =
     (if 0 < cr_gas_used call then meter_spend (cr_gas_used call) meter else Inr meter)"

definition execution_receipt ::
  "'z core_env_scheme \<Rightarrow> transaction \<Rightarrow> execution_context \<Rightarrow> u64 \<Rightarrow> call_result \<Rightarrow> receipt" where
  "execution_receipt E tx ctx gas_used call =
     \<lparr> rc_tx_hash = tx_hash E tx, rc_block_number = ec_block_number ctx, rc_gas_used = gas_used,
       rc_status = cr_success call, rc_logs = cr_logs call \<rparr>"

definition execute_transaction ::
  "'z vm_env_scheme \<Rightarrow> gas_config \<Rightarrow> transaction \<Rightarrow> execution_context \<Rightarrow> state_db \<Rightarrow>
   (execution_error + execution_outcome) \<times> execution_context \<times> state_db" where
  "execute_transaction E cfg tx ctx s =
     (case buy_gas cfg tx ctx s of
        Inl e \<Rightarrow> (Inl e, ctx, s)
      | Inr (meter, sender) \<Rightarrow>
     (let s1 = set_account E (tx_from tx) sender s
      in case apply_value E tx s1 of
        Inl e \<Rightarrow> (Inl e, ctx, s1)
      | Inr s2 \<Rightarrow>
     (case execute_call E (call_input_from_tx tx) s2 (gm_remaining meter) of
        (Inl e, s3) \<Rightarrow> (Inl e, ctx, s3)
      | (Inr call, s3) \<Rightarrow>
     (case charge_call call meter of
        Inl e \<Rightarrow> (Inl e, ctx, s3)
      | Inr meter' \<Rightarrow>
     (let gas_used = meter_gas_used meter';
          refund_units = meter_refund_gas meter'
      in case refund_sender E tx refund_units s3 of
           Inl e \<Rightarrow> (Inl e, ctx, s3)
         | Inr s4 \<Rightarrow>
             (let ctx' = ctx \<lparr> ec_gas_used := saturating_add_w (ec_gas_used ctx) gas_used \<rparr>
              in (Inr \<lparr> eo_receipt = execution_receipt E tx ctx' gas_used call,
                        eo_gas_used = gas_used, eo_gas_refunded = refund_units, eo_call = call \<rparr>,
                  ctx', s4)))))))"

section \<open>Simulation\<close>

record simulate_request =
  sr_from :: address
  sr_to :: "address option"
  sr_value :: u256
  sr_data :: bytes
  sr_gas :: u64

definition simulate_request_default :: simulate_request where
  "simulate_request_default =
     \<lparr> sr_from = address_zero, sr_to = None, sr_value = U256_ZERO, sr_data = [], sr_gas = 10000000 \<rparr>"

record simulate_outcome =
  so_call :: call_result
  so_gas_used :: u64
  so_intrinsic :: u64

definition simulate_debit ::
  "'z state_env_scheme \<Rightarrow> simulate_request \<Rightarrow> state_db \<Rightarrow> execution_error + state_db" where
  "simulate_debit E req s =
     (let sender = account_or_default s (sr_from req)
      in if acc_balance sender < sr_value req then Inl InsufficientBalance
         else if u256_is_zero (sr_value req) then Inr s
         else case u256_checked_sub (acc_balance sender) (sr_value req) of
                None \<Rightarrow> Inl Overflow
              | Some bal \<Rightarrow> Inr (set_account E (sr_from req) (sender \<lparr> acc_balance := bal \<rparr>) s))"

text \<open>\<open>nonce\<close> is the sender's, read before the debit.\<close>

definition simulate_credit ::
  "'z state_env_scheme \<Rightarrow> simulate_request \<Rightarrow> u64 \<Rightarrow> state_db \<Rightarrow> execution_error + state_db" where
  "simulate_credit E req nonce s =
     (case sr_to req of
        Some to_addr \<Rightarrow>
          if u256_is_zero (sr_value req) then Inr s
          else let recipient = account_or_default s to_addr
               in case u256_checked_add (acc_balance recipient) (sr_value req) of
                    None \<Rightarrow> Inl Overflow
                  | Some bal \<Rightarrow> Inr (set_account E to_addr (recipient \<lparr> acc_balance := bal \<rparr>) s)
      | None \<Rightarrow>
          (let created = address_create E (sr_from req) nonce;
               account = account_or_default s created
           in case (if u256_is_zero (sr_value req) then Some (acc_balance account)
                    else u256_checked_add (acc_balance account) (sr_value req)) of
                None \<Rightarrow> Inl Overflow
              | Some bal \<Rightarrow>
                  Inr (set_code created (sr_data req)
                    (set_account E created
                       (account \<lparr> acc_balance := bal, acc_code_hash := keccak256 E (sr_data req) \<rparr>) s))))"

definition simulate_input :: "simulate_request \<Rightarrow> call_input" where
  "simulate_input req =
     \<lparr> ci_kind = (if sr_to req = None then Create else Call), ci_from = sr_from req,
       ci_to = sr_to req, ci_value = sr_value req, ci_data = sr_data req \<rparr>"

definition simulate ::
  "'z vm_env_scheme \<Rightarrow> gas_config \<Rightarrow> simulate_request \<Rightarrow> state_db \<Rightarrow>
   (execution_error + simulate_outcome) \<times> state_db" where
  "simulate E cfg req s =
     (let gas = (if sr_gas req = 0 then 10000000 else sr_gas req);
          intrinsic = compute_intrinsic_gas_len (length (sr_data req)) cfg
      in case gas_meter_new gas intrinsic of
        Inl e \<Rightarrow> (Inl e, s)
      | Inr meter \<Rightarrow>
     (case simulate_debit E req s of
        Inl e \<Rightarrow> (Inl e, s)
      | Inr s1 \<Rightarrow>
     (case simulate_credit E req (acc_nonce (account_or_default s (sr_from req))) s1 of
        Inl e \<Rightarrow> (Inl e, s1)
      | Inr s2 \<Rightarrow>
     (case execute_call E (simulate_input req) s2 (gm_remaining meter) of
        (Inl e, s3) \<Rightarrow> (Inl e, s3)
      | (Inr call, s3) \<Rightarrow>
     (case charge_call call meter of
        Inl e \<Rightarrow> (Inl e, s3)
      | Inr meter' \<Rightarrow>
          (Inr \<lparr> so_call = call, so_gas_used = meter_gas_used meter', so_intrinsic = intrinsic \<rparr>,
           s3))))))"

section \<open>Lemmas\<close>

lemma account_or_default_fields [simp]:
  "uval (acc_balance (account_or_default s a)) = balance_of s a"
  "acc_nonce (account_or_default s a) = nonce_of s a"
  by (simp_all add: account_or_default_def balance_of_def nonce_of_def account_new_def split: option.split)

lemma gas_meter_new_Inr:
  "gas_meter_new limit intrinsic = Inr m \<longleftrightarrow>
     gm_limit m = limit \<and> gm_intrinsic m = intrinsic \<and> unat (gm_remaining m) + unat intrinsic = unat limit"
  by (cases m) (auto simp: gas_meter_new_def checked_sub_w_Some [symmetric] split: option.split)

lemma charge_call_Inr:
  "charge_call c m = Inr m' \<Longrightarrow>
     gm_limit m' = gm_limit m \<and> unat (gm_remaining m') + unat (cr_gas_used c) = unat (gm_remaining m)"
  by (auto simp: charge_call_def meter_spend_def checked_sub_w_Some word_neq_0_conv [symmetric]
      split: if_splits option.splits)

lemma charge_call_affordable:
  "unat (cr_gas_used c) \<le> unat (gm_remaining m) \<Longrightarrow> \<exists>m'. charge_call c m = Inr m'"
  by (auto simp: charge_call_def meter_spend_def checked_sub_w_def word_le_nat_alt split: option.split)

lemma meter_accounting:
  assumes "unat (gm_remaining m) \<le> unat (gm_limit m)"
  shows "unat (meter_gas_used m) + unat (meter_refund_gas m) = unat (gm_limit m)"
  using assms by (simp add: meter_gas_used_def meter_refund_gas_def saturating_sub_w_val)

text \<open>What a successful purchase means for the sender's account.\<close>

definition purchase :: "gas_config \<Rightarrow> transaction \<Rightarrow> execution_context \<Rightarrow> state_db \<Rightarrow> gas_meter \<Rightarrow> account \<Rightarrow> bool" where
  "purchase cfg tx ctx s m acc \<longleftrightarrow>
     nonce_of s (tx_from tx) = tx_nonce tx \<and> unat (acc_nonce acc) = unat (tx_nonce tx) + 1 \<and>
     gm_limit m = tx_gas tx \<and> gm_intrinsic m = compute_intrinsic_gas tx cfg \<and>
     unat (gm_remaining m) + unat (compute_intrinsic_gas tx cfg) = unat (tx_gas tx) \<and>
     uval (acc_balance acc) + uval (tx_value tx) + unat (tx_gas tx) * uval (tx_gas_price tx)
       = balance_of s (tx_from tx) \<and>
     saturating_add_w (ec_gas_used ctx) (tx_gas tx) \<le> gc_max_gas_per_block cfg"

lemma buy_gas_Inr: "buy_gas cfg tx ctx s = Inr (m, acc) \<Longrightarrow> purchase cfg tx ctx s m acc"
  unfolding buy_gas_def purchase_def Let_def
  by (auto simp: gas_meter_new_Inr u256.add_exact u256.sub_exact u256.mul_exact checked_add_w_Some
      split: if_splits sum.splits option.splits)

lemma purchase_nonce:
  assumes "purchase cfg tx ctx s m acc"
  shows "acc_nonce acc = tx_nonce tx + 1" "unat (tx_nonce tx + 1) = unat (tx_nonce tx) + 1"
proof -
  have n: "unat (acc_nonce acc) = unat (tx_nonce tx) + 1" using assms by (simp add: purchase_def)
  then show *: "unat (tx_nonce tx + 1) = unat (tx_nonce tx) + 1"
    using unat_lt [of "acc_nonce acc"] by (simp add: unat_plus_if')
  show "acc_nonce acc = tx_nonce tx + 1" by (simp only: word_unat_eq_iff n *)
qed

text \<open>The account a transaction pays into.\<close>

definition tx_target :: "'z prim_env_scheme \<Rightarrow> transaction \<Rightarrow> address" where
  "tx_target E tx = (case tx_to tx of Some a \<Rightarrow> a | None \<Rightarrow> address_create E (tx_from tx) (tx_nonce tx))"

lemma apply_value_Inr:
  assumes "apply_value E tx s = Inr s'"
  shows "balance_of s' b = balance_of s b + (if b = tx_target E tx then uval (tx_value tx) else 0)"
    "nonce_of s' b = nonce_of s b"
    "total_balance s' = total_balance s + uval (tx_value tx)"
    "state_inv E s \<Longrightarrow> state_inv E s'"
  using assms unfolding apply_value_def tx_target_def
  by (auto simp: Let_def u256.add_exact ledger.bal_put ledger.nonce_put
      state_inv_set_account state_inv_set_code
      split: option.splits intro!: ledger.credit_total)

lemma apply_value_Inl:
  "apply_value E tx s = Inl e \<Longrightarrow>
     e = Overflow \<and> 2 ^ 256 \<le> balance_of s (tx_target E tx) + uval (tx_value tx)"
  unfolding apply_value_def tx_target_def
  by (auto simp: Let_def u256.add_None split: option.splits)

lemma execute_call_frame:
  assumes "execute_call E input s g = (r, s')"
  shows "balance_of s' b = balance_of s b" "nonce_of s' b = nonce_of s b"
    "total_balance s' = total_balance s" "state_inv E s \<Longrightarrow> state_inv E s'"
proof -
  have "s' = s \<or> (\<exists>code a r. wasm_execute E code s a g (ci_data input) = (r, s'))"
    using assms by (auto simp: execute_call_def Let_def split: call_kind.splits if_splits prod.splits sum.splits)
  then show "balance_of s' b = balance_of s b" "nonce_of s' b = nonce_of s b"
    "total_balance s' = total_balance s" "state_inv E s \<Longrightarrow> state_inv E s'"
    by (auto dest!: wasm_execute_frame simp: guest_frame_def vm_host_def)
qed

lemma execute_call_gas: "execute_call E input s g = (Inr c, s') \<Longrightarrow> unat (cr_gas_used c) \<le> unat g"
  by (auto simp: execute_call_def call_result_empty_def Let_def saturating_sub_w_val
      split: call_kind.splits if_splits prod.splits sum.splits)

lemma execute_call_Inl: "execute_call E input s g = (Inl e, s') \<Longrightarrow> \<exists>msg. e = VmFailed msg"
  by (auto simp: execute_call_def Let_def split: call_kind.splits if_splits prod.splits sum.splits)

lemma refund_sender_Inr:
  assumes "refund_sender E tx n s = Inr s'"
  shows "balance_of s' b = balance_of s b + (if b = tx_from tx then unat n * uval (tx_gas_price tx) else 0)"
    "nonce_of s' b = nonce_of s b"
    "total_balance s' = total_balance s + unat n * uval (tx_gas_price tx)"
    "state_inv E s \<Longrightarrow> state_inv E s'"
  using assms unfolding refund_sender_def
  by (auto simp: Let_def u256.add_exact u256.mul_exact ledger.bal_put ledger.nonce_put
      state_inv_set_account split: option.splits if_splits intro!: ledger.credit_total)

lemma refund_sender_Inl:
  "refund_sender E tx n s = Inl e \<Longrightarrow>
     2 ^ 256 \<le> unat n * uval (tx_gas_price tx) + balance_of s (tx_from tx)"
  unfolding refund_sender_def
  by (auto simp: Let_def u256.add_None u256.mul_None u256.mul_exact split: option.splits if_splits)

text \<open>The stages of a transaction that has been paid for.\<close>

lemma execute_transaction_stages:
  assumes "execute_transaction E cfg tx ctx s = (r, ctx', s')"
  obtains
    (rejected) e where "r = Inl e" "ctx' = ctx" "s' = s" "buy_gas cfg tx ctx s = Inl e"
  | (overflow) m acc e where "purchase cfg tx ctx s m acc" "r = Inl e" "ctx' = ctx"
      "s' = set_account E (tx_from tx) acc s"
      "apply_value E tx (set_account E (tx_from tx) acc s) = Inl e"
  | (trapped) m acc s2 e where "purchase cfg tx ctx s m acc" "r = Inl e" "ctx' = ctx"
      "apply_value E tx (set_account E (tx_from tx) acc s) = Inr s2"
      "execute_call E (call_input_from_tx tx) s2 (gm_remaining m) = (Inl e, s')"
  | (unrefunded) m acc s2 call m' e where "purchase cfg tx ctx s m acc" "r = Inl e" "ctx' = ctx"
      "apply_value E tx (set_account E (tx_from tx) acc s) = Inr s2"
      "execute_call E (call_input_from_tx tx) s2 (gm_remaining m) = (Inr call, s')"
      "charge_call call m = Inr m'" "refund_sender E tx (meter_refund_gas m') s' = Inl e"
  | (executed) m acc s2 call s3 m' where "purchase cfg tx ctx s m acc"
      "apply_value E tx (set_account E (tx_from tx) acc s) = Inr s2"
      "execute_call E (call_input_from_tx tx) s2 (gm_remaining m) = (Inr call, s3)"
      "charge_call call m = Inr m'" "refund_sender E tx (meter_refund_gas m') s3 = Inr s'"
      "ctx' = ctx \<lparr> ec_gas_used := saturating_add_w (ec_gas_used ctx) (meter_gas_used m') \<rparr>"
      "r = Inr \<lparr> eo_receipt = execution_receipt E tx ctx' (meter_gas_used m') call,
         eo_gas_used = meter_gas_used m', eo_gas_refunded = meter_refund_gas m', eo_call = call \<rparr>"
proof (cases "buy_gas cfg tx ctx s")
  case (Inl e)
  then show thesis using assms rejected by (auto simp: execute_transaction_def)
next
  case (Inr p)
  then obtain m acc where buy: "buy_gas cfg tx ctx s = Inr (m, acc)" by (cases p) simp
  note pu = buy_gas_Inr [OF buy]
  let ?s1 = "set_account E (tx_from tx) acc s"
  show thesis
  proof (cases "apply_value E tx ?s1")
    case (Inl e)
    then show thesis using assms buy overflow [OF pu] by (auto simp: execute_transaction_def)
  next
    case val: (Inr s2)
    obtain r3 s3 where call: "execute_call E (call_input_from_tx tx) s2 (gm_remaining m) = (r3, s3)"
      by fastforce
    show thesis
    proof (cases r3)
      case (Inl e)
      then show thesis using assms buy val call trapped [OF pu] by (auto simp: execute_transaction_def)
    next
      case r3: (Inr c)
      then obtain m' where m': "charge_call c m = Inr m'"
        using charge_call_affordable execute_call_gas call by metis
      show thesis
      proof (cases "refund_sender E tx (meter_refund_gas m') s3")
        case (Inl e)
        then show thesis using assms buy val call r3 m' unrefunded [OF pu]
          by (auto simp: execute_transaction_def)
      next
        case (Inr s4)
        then show thesis using assms buy val call r3 m' executed [OF pu]
          by (auto simp: execute_transaction_def Let_def)
      qed
    qed
  qed
qed

text \<open>
  Balances after a paid transaction, whether or not its call succeeds: the purchase, the
  credit and the call together.
\<close>

lemma paid_balances:
  assumes "purchase cfg tx ctx s m acc"
    and "apply_value E tx (set_account E (tx_from tx) acc s) = Inr s2"
    and "execute_call E input s2 g = (r, s3)"
  shows "balance_of s3 b + (if b = tx_from tx then uval (tx_value tx) + unat (tx_gas tx) * uval (tx_gas_price tx) else 0)
      = balance_of s b + (if b = tx_target E tx then uval (tx_value tx) else 0)"
    and "nonce_of s3 b = (if b = tx_from tx then tx_nonce tx + 1 else nonce_of s b)"
    and "total_balance s3 + unat (tx_gas tx) * uval (tx_gas_price tx) = total_balance s"
    and "state_inv E s \<Longrightarrow> state_inv E s3"
proof -
  note pu = assms(1) [unfolded purchase_def]
  have nonce: "acc_nonce acc = tx_nonce tx + 1"
    using purchase_nonce [OF assms(1)] by simp
  show "balance_of s3 b + (if b = tx_from tx then uval (tx_value tx) + unat (tx_gas tx) * uval (tx_gas_price tx) else 0)
      = balance_of s b + (if b = tx_target E tx then uval (tx_value tx) else 0)"
    using pu by (simp add: execute_call_frame(1) [OF assms(3)] apply_value_Inr(1) [OF assms(2)] ledger.bal_put)
  show "nonce_of s3 b = (if b = tx_from tx then tx_nonce tx + 1 else nonce_of s b)"
    using nonce by (simp add: execute_call_frame(2) [OF assms(3)] apply_value_Inr(2) [OF assms(2)] ledger.nonce_put)
  have "total_balance (set_account E (tx_from tx) acc s) + (uval (tx_value tx) + unat (tx_gas tx) * uval (tx_gas_price tx))
      = total_balance s"
    by (rule ledger.debit_total) (use pu in simp)
  then show "total_balance s3 + unat (tx_gas tx) * uval (tx_gas_price tx) = total_balance s"
    by (simp add: execute_call_frame(3) [OF assms(3)] apply_value_Inr(3) [OF assms(2)])
  show "state_inv E s \<Longrightarrow> state_inv E s3"
    by (rule execute_call_frame(4) [OF assms(3)], rule apply_value_Inr(4) [OF assms(2)], rule state_inv_set_account)
qed

lemma metered:
  assumes "purchase cfg tx ctx s m acc" "charge_call call m = Inr m'"
  shows "unat (meter_gas_used m') + unat (meter_refund_gas m') = unat (tx_gas tx)"
    and "unat (compute_intrinsic_gas tx cfg) + unat (cr_gas_used call) = unat (meter_gas_used m')"
proof -
  note pu = assms(1) [unfolded purchase_def]
  note ch = charge_call_Inr [OF assms(2)]
  show sum: "unat (meter_gas_used m') + unat (meter_refund_gas m') = unat (tx_gas tx)"
    using meter_accounting [of m'] pu ch by simp
  show "unat (compute_intrinsic_gas tx cfg) + unat (cr_gas_used call) = unat (meter_gas_used m')"
    using sum pu ch by (simp add: meter_refund_gas_def)
qed

lemma saturating_add_mono: "b \<le> c \<Longrightarrow> saturating_add_w a b \<le> saturating_add_w a (c :: u64)"
  by (simp add: word_le_nat_alt saturating_add_w_val)

text \<open>
  A failed transaction: with balances that together fit in 256 bits, only a contract failure
  leaves a trace.
\<close>

text \<open>
  The three ways to fail: before anything is written, on crediting the target after the sender has
  been debited, and in the contract. The refund never overflows: it is at most what was paid.
\<close>

lemma failed_stages:
  assumes "execute_transaction E cfg tx ctx s = (Inl e, ctx', s')"
  obtains (clean) "ctx' = ctx" "s' = s" "\<And>msg. e \<noteq> VmFailed msg"
  | (credit) m acc where "e = Overflow" "ctx' = ctx" "purchase cfg tx ctx s m acc"
      "s' = set_account E (tx_from tx) acc s" "2 ^ 256 \<le> balance_of s' (tx_target E tx) + uval (tx_value tx)"
  | (contract) msg m acc s2 where "e = VmFailed msg" "ctx' = ctx" "purchase cfg tx ctx s m acc"
      "apply_value E tx (set_account E (tx_from tx) acc s) = Inr s2"
      "execute_call E (call_input_from_tx tx) s2 (gm_remaining m) = (Inl e, s')"
  using assms
proof (cases rule: execute_transaction_stages)
  case (rejected e')
  moreover have "e \<noteq> VmFailed msg" for msg
    using rejected(1,4) by (auto simp: buy_gas_def gas_meter_new_def Let_def split: if_splits option.splits)
  ultimately show thesis using clean by blast
next
  case (overflow m acc e')
  then show thesis using apply_value_Inl [OF overflow(5)] by (intro credit) auto
next
  case (trapped m acc s2 e')
  obtain msg where "e = VmFailed msg" using execute_call_Inl [OF trapped(5)] trapped(2) by auto
  then show thesis using contract trapped by blast
next
  case (unrefunded m acc s2 call m' e')
  have "unat (meter_refund_gas m') * uval (tx_gas_price tx) \<le> unat (tx_gas tx) * uval (tx_gas_price tx)"
    using metered(1) [OF unrefunded(1,6)] by (intro mult_le_mono1) simp
  moreover have "balance_of s' (tx_from tx) + unat (tx_gas tx) * uval (tx_gas_price tx) \<le> balance_of s (tx_from tx)"
    using paid_balances(1) [OF unrefunded(1,4,5), of "tx_from tx"] by (simp split: if_splits)
  ultimately show thesis using refund_sender_Inl [OF unrefunded(7)] balance_lt [of s "tx_from tx"] by linarith
qed simp_all

lemma failed_transaction:
  assumes "total_balance s < 2 ^ 256" "execute_transaction E cfg tx ctx s = (Inl e, ctx', s')"
  obtains (clean) "ctx' = ctx" "s' = s" "\<And>msg. e \<noteq> VmFailed msg"
  | (contract) msg m acc s2 where "e = VmFailed msg" "ctx' = ctx" "purchase cfg tx ctx s m acc"
      "apply_value E tx (set_account E (tx_from tx) acc s) = Inr s2"
      "execute_call E (call_input_from_tx tx) s2 (gm_remaining m) = (Inl e, s')"
  using assms(2)
proof (cases rule: failed_stages)
  case (credit m acc)
  have "total_balance s' + (uval (tx_value tx) + unat (tx_gas tx) * uval (tx_gas_price tx)) = total_balance s"
    unfolding credit(4) by (rule ledger.debit_total) (use credit(3) in \<open>simp add: purchase_def\<close>)
  then show thesis using credit(5) balance_le_total [of s' "tx_target E tx"] assms(1) by linarith
qed (use that in blast)+

text \<open>Every branch keeps the state invariant, and no branch creates balance.\<close>

lemma execute_transaction_inv:
  assumes "execute_transaction E cfg tx ctx s = (r, ctx', s')" "state_inv E s"
  shows "state_inv E s'"
  using assms(1)
proof (cases rule: execute_transaction_stages)
  case (overflow m acc e)
  then show ?thesis using assms(2) by (simp add: state_inv_set_account)
next
  case (trapped m acc s2 e)
  then show ?thesis using paid_balances(4) [OF trapped(1,4,5)] assms(2) by blast
next
  case (unrefunded m acc s2 call m' e)
  then show ?thesis using paid_balances(4) [OF unrefunded(1,4,5)] assms(2) by blast
next
  case (executed m acc s2 call s3 m')
  then show ?thesis
    using refund_sender_Inr(4) [OF executed(5)] paid_balances(4) [OF executed(1-3)] assms(2) by blast
qed (use assms(2) in simp)

lemma execute_transaction_total:
  assumes "execute_transaction E cfg tx ctx s = (Inr out, ctx', s')"
  shows "total_balance s' \<le> total_balance s"
  using assms
proof (cases rule: execute_transaction_stages)
  case (executed m acc s2 call s3 m')
  have "unat (meter_refund_gas m') * uval (tx_gas_price tx) \<le> unat (tx_gas tx) * uval (tx_gas_price tx)"
    using metered(1) [OF executed(1,4)] by (intro mult_le_mono1) simp
  then show ?thesis
    using paid_balances(3) [OF executed(1-3)] refund_sender_Inr(3) [OF executed(5)] by linarith
qed simp_all

text \<open>The block's gas counter never passes the cap.\<close>

lemma execute_transaction_cap:
  assumes "execute_transaction E cfg tx ctx s = (Inr out, ctx', s')"
  shows "ec_gas_used ctx' \<le> gc_max_gas_per_block cfg"
  using assms
proof (cases rule: execute_transaction_stages)
  case (executed m acc s2 call s3 m')
  have "meter_gas_used m' \<le> tx_gas tx"
    using metered(1) [OF executed(1,4)] by (simp add: word_le_nat_alt)
  then show ?thesis
    using executed(1,6) saturating_add_mono [of "meter_gas_used m'" "tx_gas tx" "ec_gas_used ctx"]
    by (auto simp: purchase_def intro: order.trans)
qed simp_all

section \<open>A call only reads storage and code\<close>

definition same_view :: "host \<Rightarrow> host \<Rightarrow> bool" where
  "same_view h k \<longleftrightarrow> ho_address h = ho_address k \<and> ho_logs h = ho_logs k \<and>
     ho_calldata h = ho_calldata k \<and> st_storage (ho_state h) = st_storage (ho_state k)"

lemma same_view_set: "same_view h k \<Longrightarrow> same_view (host_storage_set E slot v h) (host_storage_set E slot v k)"
  by (simp add: same_view_def host_storage_set_def set_storage_def write_slot_def)

lemma same_view_log: "same_view h k \<Longrightarrow> same_view (host_emit_log t h) (host_emit_log t k)"
  by (simp add: same_view_def host_emit_log_def)

lemma same_view_read:
  assumes "same_view h k"
  shows "host_storage_get h slot = host_storage_get k slot" "host_calldata_len h = host_calldata_len k"
    "host_calldata_at h n = host_calldata_at k n"
  using assms
  by (simp_all add: same_view_def host_storage_get_def get_storage_def host_calldata_len_def host_calldata_at_def Let_def)

lemma run_guest_view:
  "same_view h k \<Longrightarrow>
   fst (run_guest E g h) = fst (run_guest E g k) \<and> same_view (snd (run_guest E g h)) (snd (run_guest E g k))"
proof (induction g arbitrary: h k)
  case (StorageSet slot v g)
  show ?case using StorageSet.IH [OF same_view_set [OF StorageSet.prems]] by simp
next
  case (EmitLog t g)
  show ?case using EmitLog.IH [OF same_view_log [OF EmitLog.prems]] by simp
next
  case (StorageGet slot f)
  show ?case using StorageGet.IH [OF rangeI StorageGet.prems]
    by (simp add: same_view_read(1) [OF StorageGet.prems])
next
  case (CalldataLen f)
  show ?case using CalldataLen.IH [OF rangeI CalldataLen.prems]
    by (simp add: same_view_read(2) [OF CalldataLen.prems])
next
  case (CalldataAt i f)
  show ?case using CalldataAt.IH [OF rangeI CalldataAt.prems]
    by (simp add: same_view_read(3) [OF CalldataAt.prems])
qed simp_all

lemma run_guest_views:
  assumes "same_view h k"
  obtains r h' k' where "run_guest E g h = (r, h')" "run_guest E g k = (r, k')" "same_view h' k'"
  using run_guest_view [OF assms, of E g] that
  by (cases "run_guest E g h"; cases "run_guest E g k") simp

lemma vm_done_view: "same_view h k \<Longrightarrow> fst (vm_done r f g h) = fst (vm_done r f g k)"
  by (simp add: vm_done_def same_view_def)

lemma wasm_execute_view:
  assumes "st_storage s = st_storage t"
  shows "fst (wasm_execute E code s a g i) = fst (wasm_execute E code t a g i)"
proof (cases "\<exists>start. wasmi_module E code = Inr (Inr start)")
  case True
  then obtain start where w: "wasmi_module E code = Inr (Inr start)" by blast
  have "same_view (vm_host s a i) (vm_host t a i)" using assms by (simp add: same_view_def vm_host_def)
  then obtain r h k where run: "run_guest E (start (start_fuel g)) (vm_host s a i) = (r, h)"
      "run_guest E (start (start_fuel g)) (vm_host t a i) = (r, k)" and v: "same_view h k"
    by (rule run_guest_views)
  show ?thesis
  proof (cases r)
    case (Inr p)
    then obtain c fuel where r: "r = Inr (c, fuel)" by (cases p) simp
    show ?thesis
    proof (cases c)
      case (CallI32 f)
      obtain r' h' k' where "run_guest E (f fuel) h = (r', h')" "run_guest E (f fuel) k = (r', k')" "same_view h' k'"
        using v by (rule run_guest_views)
      then show ?thesis
        by (simp add: wasm_execute_def w run r CallI32 vm_done_view split: sum.split prod.split)
    next
      case (CallUnit f)
      obtain r' h' k' where "run_guest E (f fuel) h = (r', h')" "run_guest E (f fuel) k = (r', k')" "same_view h' k'"
        using v by (rule run_guest_views)
      then show ?thesis
        by (simp add: wasm_execute_def w run r CallUnit vm_done_view split: sum.split prod.split)
    qed (simp_all add: wasm_execute_def w run r vm_done_view [OF v])
  qed (simp add: wasm_execute_def w run)
next
  case False
  then consider e where "wasmi_module E code = Inl e" | e where "wasmi_module E code = Inr (Inl e)"
    by (metis sum.exhaust)
  then show ?thesis by cases (simp_all add: wasm_execute_def)
qed

lemma execute_call_view:
  assumes "st_storage s = st_storage t" "get_code s = get_code t"
  shows "fst (execute_call E input s g) = fst (execute_call E input t g)"
proof -
  let ?a = "case ci_to input of Some a \<Rightarrow> a | None \<Rightarrow> ci_from input"
  obtain r s1 t1 where "wasm_execute E (get_code t ?a) s ?a g (ci_data input) = (r, s1)"
      "wasm_execute E (get_code t ?a) t ?a g (ci_data input) = (r, t1)"
    using wasm_execute_view [OF assms(1), of E "get_code t ?a" ?a g "ci_data input"]
    by (cases "wasm_execute E (get_code t ?a) s ?a g (ci_data input)";
        cases "wasm_execute E (get_code t ?a) t ?a g (ci_data input)") simp
  then show ?thesis using assms(2)
    by (simp add: execute_call_def Let_def split: call_kind.split sum.split)
qed

lemma simulate_debit_Inr:
  assumes "uval (sr_value req) \<le> balance_of s (sr_from req)"
  shows "\<exists>s1. simulate_debit E req s = Inr s1 \<and> st_storage s1 = st_storage s \<and> get_code s1 = get_code s \<and>
    (\<forall>b. balance_of s1 b + (if b = sr_from req then uval (sr_value req) else 0) = balance_of s b)"
proof (cases "u256_is_zero (sr_value req)")
  case True
  then show ?thesis using assms by (simp add: simulate_debit_def Let_def)
next
  case False
  obtain bal where bal: "u256_checked_sub (acc_balance (account_or_default s (sr_from req))) (sr_value req) = Some bal"
    using assms by (cases "u256_checked_sub (acc_balance (account_or_default s (sr_from req))) (sr_value req)")
      (auto simp: u256.sub_None)
  then have "uval bal + uval (sr_value req) = balance_of s (sr_from req)" by (simp add: u256.sub_exact)
  then show ?thesis using assms False bal by (simp add: simulate_debit_def Let_def ledger.bal_put)
qed

definition simulate_target :: "'z prim_env_scheme \<Rightarrow> simulate_request \<Rightarrow> u64 \<Rightarrow> address" where
  "simulate_target E req nonce = (case sr_to req of Some a \<Rightarrow> a | None \<Rightarrow> address_create E (sr_from req) nonce)"

lemma simulate_credit_Inr:
  assumes "balance_of s (simulate_target E req nonce) + uval (sr_value req) < 2 ^ 256"
  shows "\<exists>s2. simulate_credit E req nonce s = Inr s2 \<and> st_storage s2 = st_storage s \<and>
    (sr_to req \<noteq> None \<longrightarrow> get_code s2 = get_code s)"
proof -
  let ?acc = "account_or_default s (simulate_target E req nonce)"
  obtain bal where "u256_checked_add (acc_balance ?acc) (sr_value req) = Some bal"
    using assms by (cases "u256_checked_add (acc_balance ?acc) (sr_value req)") (auto simp: u256.add_None)
  then show ?thesis
    by (cases "sr_to req") (simp_all add: simulate_credit_def simulate_target_def Let_def)
qed

section \<open>A sample\<close>

definition exec_config :: gas_config where
  "exec_config = \<lparr> gc_tx_gas_cost = 2, gc_data_gas_cost = 1, gc_max_gas_per_block = 1000 \<rparr>"

text \<open>Checked arithmetic on values of one limb, for evaluating samples.\<close>

lemma u256_one_limb:
  "unat a * unat b < 2 ^ 64 \<Longrightarrow> u256_checked_mul (U256 a 0 0 0) (U256 b 0 0 0) = Some (U256 (a * b) 0 0 0)"
  "unat a + unat b < 2 ^ 64 \<Longrightarrow> u256_checked_add (U256 a 0 0 0) (U256 b 0 0 0) = Some (U256 (a + b) 0 0 0)"
  "b \<le> a \<Longrightarrow> u256_checked_sub (U256 a 0 0 0) (U256 b 0 0 0) = Some (U256 (a - b) 0 0 0)"
  by (simp_all add: u256.mul_exact u256.add_exact u256.sub_exact uval_def unat_mult_lem [THEN iffD1]
      unat_add_lem [THEN iffD1] unat_sub word_le_nat_alt)

text \<open>Account 1 has funds; contract 3 stores and logs, contract 4 stores and traps.\<close>

definition exec_state :: state_db where
  "exec_state = set_code [4] [2] (set_code [3] [1]
     (set_account ref_vm [1] (account_new \<lparr> acc_balance := U256 1000 0 0 0 \<rparr>) state_new))"

definition exec_tx :: "address option \<Rightarrow> transaction" where
  "exec_tx to_addr =
     \<lparr> tx_from = [1], tx_to = to_addr, tx_value = U256 5 0 0 0, tx_data = [7, 7, 7],
       tx_gas_price = U256 2 0 0 0, tx_gas = 200, tx_nonce = 0,
       tx_signature = [], tx_public_key = [] \<rparr>"

definition exec_run :: "address option \<Rightarrow> (execution_error + execution_outcome) \<times> execution_context \<times> state_db" where
  "exec_run to_addr =
     execute_transaction ref_vm exec_config (exec_tx to_addr) (execution_context_new 1 1) exec_state"

lemma exec_run_other_account [simp]:
  "get_account (set_storage E [3] slot v s) [1] = get_account s [1]"
  by (simp add: get_account_set_storage_other)

lemmas exec_simps = U256_ZERO_def execute_transaction_def buy_gas_def apply_value_def refund_sender_def
  execute_call_def call_input_from_tx_def call_kind_from_tx_def tx_is_create_def charge_call_def
  meter_spend_def meter_gas_used_def meter_refund_gas_def gas_meter_new_def compute_intrinsic_gas_def
  compute_intrinsic_gas_len_def tx_data_len_def execution_context_new_def account_or_default_def
  account_new_def get_account_set_account get_code_set_code
  checked_sub_w_def checked_add_w_def checked_mul_w_def saturating_add_w_def saturating_mul_w_def
  saturating_sub_w_def u256_from_u64_def u256_one_limb Let_def

lemma exec_run_contract:
  "\<exists>out ctx' s'. exec_run (Some [3]) = (Inr out, ctx', s') \<and> eo_gas_used out = 105"
  by (simp add: exec_run_def exec_config_def exec_tx_def exec_state_def exec_simps vm_run_simps uval_def)

lemma exec_run_trap:
  "\<exists>ctx' s'. exec_run (Some [4]) = (Inl (VmFailed ''trap: unreachable''), ctx', s')"
  by (simp add: exec_run_def exec_config_def exec_tx_def exec_state_def exec_simps vm_run_simps uval_def)

section \<open>Properties\<close>

text \<open>
  C3: the accounting of an executed transaction. The sender pays the value and the gas that
  was used at the gas price, the recipient (or the created contract) receives the value, no
  other balance moves and the total falls by exactly the fee; the sender's nonce and no
  other grows by one, without wrapping, and the state invariant is kept.
\<close>

theorem execute_transaction_accounts:
  assumes "execute_transaction E cfg tx ctx s = (Inr out, ctx', s')"
  shows "(\<forall>b. balance_of s' b + (if b = tx_from tx then uval (tx_value tx) + unat (eo_gas_used out) * uval (tx_gas_price tx) else 0)
           = balance_of s b + (if b = tx_target E tx then uval (tx_value tx) else 0)) \<and>
    total_balance s' + unat (eo_gas_used out) * uval (tx_gas_price tx) = total_balance s \<and>
    (\<forall>b. unat (nonce_of s' b) = (if b = tx_from tx then unat (tx_nonce tx) + 1 else unat (nonce_of s b))) \<and>
    nonce_of s (tx_from tx) = tx_nonce tx \<and>
    (state_inv E s \<longrightarrow> state_inv E s')"
  using assms
proof (cases rule: execute_transaction_stages)
  case (executed m acc s2 call s3 m')
  note pb = paid_balances [OF executed(1-3)]
  have g: "unat (tx_gas tx) * uval (tx_gas_price tx)
      = unat (meter_gas_used m') * uval (tx_gas_price tx) + unat (meter_refund_gas m') * uval (tx_gas_price tx)"
    by (simp add: metered(1) [OF executed(1,4), symmetric] add_mult_distrib)
  note n = purchase_nonce(2) [OF executed(1)]
  show ?thesis
  proof (intro conjI allI)
    fix b
    show "balance_of s' b + (if b = tx_from tx then uval (tx_value tx) + unat (eo_gas_used out) * uval (tx_gas_price tx) else 0)
           = balance_of s b + (if b = tx_target E tx then uval (tx_value tx) else 0)"
      using pb(1) [of b] g executed(7) by (simp add: refund_sender_Inr(1) [OF executed(5)] split: if_splits)
    show "unat (nonce_of s' b) = (if b = tx_from tx then unat (tx_nonce tx) + 1 else unat (nonce_of s b))"
      by (simp add: refund_sender_Inr(2) [OF executed(5)] pb(2) n)
    show "total_balance s' + unat (eo_gas_used out) * uval (tx_gas_price tx) = total_balance s"
      using pb(3) g executed(7) by (simp add: refund_sender_Inr(3) [OF executed(5)])
    show "nonce_of s (tx_from tx) = tx_nonce tx" using executed(1) by (simp add: purchase_def)
    show "state_inv E s \<longrightarrow> state_inv E s'" using refund_sender_Inr(4) [OF executed(5)] pb(4) by blast
  qed
qed simp_all

theorem execute_transaction_accounts_witness:
  "\<exists>out ctx' s'. exec_run (Some [3]) = (Inr out, ctx', s') \<and> balance_of s' [3] = 5 \<and>
     balance_of s' [1] + 215 = 1000 \<and> total_balance s' + 210 = total_balance exec_state"
proof -
  obtain out ctx' s' where run: "exec_run (Some [3]) = (Inr out, ctx', s')" and used: "eo_gas_used out = 105"
    using exec_run_contract by blast
  note acc = execute_transaction_accounts [OF run [unfolded exec_run_def]]
  have bal: "balance_of exec_state [1] = 1000" "balance_of exec_state [3] = 0"
    by (simp_all add: exec_state_def ledger.bal_put account_new_def uval_def)
  have "tx_target ref_vm (exec_tx (Some [3])) = [3]" by (simp add: tx_target_def exec_tx_def)
  then show ?thesis
    using acc [THEN conjunct1, rule_format, of "[1]"] acc [THEN conjunct1, rule_format, of "[3]"] acc bal run used
    by (auto simp: exec_tx_def uval_def)
qed

text \<open>
  C18: gas bounds. An executed transaction uses its intrinsic gas plus what the call
  reports, never more than its limit; the rest is what is refunded; the block's running
  total grows by the gas used and stays within the block cap; the receipt records it.
\<close>

theorem execute_transaction_gas:
  assumes "execute_transaction E cfg tx ctx s = (Inr out, ctx', s')"
  shows "unat (eo_gas_used out) + unat (eo_gas_refunded out) = unat (tx_gas tx) \<and>
    unat (eo_gas_used out) = unat (compute_intrinsic_gas tx cfg) + unat (cr_gas_used (eo_call out)) \<and>
    ec_gas_used ctx' = saturating_add_w (ec_gas_used ctx) (eo_gas_used out) \<and>
    ec_gas_used ctx' \<le> gc_max_gas_per_block cfg \<and>
    eo_receipt out = execution_receipt E tx ctx (eo_gas_used out) (eo_call out)"
  using assms
proof (cases rule: execute_transaction_stages)
  case (executed m acc s2 call s3 m')
  have "ec_gas_used ctx' \<le> gc_max_gas_per_block cfg" by (rule execute_transaction_cap [OF assms])
  then show ?thesis using metered [OF executed(1,4)] executed(6,7) by (simp add: execution_receipt_def)
qed simp_all

theorem execute_transaction_gas_witness:
  "\<exists>out ctx' s'. exec_run (Some [3]) = (Inr out, ctx', s') \<and> unat (eo_gas_refunded out) = 95 \<and>
     ec_gas_used ctx' = 105"
proof -
  obtain out ctx' s' where run: "exec_run (Some [3]) = (Inr out, ctx', s')" and used: "eo_gas_used out = 105"
    using exec_run_contract by blast
  show ?thesis using execute_transaction_gas [OF run [unfolded exec_run_def]] run used
    by (simp add: exec_tx_def execution_context_new_def saturating_add_w_def checked_add_w_def)
qed

text \<open>
  C16: what a failing transaction leaves behind. The context never changes. A contract failure
  keeps what came before it: the nonce has advanced, the whole gas limit has been paid for and the
  value has been transferred, although an error is returned. An overflow on crediting the target
  keeps the debit of value and gas and the advanced nonce; it needs a target whose balance and the
  value together exceed 256 bits. Every other error leaves the state as it was, and so does every
  error but a contract failure when all balances together fit in 256 bits.
\<close>

theorem execute_transaction_errors:
  assumes "execute_transaction E cfg tx ctx s = (Inl e, ctx', s')"
  shows "ctx' = ctx \<and>
    (case e of
       VmFailed msg \<Rightarrow>
         nonce_of s' (tx_from tx) = tx_nonce tx + 1 \<and>
         total_balance s' + unat (tx_gas tx) * uval (tx_gas_price tx) = total_balance s \<and>
         (\<forall>b. balance_of s' b + (if b = tx_from tx then uval (tx_value tx) + unat (tx_gas tx) * uval (tx_gas_price tx) else 0)
            = balance_of s b + (if b = tx_target E tx then uval (tx_value tx) else 0))
     | Overflow \<Rightarrow>
         s' = s \<or>
         (\<exists>acc. s' = set_account E (tx_from tx) acc s \<and> acc_nonce acc = tx_nonce tx + 1 \<and>
            uval (acc_balance acc) + uval (tx_value tx) + unat (tx_gas tx) * uval (tx_gas_price tx) = balance_of s (tx_from tx) \<and>
            2 ^ 256 \<le> balance_of s' (tx_target E tx) + uval (tx_value tx))
     | _ \<Rightarrow> s' = s) \<and>
    (total_balance s < 2 ^ 256 \<longrightarrow> (\<forall>msg. e \<noteq> VmFailed msg) \<longrightarrow> s' = s)"
proof -
  have small: "s' = s" if "total_balance s < 2 ^ 256" "\<forall>msg. e \<noteq> VmFailed msg"
    using that(1) assms by (cases rule: failed_transaction) (use that(2) in simp_all)
  from assms show ?thesis
  proof (cases rule: failed_stages)
    case clean
    then show ?thesis by (simp split: execution_error.split)
  next
    case (credit m acc)
    then show ?thesis using small purchase_nonce(1) [OF credit(3)]
      by (auto simp: purchase_def)
  next
    case (contract msg m acc s2)
    then show ?thesis using paid_balances(1-3) [OF contract(3-5)] by simp
  qed
qed

text \<open>The same state with a target whose balance is the largest there is.\<close>

definition rich_state :: state_db where
  "rich_state = set_account ref_vm [4] (account_new \<lparr> acc_balance := U256_MAX \<rparr>) exec_state"

lemma rich_run:
  "\<exists>ctx' s'. execute_transaction ref_vm exec_config (exec_tx (Some [4])) (execution_context_new 1 1) rich_state
     = (Inl Overflow, ctx', s') \<and> nonce_of s' [1] = 1"
proof -
  have "u256_checked_add U256_MAX (U256 5 0 0 0) = None" by code_simp
  then show ?thesis
    by (simp add: rich_state_def exec_config_def exec_tx_def exec_state_def exec_simps uval_def nonce_of_def)
qed

theorem execute_transaction_errors_witness:
  "\<exists>ctx' s' ctx'' s''. exec_run (Some [4]) = (Inl (VmFailed ''trap: unreachable''), ctx', s') \<and>
     nonce_of s' [1] = 1 \<and> balance_of s' [4] = 5 \<and> balance_of s' [1] + 405 = 1000 \<and>
     execute_transaction ref_vm exec_config (exec_tx (Some [4])) (execution_context_new 1 1) rich_state
       = (Inl Overflow, ctx'', s'') \<and> balance_of s'' [1] + 405 = 1000"
proof -
  obtain ctx' s' where run: "exec_run (Some [4]) = (Inl (VmFailed ''trap: unreachable''), ctx', s')"
    using exec_run_trap by blast
  note err = execute_transaction_errors [OF run [unfolded exec_run_def]]
  have bal: "balance_of exec_state [1] = 1000" "balance_of exec_state [4] = 0" "balance_of rich_state [1] = 1000"
    "nonce_of rich_state [1] = 0"
    by (simp_all add: rich_state_def exec_state_def ledger.bal_put ledger.nonce_put account_new_def uval_def)
  have tgt: "tx_target ref_vm (exec_tx (Some [4])) = [4]" by (simp add: tx_target_def exec_tx_def)
  have all: "balance_of s' b + (if b = [1] then 405 else 0) = balance_of exec_state b + (if b = [4] then 5 else 0)" for b
    using err tgt by (simp add: exec_tx_def uval_def cong: if_cong)
  obtain ctx'' s'' where over: "execute_transaction ref_vm exec_config (exec_tx (Some [4])) (execution_context_new 1 1) rich_state
      = (Inl Overflow, ctx'', s'')" "nonce_of s'' [1] = 1" using rich_run by blast
  have "balance_of s'' [1] + 405 = 1000"
    using execute_transaction_errors [OF over(1)] over(2) bal(3,4)
    by (auto simp: exec_tx_def uval_def ledger.bal_put)
  then show ?thesis using run err all [of "[1]"] all [of "[4]"] bal over(1) by (auto simp: exec_tx_def)
qed

text \<open>
  C19: a simulation predicts execution. Whenever a transaction with some gas executes, the
  simulation of the same call on the same state, which ignores the nonce and the price of
  gas, succeeds with the same call result (output, logs, status) and the same gas, so that
  the estimate it serves is exact.
\<close>

theorem simulate_predicts_execution:
  assumes "execute_transaction E cfg tx ctx s = (Inr out, ctx', s')" "tx_gas tx \<noteq> 0"
  shows "\<exists>so s''. simulate E cfg \<lparr> sr_from = tx_from tx, sr_to = tx_to tx, sr_value = tx_value tx,
      sr_data = tx_data tx, sr_gas = tx_gas tx \<rparr> s = (Inr so, s'') \<and>
    so_call so = eo_call out \<and> so_gas_used so = eo_gas_used out \<and>
    so_intrinsic so = compute_intrinsic_gas tx cfg"
  using assms(1)
proof (cases rule: execute_transaction_stages)
  case (executed m acc s2 call s3 m')
  let ?req = "\<lparr> sr_from = tx_from tx, sr_to = tx_to tx, sr_value = tx_value tx,
      sr_data = tx_data tx, sr_gas = tx_gas tx \<rparr>"
  note pu = executed(1) [unfolded purchase_def]
  let ?t = "tx_target E tx"
  obtain s1 where s1: "simulate_debit E ?req s = Inr s1" "st_storage s1 = st_storage s" "get_code s1 = get_code s"
    "\<And>b. balance_of s1 b + (if b = tx_from tx then uval (tx_value tx) else 0) = balance_of s b"
    using simulate_debit_Inr [of ?req s E] pu by (auto cong: if_cong)
  have tgt: "simulate_target E ?req (nonce_of s (tx_from tx)) = ?t"
    using pu by (simp add: simulate_target_def tx_target_def split: option.split)
  have "balance_of s1 ?t + uval (tx_value tx) < 2 ^ 256"
  proof (cases "?t = tx_from tx")
    case True
    then show ?thesis using s1(4) [of ?t] balance_lt [of s ?t] by simp
  next
    case False
    then show ?thesis using s1(4) [of ?t] balance_lt [of s2 ?t] apply_value_Inr(1) [OF executed(2), of ?t]
      by (simp add: ledger.bal_put)
  qed
  then obtain t2 where t2: "simulate_credit E ?req (nonce_of s (tx_from tx)) s1 = Inr t2"
    "st_storage t2 = st_storage s1" "tx_to tx \<noteq> None \<Longrightarrow> get_code t2 = get_code s1"
    using simulate_credit_Inr [of s1 E ?req "nonce_of s (tx_from tx)"] tgt by auto
  have input: "simulate_input ?req = call_input_from_tx tx"
    by (simp add: simulate_input_def call_input_from_tx_def call_kind_from_tx_def tx_is_create_def)
  have "fst (execute_call E (call_input_from_tx tx) t2 g) = fst (execute_call E (call_input_from_tx tx) s2 g)" for g
  proof (cases "tx_to tx")
    case None
    then show ?thesis by (simp add: execute_call_def call_input_from_tx_def call_kind_from_tx_def tx_is_create_def)
  next
    case (Some a)
    then have "st_storage s2 = st_storage s" "get_code s2 = get_code s"
      using executed(2) by (auto simp: apply_value_def Let_def split: option.splits)
    then show ?thesis using t2 s1 Some by (intro execute_call_view) auto
  qed
  then obtain t3 where t3: "execute_call E (call_input_from_tx tx) t2 (gm_remaining m) = (Inr call, t3)"
    using executed(3) by (metis fst_conv prod.collapse)
  have "gas_meter_new (tx_gas tx) (compute_intrinsic_gas tx cfg) = Inr m"
    using pu by (simp add: gas_meter_new_Inr)
  then show ?thesis
    using assms(2) s1(1) t2(1) t3 executed(4,7) input
    by (simp add: simulate_def compute_intrinsic_gas_def tx_data_len_def)
qed simp_all

theorem simulate_predicts_execution_witness:
  "\<exists>so s''. simulate ref_vm exec_config \<lparr> sr_from = [1], sr_to = Some [3], sr_value = U256 5 0 0 0,
      sr_data = [7, 7, 7], sr_gas = 200 \<rparr> exec_state = (Inr so, s'') \<and> so_gas_used so = 105"
proof -
  obtain out ctx' s' where run: "exec_run (Some [3]) = (Inr out, ctx', s')" and used: "eo_gas_used out = 105"
    using exec_run_contract by blast
  have "tx_gas (exec_tx (Some [3])) \<noteq> 0" by (simp add: exec_tx_def)
  from simulate_predicts_execution [OF run [unfolded exec_run_def] this] used
  show ?thesis by (auto simp: exec_tx_def)
qed

end
