(* ===== verification/TxPool.thy ===== *)
theory TxPool
  imports Core
begin

text \<open>
  The mempool of \<open>crates/ivory-txpool/src\<close>. The three concurrent maps of
  \<open>TransactionPool\<close> are finite maps in an arbitrary iteration order, each operation is one
  step, and counts of entries are natural numbers.
\<close>

section \<open>The pool\<close>

record pool_config =
  pc_max_pending :: nat
  pc_max_per_sender :: nat
  pc_min_gas :: u64

definition pool_config_default :: pool_config where
  "pool_config_default = \<lparr> pc_max_pending = 4096, pc_max_per_sender = 64, pc_min_gas = 21000 \<rparr>"

definition pool_config_tiny :: pool_config where
  "pool_config_tiny = \<lparr> pc_max_pending = 2, pc_max_per_sender = 1, pc_min_gas = 21000 \<rparr>"

datatype txpool_error =
    NonceTooLow u64 u64
  | NonceGap u64 u64
  | AlreadyKnown
  | GasLimitTooLow u64 u64
  | PoolFull
  | SenderLimitReached
  | PoolInvalidSignature

datatype tx_origin = Local | Remote

record pending_tx =
  pt_hash :: h256
  pt_tx :: transaction
  pt_origin :: tx_origin
  pt_added_at_ms :: u64

record pool_stats =
  ps_pending :: nat
  ps_senders :: nat

record transaction_pool =
  tp_config :: pool_config
  tp_pending :: "(h256, pending_tx) hmap"
  tp_next_nonce :: "(address, u64) hmap"
  tp_per_sender :: "(address, nat) hmap"

definition pool_with_config :: "pool_config \<Rightarrow> transaction_pool" where
  "pool_with_config config =
     \<lparr> tp_config = config, tp_pending = [], tp_next_nonce = [], tp_per_sender = [] \<rparr>"

definition pool_new :: transaction_pool where
  "pool_new = pool_with_config pool_config_default"

definition expected_nonce :: "transaction_pool \<Rightarrow> address \<Rightarrow> u64" where
  "expected_nonce p addr = (case hm_get (tp_next_nonce p) addr of Some n \<Rightarrow> n | None \<Rightarrow> 0)"

definition pending_count :: "transaction_pool \<Rightarrow> nat" where
  "pending_count p = length (tp_pending p)"

definition pool_stats_of :: "transaction_pool \<Rightarrow> pool_stats" where
  "pool_stats_of p = \<lparr> ps_pending = length (tp_pending p), ps_senders = length (tp_next_nonce p) \<rparr>"

definition pool_get :: "transaction_pool \<Rightarrow> h256 \<Rightarrow> transaction option" where
  "pool_get p hash = map_option pt_tx (hm_get (tp_pending p) hash)"

definition pool_contains :: "transaction_pool \<Rightarrow> h256 \<Rightarrow> bool" where
  "pool_contains p hash \<longleftrightarrow> hm_get (tp_pending p) hash \<noteq> None"

definition sender_count :: "transaction_pool \<Rightarrow> address \<Rightarrow> nat" where
  "sender_count p addr = (case hm_get (tp_per_sender p) addr of Some c \<Rightarrow> c | None \<Rightarrow> 0)"

definition add_transaction_at ::
  "'z core_env_scheme \<Rightarrow> transaction \<Rightarrow> tx_origin \<Rightarrow> u64 \<Rightarrow> transaction_pool \<Rightarrow>
   (txpool_error + h256) \<times> transaction_pool" where
  "add_transaction_at E tx origin added_at_ms p =
     (if tx_gas tx < pc_min_gas (tp_config p)
        then (Inl (GasLimitTooLow (pc_min_gas (tp_config p)) (tx_gas tx)), p)
      else case recover_sender E tx of
        Inl _ \<Rightarrow> (Inl PoolInvalidSignature, p)
      | Inr _ \<Rightarrow>
     (let hash = tx_hash E tx
      in if pool_contains p hash then (Inl AlreadyKnown, p)
         else if pc_max_pending (tp_config p) \<le> length (tp_pending p) then (Inl PoolFull, p)
         else
     (let sender = tx_from tx;
          count = sender_count p sender
      in if pc_max_per_sender (tp_config p) \<le> count then (Inl SenderLimitReached, p)
         else
     (let expected = expected_nonce p sender
      in if tx_nonce tx < expected then (Inl (NonceTooLow expected (tx_nonce tx)), p)
         else if expected < tx_nonce tx then (Inl (NonceGap expected (tx_nonce tx)), p)
         else (Inr hash,
               p \<lparr> tp_pending := hm_insert hash
                     \<lparr> pt_hash = hash, pt_tx = tx, pt_origin = origin, pt_added_at_ms = added_at_ms \<rparr>
                     (tp_pending p),
                   tp_next_nonce := hm_insert sender (saturating_add_w expected 1) (tp_next_nonce p),
                   tp_per_sender := hm_insert sender (count + 1) (tp_per_sender p) \<rparr>)))))"

definition add_transaction ::
  "'z core_env_scheme \<Rightarrow> transaction \<Rightarrow> tx_origin \<Rightarrow> transaction_pool \<Rightarrow>
   (txpool_error + h256) \<times> transaction_pool" where
  "add_transaction E tx origin p = add_transaction_at E tx origin 0 p"

definition get_pending_entries :: "nat \<Rightarrow> transaction_pool \<Rightarrow> pending_tx list" where
  "get_pending_entries n p = map snd (take n (tp_pending p))"

definition get_pending :: "nat \<Rightarrow> transaction_pool \<Rightarrow> transaction list" where
  "get_pending n p = map pt_tx (get_pending_entries n p)"

definition pool_remove :: "h256 \<Rightarrow> transaction_pool \<Rightarrow> pending_tx option \<times> transaction_pool" where
  "pool_remove hash p =
     (case hm_get (tp_pending p) hash of
        None \<Rightarrow> (None, p)
      | Some entry \<Rightarrow>
          (let sender = tx_from (pt_tx entry);
               p1 = p \<lparr> tp_pending := hm_remove hash (tp_pending p) \<rparr>
           in (Some entry,
               case hm_get (tp_per_sender p1) sender of
                 None \<Rightarrow> p1
               | Some count \<Rightarrow>
                   p1 \<lparr> tp_per_sender :=
                          (if count - 1 = 0 then hm_remove sender (tp_per_sender p1)
                           else hm_insert sender (count - 1) (tp_per_sender p1)) \<rparr>)))"

definition clear_pending :: "transaction_pool \<Rightarrow> transaction_pool" where
  "clear_pending p = p \<lparr> tp_pending := [], tp_per_sender := [] \<rparr>"

definition pool_clear :: "transaction_pool \<Rightarrow> transaction_pool" where
  "pool_clear p = p \<lparr> tp_pending := [], tp_next_nonce := [], tp_per_sender := [] \<rparr>"

section \<open>Invariant\<close>

text \<open>
  Every pending entry is filed under its own hash, carries a valid signature of its sender
  and enough gas; the pool and every sender are within their limits; the sender counts are
  the numbers of pending entries; every pending nonce is below the sender's next nonce, and
  two pending transactions of one sender have different nonces (at the largest nonce, where
  the tracker saturates, neither holds).
\<close>

definition from_count :: "address \<Rightarrow> transaction_pool \<Rightarrow> nat" where
  "from_count a p = length (filter (\<lambda>(h, e). tx_from (pt_tx e) = a) (tp_pending p))"

definition entry_ok :: "'z core_env_scheme \<Rightarrow> transaction_pool \<Rightarrow> h256 \<Rightarrow> pending_tx \<Rightarrow> bool" where
  "entry_ok E p h e \<longleftrightarrow>
     pt_hash e = h \<and> tx_hash E (pt_tx e) = h \<and> recover_sender E (pt_tx e) = Inr (tx_from (pt_tx e)) \<and>
     pc_min_gas (tp_config p) \<le> tx_gas (pt_tx e) \<and>
     (tx_nonce (pt_tx e) < expected_nonce p (tx_from (pt_tx e)) \<or> tx_nonce (pt_tx e) = - 1)"

definition nonces_distinct :: "transaction_pool \<Rightarrow> bool" where
  "nonces_distinct p \<longleftrightarrow>
     (\<forall>h e h' e'. (h, e) \<in> set (tp_pending p) \<longrightarrow> (h', e') \<in> set (tp_pending p) \<longrightarrow>
        tx_from (pt_tx e) = tx_from (pt_tx e') \<longrightarrow> tx_nonce (pt_tx e) = tx_nonce (pt_tx e') \<longrightarrow>
        tx_nonce (pt_tx e) \<noteq> - 1 \<longrightarrow> h = h')"

definition pool_inv :: "'z core_env_scheme \<Rightarrow> transaction_pool \<Rightarrow> bool" where
  "pool_inv E p \<longleftrightarrow>
     hm_wf (tp_pending p) \<and> hm_wf (tp_next_nonce p) \<and> hm_wf (tp_per_sender p) \<and>
     (\<forall>h e. (h, e) \<in> set (tp_pending p) \<longrightarrow> entry_ok E p h e) \<and>
     nonces_distinct p \<and>
     (\<forall>a. sender_count p a = from_count a p) \<and>
     (\<forall>a. sender_count p a \<le> pc_max_per_sender (tp_config p)) \<and>
     length (tp_pending p) \<le> pc_max_pending (tp_config p)"

lemma pool_inv_empty:
  "pool_inv E (p \<lparr> tp_pending := [], tp_next_nonce := [], tp_per_sender := [] \<rparr>)"
  by (simp add: pool_inv_def nonces_distinct_def sender_count_def from_count_def hm_simps)

lemma pool_inv_new: "pool_inv E (pool_with_config cfg)"
  by (simp add: pool_inv_def nonces_distinct_def sender_count_def from_count_def pool_with_config_def hm_simps)

lemma add_transaction_cases:
  assumes "add_transaction_at E tx origin t p = (r, p')"
  obtains
    (reject) e where "r = Inl e" "p' = p"
  | (admit) "r = Inr (tx_hash E tx)" "pc_min_gas (tp_config p) \<le> tx_gas tx"
      "recover_sender E tx = Inr (tx_from tx)" "\<not> pool_contains p (tx_hash E tx)"
      "length (tp_pending p) < pc_max_pending (tp_config p)"
      "sender_count p (tx_from tx) < pc_max_per_sender (tp_config p)"
      "tx_nonce tx = expected_nonce p (tx_from tx)"
      "tp_config p' = tp_config p"
      "tp_pending p' = tp_pending p @ [(tx_hash E tx,
         \<lparr> pt_hash = tx_hash E tx, pt_tx = tx, pt_origin = origin, pt_added_at_ms = t \<rparr>)]"
      "tp_next_nonce p' = hm_insert (tx_from tx) (saturating_add_w (tx_nonce tx) 1) (tp_next_nonce p)"
      "tp_per_sender p' = hm_insert (tx_from tx) (sender_count p (tx_from tx) + 1) (tp_per_sender p)"
proof (cases "\<exists>e. r = Inl e")
  case True
  then show thesis using assms reject
    by (auto simp: add_transaction_at_def Let_def split: if_splits sum.splits)
next
  case False
  then obtain a where rec: "recover_sender E tx = Inr a" and rest: "\<not> pool_contains p (tx_hash E tx)"
    "r = Inr (tx_hash E tx)" "pc_min_gas (tp_config p) \<le> tx_gas tx"
    "length (tp_pending p) < pc_max_pending (tp_config p)"
    "sender_count p (tx_from tx) < pc_max_per_sender (tp_config p)"
    "tx_nonce tx = expected_nonce p (tx_from tx)"
    using assms by (auto simp: add_transaction_at_def Let_def not_less not_le split: if_splits sum.splits)
  have from_eq: "a = tx_from tx" using rec by (simp add: recover_sender_Inr)
  have "hm_get (tp_pending p) (tx_hash E tx) = None" using rest(1) by (simp add: pool_contains_def)
  moreover have "p' = p \<lparr> tp_pending := hm_insert (tx_hash E tx)
           \<lparr> pt_hash = tx_hash E tx, pt_tx = tx, pt_origin = origin, pt_added_at_ms = t \<rparr> (tp_pending p),
         tp_next_nonce := hm_insert (tx_from tx) (saturating_add_w (tx_nonce tx) 1) (tp_next_nonce p),
         tp_per_sender := hm_insert (tx_from tx) (sender_count p (tx_from tx) + 1) (tp_per_sender p) \<rparr>"
    using assms rest by (simp add: add_transaction_at_def Let_def rec leD)
  ultimately show thesis using rest rec from_eq by (intro admit) (simp_all add: hm_insert_fresh)
qed

lemma saturating_succ: "saturating_add_w n 1 = (if n = - 1 then - 1 else n + (1 :: u64))"
proof (cases "n = - 1")
  case False
  then have "unat n < 2 ^ 64 - 1"
    using unat_lt [of n] unat_minus_one_word_max [where 'a = 64] by (auto simp: word_unat_eq_iff less_le)
  then show ?thesis using False by (simp add: saturating_add_w_def checked_add_w_def)
qed (simp add: saturating_add_w_def checked_add_w_def unat_minus_one_word_max)

lemma less_saturating_succ: "n < saturating_add_w n (1 :: u64) \<or> n = - 1"
  using unat_lt [of n] unat_minus_one_word_max [where 'a = 64]
  by (auto simp: word_less_nat_alt saturating_add_w_val word_unat_eq_iff)

lemma expected_nonce_insert:
  "tp_next_nonce p' = hm_insert a n (tp_next_nonce p) \<Longrightarrow>
   expected_nonce p' b = (if b = a then n else expected_nonce p b)"
  by (simp add: expected_nonce_def hm_simps)

lemma pool_inv_add:
  assumes inv: "pool_inv E p" and add: "add_transaction_at E tx origin t p = (r, p')"
  shows "pool_inv E p'"
  using add
proof (cases rule: add_transaction_cases)
  case admit
  note old = inv [unfolded pool_inv_def]
  let ?h = "tx_hash E tx"
  have nonce: "expected_nonce p' b = (if b = tx_from tx then saturating_add_w (tx_nonce tx) 1 else expected_nonce p b)" for b
    by (rule expected_nonce_insert [OF admit(10)])
  have count: "sender_count p' a = (if a = tx_from tx then sender_count p a + 1 else sender_count p a)" for a
    by (simp add: sender_count_def admit(11) hm_simps)
  have fresh: "?h \<notin> fst ` set (tp_pending p)"
    using admit(4) by (simp add: pool_contains_def hm_get_def map_of_eq_None_iff)
  have up: "tx_nonce (pt_tx e) < expected_nonce p' (tx_from (pt_tx e)) \<or> tx_nonce (pt_tx e) = - 1"
    if "(h, e) \<in> set (tp_pending p)" for h e
  proof -
    have "tx_nonce (pt_tx e) < expected_nonce p (tx_from (pt_tx e)) \<or> tx_nonce (pt_tx e) = - 1"
      using that old by (simp add: entry_ok_def)
    then show ?thesis using less_saturating_succ [of "tx_nonce tx"] admit(7) by (auto simp: nonce saturating_succ)
  qed
  have "entry_ok E p' h e" if "(h, e) \<in> set (tp_pending p')" for h e
  proof (cases "(h, e) \<in> set (tp_pending p)")
    case True
    then have "entry_ok E p h e" using old by blast
    then show ?thesis using up [OF True] by (simp add: entry_ok_def admit(8))
  next
    case False
    then show ?thesis using that admit(2,3) less_saturating_succ [of "tx_nonce tx"]
      by (auto simp: entry_ok_def admit(8,9) nonce)
  qed
  moreover have "nonces_distinct p'"
  proof -
    have new: "tx_nonce (pt_tx e) \<noteq> tx_nonce tx \<or> tx_nonce tx = - 1"
      if "(h, e) \<in> set (tp_pending p)" "tx_from (pt_tx e) = tx_from tx" for h e
    proof -
      have "entry_ok E p h e" using old that(1) by blast
      then show ?thesis using that(2) admit(7) by (auto simp: entry_ok_def)
    qed
    show ?thesis unfolding nonces_distinct_def
    proof (intro allI impI)
      fix h e h' e'
      assume m: "(h, e) \<in> set (tp_pending p')" "(h', e') \<in> set (tp_pending p')"
        and eq: "tx_from (pt_tx e) = tx_from (pt_tx e')" "tx_nonce (pt_tx e) = tx_nonce (pt_tx e')"
        "tx_nonce (pt_tx e) \<noteq> - 1"
      have "nonces_distinct p" using old by blast
      then show "h = h'" using m eq new [of h e] new [of h' e']
        unfolding nonces_distinct_def admit(9) by auto
    qed
  qed
  moreover have "sender_count p' a = from_count a p'" for a
    using old by (auto simp: count from_count_def admit(9))
  moreover have "hm_wf (tp_pending p')" using old fresh by (simp add: admit(9) hm_wf_def)
  moreover have "sender_count p' a \<le> pc_max_per_sender (tp_config p)" for a
  proof -
    have "sender_count p a \<le> pc_max_per_sender (tp_config p)" using old by blast
    then show ?thesis using admit(6) by (simp add: count)
  qed
  ultimately show ?thesis using old admit(5)
    by (simp add: pool_inv_def admit(8,10,11) hm_simps) (simp add: admit(9))
qed (use inv in simp)

lemma pool_inv_subset:
  assumes "pool_inv E p" "set (tp_pending p') \<subseteq> set (tp_pending p)" "hm_wf (tp_pending p')"
    "tp_config p' = tp_config p" "tp_next_nonce p' = tp_next_nonce p" "hm_wf (tp_per_sender p')"
    "length (tp_pending p') \<le> length (tp_pending p)"
    "\<And>a. sender_count p' a = from_count a p'" "\<And>a. sender_count p' a \<le> sender_count p a"
  shows "pool_inv E p'"
proof -
  note old = assms(1) [unfolded pool_inv_def]
  have "expected_nonce p' = expected_nonce p" using assms(5) by (simp add: expected_nonce_def fun_eq_iff)
  then have "entry_ok E p' h e" if "(h, e) \<in> set (tp_pending p')" for h e
    using that assms(2,4) old by (auto simp: entry_ok_def)
  moreover have "nonces_distinct p'"
    using old assms(2) by (fastforce simp: nonces_distinct_def)
  moreover have "sender_count p' a \<le> pc_max_per_sender (tp_config p)" for a
    using assms(9) [of a] old order.trans by blast
  moreover have "length (tp_pending p') \<le> pc_max_pending (tp_config p)"
    using assms(7) old by linarith
  ultimately show ?thesis using old assms(3-8) by (simp add: pool_inv_def)
qed

lemma from_count_remove:
  assumes "hm_wf (tp_pending p)" "hm_get (tp_pending p) h = Some e" "tp_pending p' = hm_remove h (tp_pending p)"
  shows "from_count a p = from_count a p' + (if a = tx_from (pt_tx e) then 1 else 0)"
proof -
  have "distinct (map fst m) \<Longrightarrow> map_of m h = Some e \<Longrightarrow>
    length (filter (\<lambda>(h, e). tx_from (pt_tx e) = a) m)
    = length (filter (\<lambda>(h, e). tx_from (pt_tx e) = a) (AList.delete h m)) + (if a = tx_from (pt_tx e) then 1 else 0)" for m
  proof (induction m)
    case (Cons kv m)
    obtain k v where kv: "kv = (k, v)" by fastforce
    show ?case
    proof (cases "k = h")
      case True
      then have "AList.delete h m = m" using Cons.prems(1) kv by (simp add: delete_id)
      then show ?thesis using Cons.prems kv True by simp
    qed (use Cons kv in auto)
  qed simp
  from this [of "tp_pending p"] assms show ?thesis
    by (simp add: from_count_def hm_wf_def hm_get_def hm_remove_def)
qed

lemma pool_inv_remove:
  assumes inv: "pool_inv E p" and "pool_remove h p = (r, p')"
  shows "pool_inv E p'"
proof (cases "hm_get (tp_pending p) h")
  case None
  then show ?thesis using assms by (simp add: pool_remove_def)
next
  case (Some e)
  note old = inv [unfolded pool_inv_def]
  let ?a = "tx_from (pt_tx e)"
  have pend: "tp_pending p' = hm_remove h (tp_pending p)" "tp_config p' = tp_config p"
    "tp_next_nonce p' = tp_next_nonce p"
    using assms(2) Some by (auto simp: pool_remove_def Let_def split: option.splits)
  have cnt: "from_count a p = from_count a p' + (if a = ?a then 1 else 0)" for a
    by (rule from_count_remove [OF _ Some pend(1)]) (use old in simp)
  have "sender_count p ?a \<noteq> 0" using cnt [of ?a] old by simp
  then obtain c where c: "hm_get (tp_per_sender p) ?a = Some c" by (auto simp: sender_count_def split: option.splits)
  then have per: "tp_per_sender p' = (if c - 1 = 0 then hm_remove ?a (tp_per_sender p)
      else hm_insert ?a (c - 1) (tp_per_sender p))"
    using assms(2) Some by (auto simp: pool_remove_def Let_def)
  have sc: "sender_count p' a = (if a = ?a then sender_count p a - 1 else sender_count p a)" for a
    using c old by (auto simp: sender_count_def per hm_simps)
  show ?thesis
  proof (rule pool_inv_subset [OF inv])
    show "set (tp_pending p') \<subseteq> set (tp_pending p)" by (auto simp: pend hm_remove_def AList.delete_eq)
    show "length (tp_pending p') \<le> length (tp_pending p)" by (simp add: pend hm_remove_def length_delete_le)
    show "sender_count p' a = from_count a p'" for a using sc cnt [of a] old by auto
    show "hm_wf (tp_per_sender p')" using old by (simp add: per hm_simps)
  qed (use pend old in \<open>auto simp: hm_simps sc\<close>)
qed

section \<open>Reachable pools\<close>

text \<open>The operations that a running node applies, and those that also forget the nonces.\<close>

inductive pool_op :: "'z core_env_scheme \<Rightarrow> transaction_pool \<Rightarrow> transaction_pool \<Rightarrow> bool" for E where
  op_add: "add_transaction_at E tx origin t p = (r, p') \<Longrightarrow> pool_op E p p'"
| op_remove: "pool_remove h p = (r, p') \<Longrightarrow> pool_op E p p'"
| op_clear_pending: "pool_op E p (clear_pending p)"

inductive pool_step :: "'z core_env_scheme \<Rightarrow> transaction_pool \<Rightarrow> transaction_pool \<Rightarrow> bool" for E where
  step_op: "pool_op E p p' \<Longrightarrow> pool_step E p p'"
| step_clear: "pool_step E p (pool_clear p)"

lemma pool_op_inv: "pool_op E p p' \<Longrightarrow> pool_inv E p \<Longrightarrow> pool_inv E p'"
proof (induction rule: pool_op.induct)
  case (op_clear_pending p)
  then show ?case
    by (simp add: pool_inv_def clear_pending_def nonces_distinct_def sender_count_def from_count_def hm_simps)
qed (auto intro: pool_inv_add pool_inv_remove)

lemma pool_step_inv: "pool_step E p p' \<Longrightarrow> pool_inv E p \<Longrightarrow> pool_inv E p'"
  by (induction rule: pool_step.induct) (auto simp: pool_clear_def pool_inv_empty intro: pool_op_inv)

lemma pool_reach_inv: "(pool_step E)\<^sup>*\<^sup>* p p' \<Longrightarrow> pool_inv E p \<Longrightarrow> pool_inv E p'"
  by (induction rule: rtranclp_induct) (auto intro: pool_step_inv)

text \<open>No operation lets an address's next nonce fall.\<close>

lemma le_saturating_succ: "n \<le> saturating_add_w n (1 :: u64)"
  by (simp add: word_le_nat_alt saturating_add_w_val) (use unat_lt [of n] in simp)

lemma pool_op_nonce: "pool_op E p p' \<Longrightarrow> expected_nonce p a \<le> expected_nonce p' a"
proof (induction rule: pool_op.induct)
  case (op_add tx origin t p r p')
  then show ?case
  proof (cases rule: add_transaction_cases)
    case admit
    then show ?thesis
      using expected_nonce_insert [OF admit(10)] le_saturating_succ [of "tx_nonce tx"] by simp
  qed simp
next
  case (op_remove h p r p')
  then have "tp_next_nonce p' = tp_next_nonce p"
    by (auto simp: pool_remove_def Let_def split: option.splits)
  then show ?case by (simp add: expected_nonce_def)
qed (simp add: clear_pending_def expected_nonce_def)

lemma pool_ops_nonce: "(pool_op E)\<^sup>*\<^sup>* p p' \<Longrightarrow> expected_nonce p a \<le> expected_nonce p' a"
  by (induction rule: rtranclp_induct) (auto intro: order.trans pool_op_nonce)

lemma add_below_nonce:
  assumes "tx_nonce tx < expected_nonce p (tx_from tx)"
  shows "\<exists>e. add_transaction_at E tx origin t p = (Inl e, p)"
proof -
  obtain r p' where add: "add_transaction_at E tx origin t p = (r, p')" by fastforce
  then show ?thesis
  proof (cases rule: add_transaction_cases)
    case admit
    then show ?thesis using assms by simp
  qed (use add in simp)
qed

section \<open>Properties\<close>

definition sample_pool_tx :: transaction where
  "sample_pool_tx = signed_transfer ref_core (replicate 32 1) [2] 0 U256_ONE 21000"

definition sample_pool :: transaction_pool where
  "sample_pool = snd (add_transaction ref_core sample_pool_tx Local pool_new)"

lemma sample_pool_fields:
  "recover_sender ref_core sample_pool_tx = Inr (tx_from sample_pool_tx)"
  "tx_gas sample_pool_tx = 21000" "tx_nonce sample_pool_tx = 0"
  by (simp_all add: sample_pool_tx_def signed_transfer_def signed_tx_def sign_transaction_recovers
      ref_core_ed25519_laws)

lemma sample_pool_add:
  "add_transaction ref_core sample_pool_tx Local pool_new = (Inr (tx_hash ref_core sample_pool_tx), sample_pool)"
  by (simp add: sample_pool_def add_transaction_def add_transaction_at_def sample_pool_fields Let_def
      pool_new_def pool_with_config_def pool_config_default_def pool_contains_def sender_count_def
      expected_nonce_def hm_simps)

text \<open>
  C10: the pool invariant. From an empty pool, every sequence of admissions, removals and
  resets keeps: each entry filed under its hash with a valid sender signature and enough
  gas, the pool and sender limits, exact sender counts, and for each sender distinct pending
  nonces below the next accepted one (up to the largest nonce).
\<close>

theorem pool_invariant:
  assumes "(pool_step E)\<^sup>*\<^sup>* (pool_with_config cfg) p"
  shows "pool_inv E p"
  using pool_reach_inv [OF assms pool_inv_new] .

theorem pool_invariant_witness: "pool_inv ref_core sample_pool"
proof -
  have "pool_step ref_core (pool_with_config pool_config_default) sample_pool"
    using sample_pool_add by (intro step_op op_add) (simp add: add_transaction_def pool_new_def)
  then show ?thesis by (rule pool_invariant [OF r_into_rtranclp])
qed

text \<open>
  C32: admission is exact. A transaction is admitted precisely when it has the minimum gas,
  a valid signature of its sender, an unknown hash, room in the pool and for its sender, and
  the sender's next nonce; it is then pending under its hash and the next nonce has advanced.
  Every refusal leaves the pool unchanged.
\<close>

theorem pool_admission_exact:
  "case add_transaction_at E tx origin t p of
     (Inr h, p') \<Rightarrow>
       h = tx_hash E tx \<and> pc_min_gas (tp_config p) \<le> tx_gas tx \<and>
       recover_sender E tx = Inr (tx_from tx) \<and> \<not> pool_contains p h \<and>
       length (tp_pending p) < pc_max_pending (tp_config p) \<and>
       sender_count p (tx_from tx) < pc_max_per_sender (tp_config p) \<and>
       tx_nonce tx = expected_nonce p (tx_from tx) \<and>
       pool_get p' h = Some tx \<and> pending_count p' = pending_count p + 1 \<and>
       expected_nonce p' (tx_from tx) = (if tx_nonce tx = - 1 then - 1 else tx_nonce tx + 1)
   | (Inl e, p') \<Rightarrow>
       p' = p \<and>
       \<not> (pc_min_gas (tp_config p) \<le> tx_gas tx \<and> recover_sender E tx = Inr (tx_from tx) \<and>
          \<not> pool_contains p (tx_hash E tx) \<and>
          length (tp_pending p) < pc_max_pending (tp_config p) \<and>
          sender_count p (tx_from tx) < pc_max_per_sender (tp_config p) \<and>
          tx_nonce tx = expected_nonce p (tx_from tx))"
proof -
  obtain r p' where add: "add_transaction_at E tx origin t p = (r, p')" by fastforce
  then show ?thesis
  proof (cases rule: add_transaction_cases)
    case (reject e)
    then show ?thesis using add
      by (auto simp: add_transaction_at_def Let_def split: if_splits)
  next
    case admit
    have "pool_get p' (tx_hash E tx) = Some tx"
      using admit(4) by (simp add: pool_get_def hm_get_def admit(9) pool_contains_def map_add_def split: option.split)
    then show ?thesis
      using admit add expected_nonce_insert [OF admit(10), of "tx_from tx"]
      by (simp add: pending_count_def saturating_succ)
  qed
qed

text \<open>
  C33: an admitted transaction is never admitted again. After any later admissions and
  removals, the pool refuses it, also when it has left the pool: removal does not give the
  nonce back. (Not at the largest nonce, where the tracker saturates.)
\<close>

theorem admitted_never_readmitted:
  assumes "add_transaction_at E tx origin t p = (Inr h, p1)" "tx_nonce tx \<noteq> - 1" "(pool_op E)\<^sup>*\<^sup>* p1 p2"
  shows "\<exists>e. add_transaction_at E tx origin' t' p2 = (Inl e, p2)"
  using assms(1)
proof (cases rule: add_transaction_cases)
  case admit
  have "tx_nonce tx < expected_nonce p1 (tx_from tx)"
    using expected_nonce_insert [OF admit(10), of "tx_from tx"] assms(2) less_saturating_succ [of "tx_nonce tx"]
    by simp
  also have "\<dots> \<le> expected_nonce p2 (tx_from tx)" by (rule pool_ops_nonce [OF assms(3)])
  finally show ?thesis by (rule add_below_nonce)
qed simp

theorem admitted_never_readmitted_witness:
  "\<exists>e. add_transaction ref_core sample_pool_tx Local (snd (pool_remove (tx_hash ref_core sample_pool_tx) sample_pool))
     = (Inl e, snd (pool_remove (tx_hash ref_core sample_pool_tx) sample_pool))"
proof -
  have "pool_op ref_core sample_pool (snd (pool_remove (tx_hash ref_core sample_pool_tx) sample_pool))"
    by (rule op_remove) (rule prod.collapse [symmetric])
  moreover have "tx_nonce sample_pool_tx \<noteq> - 1" by (simp add: sample_pool_fields)
  ultimately show ?thesis
    unfolding add_transaction_def
    by (intro admitted_never_readmitted [OF sample_pool_add [unfolded add_transaction_def] _ r_into_rtranclp])
qed

end
