(* ===== verification/Consensus.thy ===== *)
theory Consensus
  imports Core
begin

text \<open>
  Proof of authority, \<open>crates/ivory-consensus/src\<close>: seals in the header's extra data, the
  validator set, and header validation and sealing. The trait \<open>ConsensusEngine\<close> is the
  locale \<open>consensus_engine\<close>, interpreted on the PoA definitions.
\<close>

section \<open>Seals\<close>

datatype consensus_error =
    NotValidator
  | InsufficientSeals nat nat
  | ConsensusInvalidTimestamp
  | InvalidSeal
  | EmptyValidatorSet

definition SEAL_LEN :: nat where
  "SEAL_LEN = 64"

definition seal_hash :: "'z core_env_scheme \<Rightarrow> block_header \<Rightarrow> h256" where
  "seal_hash E header = header_hash E (header \<lparr> hd_extra_data := [] \<rparr>)"

definition encode_signatures :: "signature list \<Rightarrow> consensus_error + bytes" where
  "encode_signatures seals = (if seals = [] then Inl InvalidSeal else Inr (concat seals))"

definition encode_seals :: "nat \<Rightarrow> consensus_error + bytes" where
  "encode_seals count =
     (if count = 0 then Inl InvalidSeal else encode_signatures (replicate count signature_zero))"

text \<open>\<open>as_chunks::<SEAL_LEN>().0\<close>: the full chunks.\<close>

fun seal_chunks :: "bytes \<Rightarrow> signature list" where
  "seal_chunks bs =
     (if length bs < SEAL_LEN \<or> SEAL_LEN = 0 then []
      else take SEAL_LEN bs # seal_chunks (drop SEAL_LEN bs))"

declare seal_chunks.simps [simp del]

definition decode_seals :: "bytes \<Rightarrow> consensus_error + signature list" where
  "decode_seals extra_data =
     (if extra_data = [] \<or> length extra_data mod SEAL_LEN \<noteq> 0 then Inl InvalidSeal
      else Inr (seal_chunks extra_data))"

definition seal_count :: "bytes \<Rightarrow> consensus_error + nat" where
  "seal_count extra_data = map_sum id length (decode_seals extra_data)"

definition verify_seal :: "bytes \<Rightarrow> nat \<Rightarrow> consensus_error + unit" where
  "verify_seal extra_data required =
     (if required = 0 then Inl InvalidSeal
      else case seal_count extra_data of
             Inl e \<Rightarrow> Inl e
           | Inr got \<Rightarrow>
               if got < required then Inl (InsufficientSeals required got) else Inr ())"

section \<open>Validators\<close>

record validator =
  va_address :: address
  va_public_key :: public_key

definition validator_from_secret :: "'z core_env_scheme \<Rightarrow> secret_key \<Rightarrow> validator" where
  "validator_from_secret E sk =
     (let pk = public_key_from_secret E sk
      in \<lparr> va_address = address_from_public_key E pk, va_public_key = pk \<rparr>)"

record poa_config =
  poa_validators :: "validator list"
  poa_required_signatures :: nat

definition poa_single :: "validator \<Rightarrow> poa_config" where
  "poa_single v = \<lparr> poa_validators = [v], poa_required_signatures = 1 \<rparr>"

definition poa_config_from_secret :: "'z core_env_scheme \<Rightarrow> secret_key \<Rightarrow> poa_config" where
  "poa_config_from_secret E sk = poa_single (validator_from_secret E sk)"

text \<open>\<open>PoAConsensus\<close> wraps its configuration.\<close>

definition poa_new :: "poa_config \<Rightarrow> consensus_error + poa_config" where
  "poa_new config =
     (if poa_validators config = [] then Inl EmptyValidatorSet
      else if poa_required_signatures config = 0 then Inl InvalidSeal
      else Inr config)"

definition poa_from_secret :: "'z core_env_scheme \<Rightarrow> secret_key \<Rightarrow> consensus_error + poa_config" where
  "poa_from_secret E sk = poa_new (poa_config_from_secret E sk)"

text \<open>The first validator whose key verifies the seal.\<close>

fun match_validator ::
  "'z core_env_scheme \<Rightarrow> bytes \<Rightarrow> signature \<Rightarrow> validator list \<Rightarrow> address option" where
  "match_validator E message seal [] = None"
| "match_validator E message seal (v # vs) =
     (if verify_message E message seal (va_public_key v) = Inr () then Some (va_address v)
      else match_validator E message seal vs)"

fun unique_signers ::
  "'z core_env_scheme \<Rightarrow> bytes \<Rightarrow> validator list \<Rightarrow> signature list \<Rightarrow> address list \<Rightarrow>
   consensus_error + address list" where
  "unique_signers E message vs [] unique = Inr unique"
| "unique_signers E message vs (seal # seals) unique =
     (case match_validator E message seal vs of
        None \<Rightarrow> Inl InvalidSeal
      | Some addr \<Rightarrow>
          unique_signers E message vs seals (if addr \<in> set unique then unique else unique @ [addr]))"

definition verify_crypto_seals :: "'z core_env_scheme \<Rightarrow> poa_config \<Rightarrow> block_header \<Rightarrow> consensus_error + unit" where
  "verify_crypto_seals E cfg header =
     (case verify_seal (hd_extra_data header) (poa_required_signatures cfg) of
        Inl e \<Rightarrow> Inl e
      | Inr _ \<Rightarrow>
     (case decode_seals (hd_extra_data header) of
        Inl e \<Rightarrow> Inl e
      | Inr seals \<Rightarrow>
     (case unique_signers E (seal_hash E header) (poa_validators cfg) seals [] of
        Inl e \<Rightarrow> Inl e
      | Inr unique \<Rightarrow>
          if length unique < poa_required_signatures cfg
          then Inl (InsufficientSeals (poa_required_signatures cfg) (length unique))
          else Inr ())))"

definition poa_is_validator :: "poa_config \<Rightarrow> address \<Rightarrow> bool" where
  "poa_is_validator cfg addr = list_ex (\<lambda>v. va_address v = addr) (poa_validators cfg)"

definition poa_validate_header ::
  "'z core_env_scheme \<Rightarrow> poa_config \<Rightarrow> block_header \<Rightarrow> block_header option \<Rightarrow> consensus_error + unit" where
  "poa_validate_header E cfg header parent =
     (if \<not> poa_is_validator cfg (hd_miner header) then Inl NotValidator
      else if (case parent of Some p \<Rightarrow> hd_timestamp header < hd_timestamp p | None \<Rightarrow> False)
        then Inl ConsensusInvalidTimestamp
      else verify_crypto_seals E cfg header)"

definition poa_seal_header ::
  "'z core_env_scheme \<Rightarrow> poa_config \<Rightarrow> block_header \<Rightarrow> address \<Rightarrow> secret_key \<Rightarrow> consensus_error + block_header" where
  "poa_seal_header E cfg header miner secret =
     (if \<not> poa_is_validator cfg miner then Inl NotValidator
      else if address_from_secret E secret \<noteq> miner then Inl NotValidator
      else let unsealed = header \<lparr> hd_miner := miner, hd_extra_data := [] \<rparr>;
               sig = sign_message E (seal_hash E unsealed) secret
           in map_sum id (\<lambda>extra. unsealed \<lparr> hd_extra_data := extra \<rparr>) (encode_signatures [sig]))"

section \<open>The engine contract\<close>

text \<open>
  What the chain relies on in \<open>ConsensusEngine\<close>: an accepted header is mined by a validator,
  is not older than its parent and would also be accepted without one; sealing writes the
  miner and the extra data and nothing else, and only for a validator.
\<close>

locale consensus_engine =
  fixes is_validator :: "address \<Rightarrow> bool"
    and validate_header :: "block_header \<Rightarrow> block_header option \<Rightarrow> 'e + unit"
    and seal_header :: "block_header \<Rightarrow> address \<Rightarrow> secret_key \<Rightarrow> 'e + block_header"
  assumes validate_miner: "validate_header h parent = Inr u \<Longrightarrow> is_validator (hd_miner h)"
    and validate_time: "validate_header h (Some p) = Inr u \<Longrightarrow> hd_timestamp p \<le> hd_timestamp h"
    and validate_alone: "validate_header h parent = Inr u \<Longrightarrow> validate_header h None = Inr u"
    and seal_frame: "seal_header h m sk = Inr h' \<Longrightarrow>
      is_validator m \<and> (\<exists>x. h' = h \<lparr> hd_miner := m, hd_extra_data := x \<rparr>)"
begin

text \<open>Along headers that were each validated against their predecessor, time never runs
  backwards and every miner is a validator.\<close>

lemma validated_times:
  "successively (\<lambda>p h. \<exists>u. validate_header h (Some p) = Inr u) hs \<Longrightarrow> sorted (map hd_timestamp hs)"
proof (induction hs rule: induct_list012)
  case (3 p h hs)
  then have "sorted (map hd_timestamp (h # hs))" "hd_timestamp p \<le> hd_timestamp h"
    by (auto dest: validate_time)
  then show ?case by auto
qed simp_all

lemma validated_miners:
  "successively (\<lambda>p h. \<exists>u. validate_header h (Some p) = Inr u) hs \<Longrightarrow>
   h \<in> set (tl hs) \<Longrightarrow> is_validator (hd_miner h)"
  by (induction hs rule: induct_list012) (auto dest: validate_miner)

lemma sealed_by_validator: "seal_header h m sk = Inr h' \<Longrightarrow> is_validator (hd_miner h')"
  using seal_frame by fastforce

end

interpretation poa: consensus_engine "poa_is_validator cfg" "poa_validate_header E cfg" "poa_seal_header E cfg"
  for E :: "'z core_env_scheme" and cfg :: poa_config
proof unfold_locales
  show "poa_is_validator cfg m \<and> (\<exists>x. h' = h \<lparr> hd_miner := m, hd_extra_data := x \<rparr>)"
    if "poa_seal_header E cfg h m sk = Inr h'" for h m sk h'
    using that by (auto simp: poa_seal_header_def Let_def encode_signatures_def split: if_splits)
qed (auto simp: poa_validate_header_def split: if_splits)

section \<open>Lemmas\<close>

lemma seal_chunks_length: "length (seal_chunks bs) = length bs div SEAL_LEN"
proof (induction bs rule: seal_chunks.induct)
  case (1 bs)
  then show ?case
    by (subst seal_chunks.simps) (simp add: SEAL_LEN_def le_div_geq)
qed

lemma seal_chunks_concat:
  "\<forall>s \<in> set seals. length s = SEAL_LEN \<Longrightarrow> seal_chunks (concat seals) = seals"
  by (induction seals) (simp_all add: seal_chunks.simps [of "[]"] seal_chunks.simps [of "_ @ _"] SEAL_LEN_def)

lemma decode_encode_signatures:
  assumes "\<forall>s \<in> set seals. length s = SEAL_LEN" "seals \<noteq> []"
  shows "\<exists>bs. encode_signatures seals = Inr bs \<and> decode_seals bs = Inr seals"
proof -
  have "length (concat seals) = SEAL_LEN * length seals"
    using assms(1) by (induction seals) auto
  moreover from this have "concat seals \<noteq> []"
    using assms(2) by (simp only: length_greater_0_conv [symmetric]) (simp add: SEAL_LEN_def)
  ultimately show ?thesis using assms seal_chunks_concat [OF assms(1)]
    by (simp add: encode_signatures_def decode_seals_def SEAL_LEN_def del: concat_eq_Nil_conv)
qed

lemma verify_message_Inr:
  "verify_message E m s pk = Inr () \<longleftrightarrow> ed25519_valid_key E pk \<and> ed25519_verify E pk m s"
  by (simp add: verify_message_def)

definition signed_by :: "'z core_env_scheme \<Rightarrow> bytes \<Rightarrow> validator list \<Rightarrow> signature \<Rightarrow> address \<Rightarrow> bool" where
  "signed_by E message vs seal a \<longleftrightarrow>
     (\<exists>v \<in> set vs. va_address v = a \<and> verify_message E message seal (va_public_key v) = Inr ())"

lemma match_validator_Some: "match_validator E m s vs = Some a \<Longrightarrow> signed_by E m vs s a"
  by (induction vs) (auto simp: signed_by_def split: if_splits)

lemma match_validator_None: "match_validator E m s vs = None \<longleftrightarrow> (\<forall>a. \<not> signed_by E m vs s a)"
  by (induction vs) (auto simp: signed_by_def)

lemma unique_signers_Inr:
  assumes "unique_signers E m vs seals unique = Inr us" "distinct unique"
  shows "distinct us \<and> set unique \<subseteq> set us \<and>
    (\<forall>s \<in> set seals. \<exists>a \<in> set us. signed_by E m vs s a) \<and>
    (\<forall>a \<in> set us. a \<in> set unique \<or> (\<exists>s \<in> set seals. signed_by E m vs s a))"
  using assms
proof (induction seals arbitrary: unique)
  case (Cons s seals)
  then obtain a where a: "match_validator E m s vs = Some a" by (auto split: option.splits)
  let ?u = "if a \<in> set unique then unique else unique @ [a]"
  have "unique_signers E m vs seals ?u = Inr us" "distinct ?u" using Cons.prems a by auto
  note ih = Cons.IH [OF this]
  have "a \<in> set ?u" by simp
  then show ?case using ih match_validator_Some [OF a] by (auto split: if_splits)
qed simp

lemma unique_signers_one:
  "match_validator E m s vs = Some a \<Longrightarrow> unique_signers E m vs [s] [] = Inr [a]"
  by simp

text \<open>A header sealed by a validator carries one seal that verifies.\<close>

lemma poa_seal_header_Inr:
  assumes "poa_seal_header E cfg header miner sk = Inr h"
  shows "poa_is_validator cfg miner" "address_from_secret E sk = miner" "hd_miner h = miner"
    "hd_extra_data h = ed25519_sign E sk (seal_hash E h)"
    "h = header \<lparr> hd_miner := miner, hd_extra_data := hd_extra_data h \<rparr>"
  using assms
  by (auto simp: poa_seal_header_def encode_signatures_def Let_def sign_message_def seal_hash_def
      split: if_splits)

lemma one_seal:
  assumes "length sig = SEAL_LEN"
  shows "decode_seals sig = Inr [sig]" "verify_seal sig (Suc 0) = Inr ()"
proof -
  show "decode_seals sig = Inr [sig]"
    using decode_encode_signatures [of "[sig]"] assms by (auto simp: encode_signatures_def)
  then show "verify_seal sig (Suc 0) = Inr ()" by (simp add: verify_seal_def seal_count_def)
qed

lemma sealed_header_validates:
  assumes "ed25519_laws E" "poa_required_signatures cfg = 1"
    and seal: "poa_seal_header E cfg header miner sk = Inr h"
    and key: "\<lparr> va_address = miner, va_public_key = ed25519_public E sk \<rparr> \<in> set (poa_validators cfg)"
    and time: "case parent of Some p \<Rightarrow> hd_timestamp p \<le> hd_timestamp header | None \<Rightarrow> True"
  shows "poa_validate_header E cfg h parent = Inr ()"
proof -
  note s = poa_seal_header_Inr [OF seal]
  have len: "length (hd_extra_data h) = SEAL_LEN" using assms(1) s(4) by (simp add: ed25519_laws_def SEAL_LEN_def)
  have "signed_by E (seal_hash E h) (poa_validators cfg) (hd_extra_data h) miner"
    unfolding signed_by_def using key assms(1) s(4)
    by (intro bexI [OF _ key]) (simp add: verify_message_Inr ed25519_laws_def)
  then obtain a where "match_validator E (seal_hash E h) (hd_extra_data h) (poa_validators cfg) = Some a"
    using match_validator_None by (metis option.exhaust)
  then have "verify_crypto_seals E cfg h = Inr ()"
    using one_seal [OF len] assms(2) by (simp add: verify_crypto_seals_def)
  moreover have "hd_timestamp h = hd_timestamp header" by (subst s(5)) simp
  ultimately show ?thesis using s(1,3) time by (auto simp: poa_validate_header_def split: option.splits)
qed

section \<open>Properties\<close>

definition sample_key :: secret_key where
  "sample_key = replicate 32 1"

definition sample_poa :: poa_config where
  "sample_poa = poa_config_from_secret ref_core sample_key"

definition sample_sealed :: block_header where
  "sample_sealed = projr (poa_seal_header ref_core sample_poa sample_header (address_from_secret ref_core sample_key) sample_key)"

lemma sample_poa_fields:
  "poa_validators sample_poa =
     [\<lparr> va_address = address_from_secret ref_core sample_key, va_public_key = ed25519_public ref_core sample_key \<rparr>]"
  "poa_required_signatures sample_poa = 1"
  by (simp_all add: sample_poa_def poa_config_from_secret_def poa_single_def validator_from_secret_def
      address_from_secret_def public_key_from_secret_def Let_def)

lemma sample_seal:
  "poa_seal_header ref_core sample_poa sample_header (address_from_secret ref_core sample_key) sample_key
   = Inr sample_sealed"
  by (simp add: sample_sealed_def poa_seal_header_def poa_is_validator_def sample_poa_fields
      encode_signatures_def Let_def)

text \<open>
  C9: an accepted header carries a quorum. Its miner is a validator, it is not older than
  its parent, every seal in its extra data is a valid signature of some validator over the
  header without its seals, and at least the required number of different validator
  addresses have signed.
\<close>

theorem poa_quorum:
  assumes "poa_validate_header E cfg h parent = Inr ()"
  shows "poa_is_validator cfg (hd_miner h) \<and>
    (case parent of Some p \<Rightarrow> hd_timestamp p \<le> hd_timestamp h | None \<Rightarrow> True) \<and>
    (\<exists>seals signers. decode_seals (hd_extra_data h) = Inr seals \<and>
       (\<forall>s \<in> set seals. \<exists>a \<in> set signers. signed_by E (seal_hash E h) (poa_validators cfg) s a) \<and>
       (\<forall>a \<in> set signers. \<exists>s \<in> set seals. signed_by E (seal_hash E h) (poa_validators cfg) s a) \<and>
       distinct signers \<and> 0 < poa_required_signatures cfg \<and>
       poa_required_signatures cfg \<le> length signers)"
proof -
  have m: "poa_is_validator cfg (hd_miner h)" by (rule poa.validate_miner [OF assms])
  have t: "case parent of Some p \<Rightarrow> hd_timestamp p \<le> hd_timestamp h | None \<Rightarrow> True"
    using assms poa.validate_time by (auto split: option.split)
  have "verify_crypto_seals E cfg h = Inr ()"
    using assms by (auto simp: poa_validate_header_def split: if_splits)
  then obtain seals signers where "decode_seals (hd_extra_data h) = Inr seals"
    "unique_signers E (seal_hash E h) (poa_validators cfg) seals [] = Inr signers"
    "poa_required_signatures cfg \<le> length signers" "0 < poa_required_signatures cfg"
    by (auto simp: verify_crypto_seals_def verify_seal_def split: sum.splits if_splits)
  then show ?thesis using m t unique_signers_Inr [of E "seal_hash E h" "poa_validators cfg" seals "[]" signers] by auto
qed

theorem poa_quorum_witness:
  "\<exists>seals signers. decode_seals (hd_extra_data sample_sealed) = Inr seals \<and> distinct signers \<and>
     1 \<le> length signers \<and>
     (\<forall>a \<in> set signers. \<exists>s \<in> set seals. signed_by ref_core (seal_hash ref_core sample_sealed) (poa_validators sample_poa) s a)"
proof -
  have "poa_validate_header ref_core sample_poa sample_sealed None = Inr ()"
    by (rule sealed_header_validates [OF ref_core_ed25519_laws _ sample_seal])
      (simp_all add: sample_poa_fields)
  from poa_quorum [OF this] show ?thesis by (auto simp: sample_poa_fields)
qed

text \<open>
  What a validator seals is accepted. With one required signature and the sealing key
  in the validator set, the sealed header validates against any parent that is not younger;
  sealing has only written the miner and the extra data.
\<close>

theorem poa_seal_validates:
  assumes "ed25519_laws E" "poa_required_signatures cfg = 1"
    and "poa_seal_header E cfg header miner sk = Inr h"
    and "\<lparr> va_address = miner, va_public_key = ed25519_public E sk \<rparr> \<in> set (poa_validators cfg)"
    and "case parent of Some p \<Rightarrow> hd_timestamp p \<le> hd_timestamp header | None \<Rightarrow> True"
  shows "poa_validate_header E cfg h parent = Inr () \<and>
    h = header \<lparr> hd_miner := miner, hd_extra_data := ed25519_sign E sk (seal_hash E h) \<rparr>"
  using sealed_header_validates [OF assms] poa_seal_header_Inr [OF assms(3)] by simp

theorem poa_seal_validates_witness:
  "poa_validate_header ref_core sample_poa sample_sealed (Some sample_header) = Inr ()"
  using poa_seal_validates [OF ref_core_ed25519_laws sample_poa_fields(2) sample_seal, of "Some sample_header"]
  by (simp add: sample_poa_fields)

text \<open>
  A single sealer cannot meet a larger quorum. Where more than one signature is
  required, every header that \<open>seal_header\<close> returns is rejected for insufficient seals, so
  the block producer, which seals once, makes no acceptable block.
\<close>

theorem poa_single_seal_insufficient:
  assumes "ed25519_laws E" "1 < poa_required_signatures cfg"
    and "poa_seal_header E cfg header miner sk = Inr h"
    and "case parent of Some p \<Rightarrow> hd_timestamp p \<le> hd_timestamp header | None \<Rightarrow> True"
  shows "poa_validate_header E cfg h parent = Inl (InsufficientSeals (poa_required_signatures cfg) 1)"
proof -
  note s = poa_seal_header_Inr [OF assms(3)]
  have len: "length (hd_extra_data h) = SEAL_LEN"
    using assms(1) s(4) by (simp add: ed25519_laws_def SEAL_LEN_def)
  have "hd_timestamp h = hd_timestamp header" by (subst s(5)) simp
  then show ?thesis
    using assms(2,4) s(1,3) one_seal(1) [OF len]
    by (auto simp: poa_validate_header_def verify_crypto_seals_def verify_seal_def seal_count_def
        split: option.splits)
qed

theorem poa_single_seal_insufficient_witness:
  "\<exists>h. poa_seal_header ref_core (sample_poa \<lparr> poa_required_signatures := 2 \<rparr>) sample_header
         (address_from_secret ref_core sample_key) sample_key = Inr h \<and>
     poa_validate_header ref_core (sample_poa \<lparr> poa_required_signatures := 2 \<rparr>) h None = Inl (InsufficientSeals 2 1)"
proof -
  let ?cfg = "sample_poa \<lparr> poa_required_signatures := 2 \<rparr>"
  have seal: "poa_seal_header ref_core ?cfg sample_header (address_from_secret ref_core sample_key) sample_key
      = Inr sample_sealed"
    using sample_seal by (simp add: poa_seal_header_def poa_is_validator_def)
  show ?thesis using poa_single_seal_insufficient [OF ref_core_ed25519_laws _ seal, of None] seal by simp
qed

end
