(* ===== verification/Store.thy ===== *)
theory Store
  imports Executor Consensus
begin

text \<open>
  The block index of \<open>crates/ivory-chain/src/store.rs\<close>: blocks by hash, the canonical height
  index, the head, state snapshots and the transaction index. The parent walk of
  \<open>chain_from\<close> and \<open>rebuild_canonical\<close> is bounded by the number of stored blocks; the
  lemmas below show that in every reachable store it ends at a genesis block before that
  bound is met.
\<close>

section \<open>The store\<close>

datatype chain_error =
    BlockInvalid block_error
  | ConsensusRejected consensus_error
  | UnknownParent
  | DuplicateBlock
  | InvalidBlockNumber u64 u64
  | InvalidGenesis
  | ExecutionFailed execution_error
  | InvalidStateRoot
  | UnknownParentState

record tx_location =
  tl_block_hash :: h256
  tl_block_number :: u64
  tl_index :: nat

record insert_outcome =
  io_hash :: h256
  io_old_head :: "h256 option"
  io_new_head :: h256
  io_ancestor :: h256
  io_head_changed :: bool

record block_store =
  bs_by_hash :: "(h256, block) hmap"
  bs_by_number :: "(u64, h256) hmap"
  bs_head :: "h256 option"
  bs_snapshots :: "(h256, state_db) hmap"
  bs_tx_index :: "(h256, tx_location) hmap"
  bs_consensus :: poa_config

definition store_new :: "poa_config \<Rightarrow> block_store" where
  "store_new consensus =
     \<lparr> bs_by_hash = [], bs_by_number = [], bs_head = None, bs_snapshots = [], bs_tx_index = [],
       bs_consensus = consensus \<rparr>"

definition get_block :: "block_store \<Rightarrow> h256 \<Rightarrow> block option" where
  "get_block st hash = hm_get (bs_by_hash st) hash"

definition head_block :: "block_store \<Rightarrow> block option" where
  "head_block st = (case bs_head st of None \<Rightarrow> None | Some hash \<Rightarrow> get_block st hash)"

definition get_block_by_number :: "block_store \<Rightarrow> u64 \<Rightarrow> block option" where
  "get_block_by_number st number =
     (case hm_get (bs_by_number st) number of None \<Rightarrow> None | Some hash \<Rightarrow> get_block st hash)"

definition get_transaction :: "block_store \<Rightarrow> h256 \<Rightarrow> (transaction \<times> tx_location) option" where
  "get_transaction st hash =
     (case hm_get (bs_tx_index st) hash of
        None \<Rightarrow> None
      | Some loc \<Rightarrow>
          (case get_block st (tl_block_hash loc) of
             None \<Rightarrow> None
           | Some block \<Rightarrow>
               if tl_index loc < length (blk_transactions block)
               then Some (blk_transactions block ! tl_index loc, loc) else None))"

definition state_at :: "block_store \<Rightarrow> h256 \<Rightarrow> state_db option" where
  "state_at st hash = map_option state_fork (hm_get (bs_snapshots st) hash)"

definition record_state :: "h256 \<Rightarrow> state_db \<Rightarrow> block_store \<Rightarrow> block_store" where
  "record_state hash state st =
     st \<lparr> bs_snapshots := hm_insert hash (state_fork state) (bs_snapshots st) \<rparr>"

definition drop_body :: "u64 \<Rightarrow> block \<Rightarrow> block" where
  "drop_body keep_from b =
     (if hd_number (blk_header b) < keep_from
      then b \<lparr> blk_transactions := [], blk_receipts := [] \<rparr> else b)"

definition drop_bodies_below :: "u64 \<Rightarrow> bool \<Rightarrow> block_store \<Rightarrow> block_store" where
  "drop_bodies_below keep_from archive st =
     (if archive then st
      else st \<lparr> bs_by_hash := map (\<lambda>(h, b). (h, drop_body keep_from b)) (bs_by_hash st) \<rparr>)"

text \<open>The walk from a tip through its parents, tip first.\<close>

primrec parent_walk :: "(h256, block) hmap \<Rightarrow> nat \<Rightarrow> h256 \<Rightarrow> h256 list" where
  "parent_walk m 0 h = []"
| "parent_walk m (Suc n) h =
     (case hm_get m h of
        None \<Rightarrow> []
      | Some block \<Rightarrow>
          h # (if hd_number (blk_header block) = 0 then []
               else parent_walk m n (hd_parent_hash (blk_header block))))"

definition walk_to_genesis :: "block_store \<Rightarrow> h256 \<Rightarrow> h256 list" where
  "walk_to_genesis st tip = parent_walk (bs_by_hash st) (length (bs_by_hash st)) tip"

definition chain_from :: "block_store \<Rightarrow> h256 \<Rightarrow> h256 list" where
  "chain_from st tip = rev (walk_to_genesis st tip)"

definition common_ancestor :: "block_store \<Rightarrow> h256 \<Rightarrow> h256 \<Rightarrow> h256 option" where
  "common_ancestor st a b =
     (let sa = set (chain_from st a) in find (\<lambda>h. h \<in> sa) (rev (chain_from st b)))"

definition prune_snapshots :: "block_store \<Rightarrow> block_store" where
  "prune_snapshots st =
     (case bs_head st of
        None \<Rightarrow> st
      | Some head \<Rightarrow>
          (let keep = set (chain_from st head)
           in st \<lparr> bs_snapshots := hm_retain (\<lambda>h _. h \<in> keep) (bs_snapshots st) \<rparr>))"

definition keep_cutoff :: "u64 \<Rightarrow> u64 \<Rightarrow> u64" where
  "keep_cutoff number keep = saturating_sub_w number (saturating_sub_w keep 1)"

definition at_or_above :: "block_store \<Rightarrow> u64 \<Rightarrow> h256 \<Rightarrow> bool" where
  "at_or_above st cutoff h =
     (case get_block st h of Some b \<Rightarrow> cutoff \<le> hd_number (blk_header b) | None \<Rightarrow> False)"

definition prune_snapshots_keep :: "'z core_env_scheme \<Rightarrow> u64 \<Rightarrow> block_store \<Rightarrow> block_store" where
  "prune_snapshots_keep E keep st =
     (let st1 = prune_snapshots st
      in case head_block st1 of
           None \<Rightarrow> st1
         | Some head \<Rightarrow>
             (let cutoff = keep_cutoff (hd_number (blk_header head)) keep;
                  st2 = drop_bodies_below cutoff False st1;
                  keep_hashes = set (filter (at_or_above st2 cutoff) (chain_from st2 (block_hash E head)))
              in st2 \<lparr> bs_snapshots := hm_retain (\<lambda>h _. h \<in> keep_hashes) (bs_snapshots st2) \<rparr>))"

section \<open>Insertion\<close>

definition number_of :: "(h256, block) hmap \<Rightarrow> h256 \<Rightarrow> u64" where
  "number_of m h = (case hm_get m h of Some b \<Rightarrow> hd_number (blk_header b) | None \<Rightarrow> 0)"

definition rebuild_canonical :: "h256 \<Rightarrow> block_store \<Rightarrow> block_store" where
  "rebuild_canonical tip st =
     (let path = map (\<lambda>h. (number_of (bs_by_hash st) h, h)) (walk_to_genesis st tip)
      in st \<lparr> bs_by_number := fold (\<lambda>(n, h) m. hm_insert n h m) path [] \<rparr>)"

definition takes_head :: "h256 \<Rightarrow> u64 \<Rightarrow> block_store \<Rightarrow> bool" where
  "takes_head hash number st =
     (case bs_head st of
        None \<Rightarrow> True
      | Some head_hash \<Rightarrow>
          (let head_num = number_of (bs_by_hash st) head_hash
           in head_num < number \<or> (number = head_num \<and> hash_cmp hash head_hash = Less)))"

definition maybe_update_canonical :: "h256 \<Rightarrow> u64 \<Rightarrow> block_store \<Rightarrow> block_store" where
  "maybe_update_canonical hash number st =
     (if \<not> takes_head hash number st then st
      else rebuild_canonical hash (st \<lparr> bs_head := Some hash \<rparr>))"

definition index_block ::
  "'z core_env_scheme \<Rightarrow> u64 \<Rightarrow> block \<Rightarrow> (h256, tx_location) hmap \<Rightarrow> (h256, tx_location) hmap" where
  "index_block E n block idx =
     fold (\<lambda>(index, tx). hm_insert (tx_hash E tx)
              \<lparr> tl_block_hash = block_hash E block, tl_block_number = n, tl_index = index \<rparr>)
       (enumerate 0 (blk_transactions block)) idx"

definition rebuild_tx_index :: "'z core_env_scheme \<Rightarrow> block_store \<Rightarrow> block_store" where
  "rebuild_tx_index E st =
     (case head_block st of
        None \<Rightarrow> st \<lparr> bs_tx_index := [] \<rparr>
      | Some head \<Rightarrow>
          st \<lparr> bs_tx_index :=
                 fold (\<lambda>i idx. case get_block_by_number st (of_nat i) of
                                 None \<Rightarrow> idx
                               | Some block \<Rightarrow> index_block E (of_nat i) block idx)
                   [0..<Suc (unat (hd_number (blk_header head)))] [] \<rparr>)"

text \<open>
  \<open>head().expect("head after insert")\<close> is \<open>the\<close>: \<open>maybe_update_canonical\<close> always leaves a head.
\<close>

definition insert_validated ::
  "'z core_env_scheme \<Rightarrow> block \<Rightarrow> block_store \<Rightarrow> (chain_error + insert_outcome) \<times> block_store" where
  "insert_validated E block st =
     (let hash = block_hash E block
      in if hm_get (bs_by_hash st) hash \<noteq> None then (Inl DuplicateBlock, st)
         else
     (let old_head = bs_head st;
          st1 = st \<lparr> bs_by_hash := hm_insert hash block (bs_by_hash st) \<rparr>;
          st2 = maybe_update_canonical hash (hd_number (blk_header block)) st1;
          new_head = the (bs_head st2);
          head_changed = (old_head \<noteq> Some new_head);
          ancestor = (case old_head of
                        None \<Rightarrow> hash
                      | Some old \<Rightarrow>
                          if \<not> head_changed then old
                          else case common_ancestor st2 old new_head of Some a \<Rightarrow> a | None \<Rightarrow> hash);
          st3 = (if head_changed then rebuild_tx_index E st2 else st2)
      in (Inr \<lparr> io_hash = hash, io_old_head = old_head, io_new_head = new_head,
                io_ancestor = ancestor, io_head_changed = head_changed \<rparr>, st3)))"

definition insert_genesis ::
  "'z core_env_scheme \<Rightarrow> block \<Rightarrow> block_store \<Rightarrow> (chain_error + insert_outcome) \<times> block_store" where
  "insert_genesis E block st =
     (if hd_number (blk_header block) \<noteq> 0 \<or> hd_parent_hash (blk_header block) \<noteq> hash_zero 32
        then (Inl InvalidGenesis, st)
      else case poa_validate_header E (bs_consensus st) (blk_header block) None of
        Inl e \<Rightarrow> (Inl (ConsensusRejected e), st)
      | Inr _ \<Rightarrow>
     (case block_validate E block of
        Inl e \<Rightarrow> (Inl (BlockInvalid e), st)
      | Inr _ \<Rightarrow> insert_validated E block st))"

definition insert_block ::
  "'z core_env_scheme \<Rightarrow> block \<Rightarrow> block_store \<Rightarrow> (chain_error + insert_outcome) \<times> block_store" where
  "insert_block E block st =
     (if hd_number (blk_header block) = 0 then insert_genesis E block st
      else case get_block st (hd_parent_hash (blk_header block)) of
        None \<Rightarrow> (Inl UnknownParent, st)
      | Some parent \<Rightarrow>
     (let expected = saturating_add_w (hd_number (blk_header parent)) 1
      in if hd_number (blk_header block) \<noteq> expected
           then (Inl (InvalidBlockNumber expected (hd_number (blk_header block))), st)
         else case poa_validate_header E (bs_consensus st) (blk_header block) (Some (blk_header parent)) of
           Inl e \<Rightarrow> (Inl (ConsensusRejected e), st)
         | Inr _ \<Rightarrow>
        (case block_validate E block of
           Inl e \<Rightarrow> (Inl (BlockInvalid e), st)
         | Inr _ \<Rightarrow> insert_validated E block st)))"

definition insert_header ::
  "'z core_env_scheme \<Rightarrow> block_header \<Rightarrow> block_store \<Rightarrow> (chain_error + insert_outcome) \<times> block_store" where
  "insert_header E header st =
     (if hd_number header = 0 then (Inl InvalidGenesis, st)
      else case get_block st (hd_parent_hash header) of
        None \<Rightarrow> (Inl UnknownParent, st)
      | Some parent \<Rightarrow>
     (let expected = saturating_add_w (hd_number (blk_header parent)) 1
      in if hd_number header \<noteq> expected then (Inl (InvalidBlockNumber expected (hd_number header)), st)
         else case poa_validate_header E (bs_consensus st) header (Some (blk_header parent)) of
           Inl e \<Rightarrow> (Inl (ConsensusRejected e), st)
         | Inr _ \<Rightarrow>
             insert_validated E \<lparr> blk_header = header, blk_transactions = [], blk_receipts = [] \<rparr> st))"

section \<open>Ancestry\<close>

text \<open>
  The index as a map from hashes to headers, and the chain of ancestors of a block in it:
  the block, its parent and so on to a block of number 0.
\<close>

definition headers :: "(h256, block) hmap \<Rightarrow> h256 \<Rightarrow> block_header option" where
  "headers m h = map_option blk_header (hm_get m h)"

inductive ancestry :: "(h256 \<Rightarrow> block_header option) \<Rightarrow> h256 \<Rightarrow> h256 list \<Rightarrow> bool" for H where
  anc_genesis: "H h = Some x \<Longrightarrow> hd_number x = 0 \<Longrightarrow> ancestry H h [h]"
| anc_parent: "H h = Some x \<Longrightarrow> hd_number x \<noteq> 0 \<Longrightarrow> ancestry H (hd_parent_hash x) p \<Longrightarrow> ancestry H h (h # p)"

inductive_cases ancestryE: "ancestry H h p"

lemma ancestry_unique: "ancestry H h p \<Longrightarrow> ancestry H h q \<Longrightarrow> p = q"
proof (induction arbitrary: q rule: ancestry.induct)
  case (anc_genesis h x)
  from anc_genesis(3) show ?case
  proof (rule ancestryE)
    fix y p assume "H h = Some y" "hd_number y \<noteq> 0"
    then show "[h] = q" using anc_genesis(1,2) by simp
  qed simp
next
  case (anc_parent h x p)
  from anc_parent(5) show ?case
  proof (rule ancestryE)
    fix y assume "H h = Some y" "hd_number y = 0"
    then show "h # p = q" using anc_parent(1,2) by simp
  next
    fix y p' assume q: "q = h # p'" and y: "H h = Some y" "ancestry H (hd_parent_hash y) p'"
    have "y = x" using y(1) anc_parent(1) by simp
    then have "p = p'" using anc_parent.IH [of p'] y(2) by simp
    then show "h # p = q" using q by simp
  qed
qed

lemma map_le_Some: "H \<subseteq>\<^sub>m H' \<Longrightarrow> H h = Some x \<Longrightarrow> H' h = Some x"
  by (metis domI map_le_def)

lemma ancestry_mono: "ancestry H h p \<Longrightarrow> H \<subseteq>\<^sub>m H' \<Longrightarrow> ancestry H' h p"
proof (induction rule: ancestry.induct)
  case (anc_genesis h x)
  then have "H' h = Some x" by (simp add: map_le_Some)
  then show ?case using anc_genesis by (auto intro: ancestry.intros)
next
  case (anc_parent h x p)
  then have "H' h = Some x" by (simp add: map_le_Some)
  then show ?case using anc_parent by (auto intro: ancestry.intros)
qed

lemma ancestry_known: "ancestry H h p \<Longrightarrow> a \<in> set p \<Longrightarrow> \<exists>x. H a = Some x"
  by (induction rule: ancestry.induct) auto

lemma ancestry_ends: "ancestry H h p \<Longrightarrow> p \<noteq> [] \<and> hd p = h \<and> (\<exists>x. H (last p) = Some x \<and> hd_number x = 0)"
  by (induction rule: ancestry.induct) auto

lemma parent_walk_ancestry: "ancestry (headers m) h p \<Longrightarrow> length p \<le> n \<Longrightarrow> parent_walk m n h = p"
proof (induction arbitrary: n rule: ancestry.induct)
  case (anc_genesis h x)
  then show ?case by (cases n) (auto simp: headers_def)
next
  case (anc_parent h x p)
  then show ?case by (cases n) (auto simp: headers_def)
qed

text \<open>
  The index is linked when every block was accepted against a parent that is in the index
  with a smaller rank; ranks are below the number of blocks.
\<close>

definition accepted :: "'z core_env_scheme \<Rightarrow> poa_config \<Rightarrow> (h256 \<Rightarrow> block_header option) \<Rightarrow> block_header \<Rightarrow> bool" where
  "accepted E cfg H x \<longleftrightarrow>
     (if hd_number x = 0 then hd_parent_hash x = hash_zero 32 \<and> poa_validate_header E cfg x None = Inr ()
      else \<exists>y. H (hd_parent_hash x) = Some y \<and> hd_number x = saturating_add_w (hd_number y) 1 \<and>
             poa_validate_header E cfg x (Some y) = Inr ())"

definition linked_by ::
  "'z core_env_scheme \<Rightarrow> poa_config \<Rightarrow> (h256 \<Rightarrow> block_header option) \<Rightarrow> nat \<Rightarrow> (h256 \<Rightarrow> nat) \<Rightarrow> bool" where
  "linked_by E cfg H n rank \<longleftrightarrow>
     (\<forall>h x. H h = Some x \<longrightarrow> header_hash E x = h \<and> rank h < n \<and> accepted E cfg H x \<and>
        (hd_number x \<noteq> 0 \<longrightarrow> rank (hd_parent_hash x) < rank h))"

lemma accepted_mono: "accepted E cfg H x \<Longrightarrow> H \<subseteq>\<^sub>m H' \<Longrightarrow> accepted E cfg H' x"
  unfolding accepted_def by (auto dest: map_le_Some split: if_splits)

lemma linked_insert:
  assumes "linked_by E cfg H n rank" "H k = None" "header_hash E x = k" "accepted E cfg H x"
  shows "linked_by E cfg (H(k \<mapsto> x)) (Suc n) (rank(k := n))"
proof -
  have le: "H \<subseteq>\<^sub>m H(k \<mapsto> x)" using assms(2) by (simp add: map_le_def dom_def)
  show ?thesis unfolding linked_by_def
  proof (intro allI impI)
    fix h y
    assume h: "(H(k \<mapsto> x)) h = Some y"
    show "header_hash E y = h \<and> (rank(k := n)) h < Suc n \<and> accepted E cfg (H(k \<mapsto> x)) y \<and>
      (hd_number y \<noteq> 0 \<longrightarrow> (rank(k := n)) (hd_parent_hash y) < (rank(k := n)) h)"
    proof (cases "h = k")
      case True
      then have y: "y = x" using h by simp
      have "rank (hd_parent_hash x) < n \<and> hd_parent_hash x \<noteq> k" if "hd_number x \<noteq> 0"
        using assms that by (auto simp: accepted_def linked_by_def)
      then show ?thesis using True y assms(3) accepted_mono [OF assms(4) le] by auto
    next
      case False
      then have y: "H h = Some y" using h by simp
      note old = assms(1) [unfolded linked_by_def, rule_format, OF y]
      have "hd_parent_hash y \<noteq> k" if "hd_number y \<noteq> 0"
        using old that assms(2) by (auto simp: accepted_def)
      then show ?thesis using False old accepted_mono [OF _ le, of E cfg y] by auto
    qed
  qed
qed

lemma linked_ancestry:
  assumes "linked_by E cfg H n rank" "H h = Some x"
  shows "\<exists>p. ancestry H h p \<and> length p \<le> Suc (rank h)"
  using assms(2)
proof (induction "rank h" arbitrary: h x rule: less_induct)
  case less
  note l = assms(1) [unfolded linked_by_def, rule_format, OF less.prems]
  show ?case
  proof (cases "hd_number x = 0")
    case True
    then show ?thesis using anc_genesis [of H h x] less.prems by (intro exI [of _ "[h]"]) simp
  next
    case False
    then obtain y where "H (hd_parent_hash x) = Some y" using l by (auto simp: accepted_def)
    then obtain p where "ancestry H (hd_parent_hash x) p" "length p \<le> Suc (rank (hd_parent_hash x))"
      using less.hyps [of "hd_parent_hash x"] l False by blast
    then show ?thesis using anc_parent [of H h x p] less.prems l False by (intro exI [of _ "h # p"]) auto
  qed
qed

lemma sat_succ_inj:
  assumes "n = saturating_add_w m (1 :: u64)" "n \<noteq> - 1"
  shows "unat n = unat m + 1" "m \<noteq> - 1"
proof -
  show m: "m \<noteq> - 1" using assms by (auto simp: saturating_add_w_def checked_add_w_def unat_minus_one_word_max)
  have "unat n \<noteq> 2 ^ 64 - 1"
    using assms(2) unat_minus_one_word_max [where 'a = 64] by (auto simp: word_unat_eq_iff)
  then show "unat n = unat m + 1"
    using assms(1) unat_lt [of m] saturating_add_w_val [of m 1] by (simp add: min_def split: if_splits)
qed

lemma ancestry_numbers:
  "ancestry H h p \<Longrightarrow> linked_by E cfg H n rank \<Longrightarrow> H h = Some x \<Longrightarrow> hd_number x \<noteq> - 1 \<Longrightarrow>
   map (\<lambda>a. unat (hd_number (the (H a)))) p = rev [0..<Suc (unat (hd_number x))]"
proof (induction arbitrary: x rule: ancestry.induct)
  case (anc_parent h z p)
  have z: "x = z" using anc_parent by simp
  have "accepted E cfg H z" using anc_parent.prems(1) anc_parent.hyps(1) by (simp add: linked_by_def)
  then obtain y where y: "H (hd_parent_hash z) = Some y" "hd_number z = saturating_add_w (hd_number y) 1"
    using anc_parent.hyps(2) by (auto simp: accepted_def)
  have num: "unat (hd_number z) = unat (hd_number y) + 1" "hd_number y \<noteq> - 1"
    using sat_succ_inj [OF y(2)] anc_parent.prems(3) z by auto
  show ?case using anc_parent.IH [OF anc_parent.prems(1) y(1) num(2)] anc_parent.hyps(1) z num(1) by simp
qed auto

lemma ancestry_links:
  "ancestry H h p \<Longrightarrow> linked_by E cfg H n rank \<Longrightarrow>
   successively (\<lambda>a b. hd_parent_hash (the (H a)) = b \<and>
     poa_validate_header E cfg (the (H a)) (Some (the (H b))) = Inr ()) p"
proof (induction rule: ancestry.induct)
  case (anc_parent h x p)
  have "accepted E cfg H x" using anc_parent.prems anc_parent.hyps(1) by (simp add: linked_by_def)
  moreover have "hd p = hd_parent_hash x" "p \<noteq> []" using ancestry_ends [OF anc_parent.hyps(3)] by auto
  ultimately show ?case using anc_parent by (auto simp: successively_Cons accepted_def)
qed simp

section \<open>Invariant\<close>

lemma hash_cmp_lin: "hash_cmp a b = cmp_lin a b"
  by (induction a b rule: hash_cmp.induct)
    (auto simp: cmp_lin_def split: list.splits, metis Nil_less_Cons list.exhaust)

text \<open>
  The head is the best block of the index: no block is higher, and none at the same height
  has a smaller hash. The height index lists the head's ancestors, and the transaction
  index points into it (or at a body that has been dropped).
\<close>

definition best :: "(h256 \<Rightarrow> block_header option) \<Rightarrow> h256 \<Rightarrow> bool" where
  "best H tip \<longleftrightarrow>
     (\<exists>y. H tip = Some y \<and>
       (\<forall>h x. H h = Some x \<longrightarrow>
          hd_number x < hd_number y \<or> hd_number x = hd_number y \<and> tip \<le> h))"

definition canonical_index :: "block_store \<Rightarrow> h256 \<Rightarrow> (u64, h256) hmap" where
  "canonical_index st tip =
     fold (\<lambda>(n, h) m. hm_insert n h m)
       (map (\<lambda>h. (number_of (bs_by_hash st) h, h)) (walk_to_genesis st tip)) []"

definition indexed :: "'z core_env_scheme \<Rightarrow> block_store \<Rightarrow> h256 \<Rightarrow> tx_location \<Rightarrow> bool" where
  "indexed E st t loc \<longleftrightarrow>
     hm_get (bs_by_number st) (tl_block_number loc) = Some (tl_block_hash loc) \<and>
     (\<exists>b. get_block st (tl_block_hash loc) = Some b \<and>
        (blk_transactions b = [] \<or>
         tl_index loc < length (blk_transactions b) \<and> tx_hash E (blk_transactions b ! tl_index loc) = t))"

definition store_wf :: "block_store \<Rightarrow> bool" where
  "store_wf st \<longleftrightarrow> hm_wf (bs_by_hash st) \<and> hm_wf (bs_by_number st) \<and>
     hm_wf (bs_snapshots st) \<and> hm_wf (bs_tx_index st)"

definition store_inv :: "'z core_env_scheme \<Rightarrow> block_store \<Rightarrow> bool" where
  "store_inv E st \<longleftrightarrow>
     store_wf st \<and>
     (\<exists>rank. linked_by E (bs_consensus st) (headers (bs_by_hash st)) (length (bs_by_hash st)) rank) \<and>
     (case bs_head st of
        None \<Rightarrow> bs_by_hash st = [] \<and> bs_by_number st = []
      | Some tip \<Rightarrow> best (headers (bs_by_hash st)) tip \<and> bs_by_number st = canonical_index st tip) \<and>
     (\<forall>t loc. hm_get (bs_tx_index st) t = Some loc \<longrightarrow> indexed E st t loc)"

lemma store_inv_new: "store_inv E (store_new cfg)"
  by (simp add: store_inv_def store_wf_def store_new_def linked_by_def headers_def hm_simps)

lemma walk_linked:
  assumes "linked_by E cfg (headers (bs_by_hash st)) (length (bs_by_hash st)) rank"
    "headers (bs_by_hash st) h = Some x"
  shows "ancestry (headers (bs_by_hash st)) h (walk_to_genesis st h)"
proof -
  obtain p where p: "ancestry (headers (bs_by_hash st)) h p" "length p \<le> Suc (rank h)"
    using linked_ancestry [OF assms] by blast
  have "rank h < length (bs_by_hash st)" using assms by (simp add: linked_by_def)
  then have "walk_to_genesis st h = p"
    using parent_walk_ancestry [OF p(1)] p(2) by (simp add: walk_to_genesis_def)
  then show ?thesis using p(1) by simp
qed

lemma number_of_headers: "headers m h = Some x \<Longrightarrow> number_of m h = hd_number x"
  by (auto simp: headers_def number_of_def)

lemma canonical_index_ext:
  assumes "linked_by E cfg (headers (bs_by_hash st)) (length (bs_by_hash st)) rank"
    "linked_by E cfg' (headers (bs_by_hash st')) (length (bs_by_hash st')) rank'"
    "headers (bs_by_hash st) tip = Some x" "headers (bs_by_hash st) \<subseteq>\<^sub>m headers (bs_by_hash st')"
  shows "canonical_index st' tip = canonical_index st tip \<and> walk_to_genesis st' tip = walk_to_genesis st tip"
proof -
  have a: "ancestry (headers (bs_by_hash st)) tip (walk_to_genesis st tip)" by (rule walk_linked [OF assms(1,3)])
  have "ancestry (headers (bs_by_hash st')) tip (walk_to_genesis st' tip)"
    by (rule walk_linked [OF assms(2) map_le_Some [OF assms(4,3)]])
  then have w: "walk_to_genesis st' tip = walk_to_genesis st tip"
    using ancestry_unique ancestry_mono [OF a assms(4)] by blast
  have "number_of (bs_by_hash st') h = number_of (bs_by_hash st) h" if h: "h \<in> set (walk_to_genesis st tip)" for h
  proof -
    obtain y where y: "headers (bs_by_hash st) h = Some y" using ancestry_known [OF a h] by blast
    then show ?thesis using number_of_headers map_le_Some [OF assms(4)] by metis
  qed
  then have eq: "map (\<lambda>h. (number_of (bs_by_hash st') h, h)) (walk_to_genesis st tip)
      = map (\<lambda>h. (number_of (bs_by_hash st) h, h)) (walk_to_genesis st tip)" by simp
  show ?thesis unfolding canonical_index_def w eq by simp
qed

lemma canonical_index_wf: "hm_wf (canonical_index st tip)"
  by (simp add: canonical_index_def hm.wf_fold_ins hm_simps)

lemma canonical_index_sound:
  assumes "hm_get (canonical_index st tip) n = Some h"
  shows "h \<in> set (walk_to_genesis st tip) \<and> number_of (bs_by_hash st) h = n"
proof -
  have "map_of (rev (map (\<lambda>h. (number_of (bs_by_hash st) h, h)) (walk_to_genesis st tip))) n = Some h"
    using assms by (simp add: canonical_index_def hm.get_fold_ins hm_simps split: option.splits)
  then show ?thesis by (auto dest: map_of_SomeD)
qed

lemma canonical_index_complete:
  assumes "linked_by E cfg (headers (bs_by_hash st)) (length (bs_by_hash st)) rank"
    "headers (bs_by_hash st) tip = Some x" "hd_number x \<noteq> - 1" "h \<in> set (walk_to_genesis st tip)"
  shows "hm_get (canonical_index st tip) (number_of (bs_by_hash st) h) = Some h"
proof -
  let ?w = "walk_to_genesis st tip" and ?n = "number_of (bs_by_hash st)"
  have a: "ancestry (headers (bs_by_hash st)) tip ?w" by (rule walk_linked [OF assms(1,2)])
  have "unat (?n h) = unat (hd_number (the (headers (bs_by_hash st) h)))" if "h \<in> set ?w" for h
    using ancestry_known [OF a that] number_of_headers by fastforce
  then have "map (\<lambda>h. unat (?n h)) ?w = map (\<lambda>h. unat (hd_number (the (headers (bs_by_hash st) h)))) ?w"
    by simp
  then have "distinct (map (\<lambda>h. unat (?n h)) ?w)"
    using ancestry_numbers [OF a assms(1,2,3)] by simp
  then have "distinct (map unat (map ?n ?w))" by (simp add: comp_def)
  then have "distinct (map ?n ?w)" unfolding distinct_map by simp
  then have d: "distinct (map fst (map (\<lambda>h. (?n h, h)) ?w))" by (simp add: comp_def)
  have "(?n h, h) \<in> set (map (\<lambda>h. (?n h, h)) ?w)" using assms(4) by simp
  then have "map_of (rev (map (\<lambda>h. (?n h, h)) ?w)) (?n h) = Some h"
    using last_of_distinct [OF d] by blast
  then show ?thesis by (simp add: canonical_index_def hm.get_fold_ins)
qed

section \<open>Insertion keeps the invariant\<close>

lemma headers_insert: "headers (hm_insert k b m) = (headers m)(k \<mapsto> blk_header b)"
  by (simp add: headers_def fun_eq_iff hm_simps)

lemma maybe_update_frame [simp]:
  "bs_by_hash (maybe_update_canonical h n st) = bs_by_hash st"
  "bs_snapshots (maybe_update_canonical h n st) = bs_snapshots st"
  "bs_tx_index (maybe_update_canonical h n st) = bs_tx_index st"
  "bs_consensus (maybe_update_canonical h n st) = bs_consensus st"
  by (simp_all add: maybe_update_canonical_def rebuild_canonical_def)

lemma maybe_update_head:
  "bs_head (maybe_update_canonical h n st) = (if takes_head h n st then Some h else bs_head st)"
  "bs_by_number (maybe_update_canonical h n st) =
     (if takes_head h n st then canonical_index st h else bs_by_number st)"
  by (simp_all add: maybe_update_canonical_def rebuild_canonical_def canonical_index_def walk_to_genesis_def)

lemma canonical_index_cong: "bs_by_hash st = bs_by_hash st' \<Longrightarrow> canonical_index st tip = canonical_index st' tip"
  by (simp add: canonical_index_def walk_to_genesis_def)

lemma rebuild_tx_frame [simp]:
  "bs_by_hash (rebuild_tx_index E st) = bs_by_hash st"
  "bs_snapshots (rebuild_tx_index E st) = bs_snapshots st"
  "bs_by_number (rebuild_tx_index E st) = bs_by_number st"
  "bs_head (rebuild_tx_index E st) = bs_head st"
  "bs_consensus (rebuild_tx_index E st) = bs_consensus st"
  by (simp_all add: rebuild_tx_index_def split: option.split)

lemma index_block_get:
  assumes "hm_get (index_block E n b idx) t = Some loc"
  shows "hm_get idx t = Some loc \<or>
    (tl_block_hash loc = block_hash E b \<and> tl_block_number loc = n \<and>
     tl_index loc < length (blk_transactions b) \<and> tx_hash E (blk_transactions b ! tl_index loc) = t)"
proof -
  have "hm_get (fold (\<lambda>(index, tx). hm_insert (tx_hash E tx)
              \<lparr> tl_block_hash = block_hash E b, tl_block_number = n, tl_index = index \<rparr>) es idx) t = Some loc \<Longrightarrow>
    (\<forall>(i, tx) \<in> set es. i < length (blk_transactions b) \<and> blk_transactions b ! i = tx) \<Longrightarrow>
    hm_get idx t = Some loc \<or>
    (tl_block_hash loc = block_hash E b \<and> tl_block_number loc = n \<and>
     tl_index loc < length (blk_transactions b) \<and> tx_hash E (blk_transactions b ! tl_index loc) = t)" for es
  proof (induction es arbitrary: idx)
    case (Cons e es)
    then show ?case by (cases e) (fastforce simp: hm_simps split: if_splits)
  qed simp
  moreover have "\<forall>(i, tx) \<in> set (enumerate 0 (blk_transactions b)).
      i < length (blk_transactions b) \<and> blk_transactions b ! i = tx"
    by (auto simp: in_set_enumerate_eq)
  ultimately show ?thesis using assms unfolding index_block_def by blast
qed

lemma index_block_wf: "hm_wf idx \<Longrightarrow> hm_wf (index_block E n b idx)"
proof -
  have "hm_wf idx \<Longrightarrow> hm_wf (fold (\<lambda>(index, tx). hm_insert (tx_hash E tx)
              \<lparr> tl_block_hash = block_hash E b, tl_block_number = n, tl_index = index \<rparr>) es idx)" for es
    by (induction es arbitrary: idx) (auto simp: hm_simps)
  then show "hm_wf idx \<Longrightarrow> hm_wf (index_block E n b idx)" by (simp add: index_block_def)
qed

lemma rebuild_tx_indexed:
  assumes hash: "\<And>h b. get_block st h = Some b \<Longrightarrow> block_hash E b = h"
  shows "hm_wf (bs_tx_index (rebuild_tx_index E st)) \<and>
    (\<forall>t loc. hm_get (bs_tx_index (rebuild_tx_index E st)) t = Some loc \<longrightarrow> indexed E st t loc)"
proof (cases "head_block st")
  case None
  then show ?thesis by (simp add: rebuild_tx_index_def hm_simps)
next
  case (Some head)
  let ?step = "\<lambda>i idx. case get_block_by_number st (of_nat i) of
    None \<Rightarrow> idx | Some block \<Rightarrow> index_block E (of_nat i) block idx"
  have "hm_wf idx \<and> (\<forall>t loc. hm_get idx t = Some loc \<longrightarrow> indexed E st t loc) \<Longrightarrow>
      hm_wf (fold ?step is idx) \<and> (\<forall>t loc. hm_get (fold ?step is idx) t = Some loc \<longrightarrow> indexed E st t loc)" for "is" idx
  proof (induction "is" arbitrary: idx)
    case (Cons i "is")
    have "hm_wf (?step i idx) \<and> (\<forall>t loc. hm_get (?step i idx) t = Some loc \<longrightarrow> indexed E st t loc)"
    proof (cases "get_block_by_number st (of_nat i)")
      case (Some b)
      then obtain h where h: "hm_get (bs_by_number st) (of_nat i) = Some h" "get_block st h = Some b"
        by (auto simp: get_block_by_number_def split: option.splits)
      show ?thesis
      proof (intro conjI allI impI)
        fix t loc
        assume "hm_get (?step i idx) t = Some loc"
        then have "hm_get (index_block E (of_nat i) b idx) t = Some loc" using Some by simp
        from index_block_get [OF this] show "indexed E st t loc"
          using Cons.prems h hash [OF h(2)] by (auto simp: indexed_def)
      qed (use Cons.prems Some in \<open>simp add: index_block_wf\<close>)
    qed (use Cons.prems in simp)
    then show ?case using Cons.IH by simp
  qed simp
  from this [of "[]" "[0..<Suc (unat (hd_number (blk_header head)))]"]
  show ?thesis using Some by (simp add: rebuild_tx_index_def hm_simps del: upt_Suc)
qed

lemma store_inv_hash:
  assumes "store_inv E st" "get_block st h = Some b"
  shows "block_hash E b = h"
proof -
  obtain rank where "linked_by E (bs_consensus st) (headers (bs_by_hash st)) (length (bs_by_hash st)) rank"
    using assms(1) by (auto simp: store_inv_def)
  moreover have "headers (bs_by_hash st) h = Some (blk_header b)" using assms(2) by (simp add: get_block_def headers_def)
  ultimately show ?thesis by (simp add: linked_by_def block_hash_def)
qed

lemma best_extend:
  assumes "best H tip" "H k = None" "hd_number x < hd_number (the (H tip)) \<or> hd_number x = hd_number (the (H tip)) \<and> tip \<le> k"
  shows "best (H(k \<mapsto> x)) tip"
  using assms by (auto simp: best_def)

lemma best_replace:
  assumes "best H tip" "H k = None" "hd_number (the (H tip)) < hd_number x \<or> hd_number x = hd_number (the (H tip)) \<and> k < tip"
  shows "best (H(k \<mapsto> x)) k"
proof -
  obtain y where y: "H tip = Some y"
    and best: "\<And>h z. H h = Some z \<Longrightarrow> hd_number z < hd_number y \<or> hd_number z = hd_number y \<and> tip \<le> h"
    using assms(1) by (auto simp: best_def)
  have "hd_number z < hd_number x \<or> hd_number z = hd_number x \<and> k \<le> h" if "H h = Some z" for h z
    using best [OF that] assms(3) y by (auto intro: less_trans)
  then show ?thesis by (auto simp: best_def)
qed

lemma takes_head_cases:
  assumes "store_inv E st" "get_block st k = None"
  shows "takes_head k n (st \<lparr> bs_by_hash := hm_insert k b (bs_by_hash st) \<rparr>) \<longleftrightarrow>
    (case bs_head st of None \<Rightarrow> True
     | Some tip \<Rightarrow> hd_number (the (headers (bs_by_hash st) tip)) < n \<or>
                   n = hd_number (the (headers (bs_by_hash st) tip)) \<and> k < tip)"
proof (cases "bs_head st")
  case (Some tip)
  then obtain y where y: "headers (bs_by_hash st) tip = Some y" using assms(1) by (auto simp: store_inv_def best_def)
  moreover have "tip \<noteq> k" using y assms(2) by (auto simp: headers_def get_block_def)
  ultimately have "number_of (hm_insert k b (bs_by_hash st)) tip = hd_number y"
    by (intro number_of_headers) (simp add: headers_insert)
  then show ?thesis using Some y by (auto simp: takes_head_def hash_cmp_lin cmp_lin_def)
qed (simp add: takes_head_def)

text \<open>The two ways an insertion ends: the new block becomes the head, or the head stays.\<close>

lemma insert_validated_cases:
  assumes inv: "store_inv E st" and ins: "insert_validated E block st = (r, st')"
  obtains
    (duplicate) "r = Inl DuplicateBlock" "st' = st"
  | (head) out st1 where "r = Inr out" "get_block st (block_hash E block) = None"
      "st1 = st \<lparr> bs_by_hash := hm_insert (block_hash E block) block (bs_by_hash st) \<rparr>"
      "st' = rebuild_tx_index E (st1 \<lparr> bs_head := Some (block_hash E block),
         bs_by_number := canonical_index st1 (block_hash E block) \<rparr>)"
      "io_hash out = block_hash E block" "io_old_head out = bs_head st"
      "io_new_head out = block_hash E block" "io_head_changed out"
      "case bs_head st of None \<Rightarrow> True
       | Some tip \<Rightarrow> hd_number (the (headers (bs_by_hash st) tip)) < hd_number (blk_header block) \<or>
           hd_number (blk_header block) = hd_number (the (headers (bs_by_hash st) tip)) \<and> block_hash E block < tip"
  | (side) out tip where "r = Inr out" "get_block st (block_hash E block) = None"
      "st' = st \<lparr> bs_by_hash := hm_insert (block_hash E block) block (bs_by_hash st) \<rparr>"
      "io_hash out = block_hash E block" "io_old_head out = Some tip" "io_new_head out = tip"
      "\<not> io_head_changed out" "io_ancestor out = tip" "bs_head st = Some tip"
      "hd_number (blk_header block) < hd_number (the (headers (bs_by_hash st) tip)) \<or>
           hd_number (blk_header block) = hd_number (the (headers (bs_by_hash st) tip)) \<and> tip \<le> block_hash E block"
proof (cases "get_block st (block_hash E block)")
  case (Some b)
  then show thesis using ins duplicate by (simp add: insert_validated_def get_block_def Let_def)
next
  case None
  let ?k = "block_hash E block" and ?n = "hd_number (blk_header block)"
  let ?st1 = "st \<lparr> bs_by_hash := hm_insert ?k block (bs_by_hash st) \<rparr>"
  have none: "hm_get (bs_by_hash st) ?k = None" using None by (simp add: get_block_def)
  have old: "bs_head st \<noteq> Some ?k" using inv none by (auto simp: store_inv_def best_def headers_def)
  note takes = takes_head_cases [OF inv None, of ?n block]
  show thesis
  proof (cases "takes_head ?k ?n ?st1")
    case True
    have st2: "maybe_update_canonical ?k ?n ?st1 = ?st1 \<lparr> bs_head := Some ?k, bs_by_number := canonical_index ?st1 ?k \<rparr>"
      using True by (simp add: maybe_update_canonical_def rebuild_canonical_def canonical_index_def walk_to_genesis_def)
    show thesis
      by (rule head [OF _ None refl, of "projr r"])
        (use ins none old st2 True takes in \<open>auto simp: insert_validated_def Let_def\<close>)
  next
    case False
    then obtain tip where tip: "bs_head st = Some tip" using takes by (auto split: option.splits)
    have st2: "maybe_update_canonical ?k ?n ?st1 = ?st1" using False by (simp add: maybe_update_canonical_def)
    show thesis
      by (rule side [OF _ None, of "projr r" tip])
        (use ins none st2 False takes tip in \<open>auto simp: insert_validated_def Let_def\<close>)
  qed
qed

lemma insert_linked:
  assumes inv: "store_inv E st" and none: "get_block st (block_hash E block) = None"
    and acc: "accepted E (bs_consensus st) (headers (bs_by_hash st)) (blk_header block)"
    and st1: "bs_by_hash st1 = hm_insert (block_hash E block) block (bs_by_hash st)"
  shows "hm_wf (bs_by_hash st1)"
    "\<exists>rank. linked_by E (bs_consensus st) (headers (bs_by_hash st1)) (length (bs_by_hash st1)) rank"
    "headers (bs_by_hash st1) = (headers (bs_by_hash st))(block_hash E block \<mapsto> blk_header block)"
    "headers (bs_by_hash st) (block_hash E block) = None"
proof -
  obtain rank where rank: "linked_by E (bs_consensus st) (headers (bs_by_hash st)) (length (bs_by_hash st)) rank"
    using inv by (auto simp: store_inv_def)
  show none': "headers (bs_by_hash st) (block_hash E block) = None" using none by (simp add: headers_def get_block_def)
  show hs: "headers (bs_by_hash st1) = (headers (bs_by_hash st))(block_hash E block \<mapsto> blk_header block)"
    by (simp add: st1 headers_insert)
  have "length (bs_by_hash st1) = Suc (length (bs_by_hash st))"
    using none by (simp add: st1 get_block_def hm_insert_fresh)
  then show "\<exists>rank. linked_by E (bs_consensus st) (headers (bs_by_hash st1)) (length (bs_by_hash st1)) rank"
    using linked_insert [OF rank none' _ acc] by (auto simp: hs block_hash_def)
  show "hm_wf (bs_by_hash st1)" using inv by (simp add: st1 store_inv_def store_wf_def hm_simps)
qed

lemma insert_validated_inv:
  assumes inv: "store_inv E st" and ins: "insert_validated E block st = (r, st')"
    and acc: "accepted E (bs_consensus st) (headers (bs_by_hash st)) (blk_header block)"
  shows "store_inv E st'"
  using inv ins
proof (cases rule: insert_validated_cases)
  case duplicate
  then show ?thesis using inv by simp
next
  case (head out st1)
  let ?k = "block_hash E block"
  let ?st2 = "st1 \<lparr> bs_head := Some ?k, bs_by_number := canonical_index st1 ?k \<rparr>"
  have st1: "bs_by_hash st1 = hm_insert ?k block (bs_by_hash st)" "bs_consensus st1 = bs_consensus st"
    "bs_snapshots st1 = bs_snapshots st"
    using head(3) by simp_all
  note l = insert_linked [OF inv head(2) acc st1(1)]
  have best: "best (headers (bs_by_hash st1)) ?k"
  proof (cases "bs_head st")
    case None
    then have "headers (bs_by_hash st) = Map.empty" using inv by (simp add: store_inv_def headers_def fun_eq_iff hm_simps)
    then show ?thesis by (simp add: l(3) best_def)
  next
    case (Some tip)
    then have "best (headers (bs_by_hash st)) tip" using inv by (simp add: store_inv_def)
    from best_replace [OF this l(4)] show ?thesis using Some head(9) by (simp add: l(3))
  qed
  have "get_block ?st2 h = Some b \<Longrightarrow> block_hash E b = h" for h b
    using store_inv_hash [OF inv, of h b] by (simp add: get_block_def st1 hm_simps split: if_splits)
  note tx = rebuild_tx_indexed [OF this, simplified]
  have idx: "indexed E st' = indexed E ?st2"
    unfolding head(4) by (simp add: indexed_def get_block_def fun_eq_iff)
  have canon: "canonical_index st' ?k = canonical_index st1 ?k"
    unfolding head(4) by (rule canonical_index_cong) simp
  have fields: "bs_by_hash st' = bs_by_hash st1" "bs_by_number st' = canonical_index st1 ?k"
    "bs_head st' = Some ?k" "bs_snapshots st' = bs_snapshots st" "bs_consensus st' = bs_consensus st"
    "bs_tx_index st' = bs_tx_index (rebuild_tx_index E ?st2)"
    using head(4) st1 by simp_all
  have "hm_wf (bs_snapshots st)" using inv by (simp add: store_inv_def store_wf_def)
  then show ?thesis
    unfolding store_inv_def store_wf_def idx fields canon option.case
    using l(1,2) best tx canonical_index_wf by blast
next
  case (side out tip)
  let ?k = "block_hash E block"
  have st': "bs_by_hash st' = hm_insert ?k block (bs_by_hash st)" "bs_consensus st' = bs_consensus st"
    "bs_snapshots st' = bs_snapshots st" "bs_by_number st' = bs_by_number st" "bs_head st' = Some tip"
    "bs_tx_index st' = bs_tx_index st"
    using side(3,9) by simp_all
  note l = insert_linked [OF inv side(2) acc st'(1)]
  have old: "best (headers (bs_by_hash st)) tip" "bs_by_number st = canonical_index st tip"
    using inv side(9) by (simp_all add: store_inv_def)
  obtain rank where rank: "linked_by E (bs_consensus st) (headers (bs_by_hash st)) (length (bs_by_hash st)) rank"
    using inv by (auto simp: store_inv_def)
  obtain rank' where rank': "linked_by E (bs_consensus st) (headers (bs_by_hash st')) (length (bs_by_hash st')) rank'"
    using l(2) by blast
  obtain y where y: "headers (bs_by_hash st) tip = Some y" using old(1) by (auto simp: best_def)
  have "headers (bs_by_hash st) \<subseteq>\<^sub>m headers (bs_by_hash st')" using l(4) by (auto simp: l(3) map_le_def)
  then have canon: "canonical_index st' tip = canonical_index st tip"
    using canonical_index_ext [OF rank rank' y] by blast
  have best: "best (headers (bs_by_hash st')) tip"
    using best_extend [OF old(1) l(4)] side(10) by (simp add: l(3))
  have "indexed E st' t loc" if "hm_get (bs_tx_index st) t = Some loc" for t loc
  proof -
    have "indexed E st t loc" using inv that by (simp add: store_inv_def)
    then show ?thesis using side(2) by (auto simp: indexed_def get_block_def st' hm_simps)
  qed
  then show ?thesis
    using inv l(1,2) best canon old(2) by (simp add: store_inv_def store_wf_def st')
qed

lemma insert_validated_frame:
  assumes "insert_validated E block st = (r, st')"
  shows "bs_consensus st' = bs_consensus st" "bs_snapshots st' = bs_snapshots st"
proof -
  have "bs_consensus (snd (insert_validated E block st)) = bs_consensus st"
    "bs_snapshots (snd (insert_validated E block st)) = bs_snapshots st"
    by (simp_all add: insert_validated_def Let_def)
  then show "bs_consensus st' = bs_consensus st" "bs_snapshots st' = bs_snapshots st" using assms by simp_all
qed

text \<open>Each insertion either refuses and changes nothing, or inserts an accepted block.\<close>

lemma insert_genesis_cases:
  assumes ins: "insert_genesis E block st = (r, st')"
  obtains (refused) e where "r = Inl e" "st' = st"
  | (inserts) "insert_validated E block st = (r, st')" "block_validate E block = Inr ()"
      "accepted E (bs_consensus st) (headers (bs_by_hash st)) (blk_header block)"
proof (cases "hd_number (blk_header block) \<noteq> 0 \<or> hd_parent_hash (blk_header block) \<noteq> hash_zero 32")
  case True
  then show thesis using ins refused by (auto simp: insert_genesis_def)
next
  case False
  show thesis
  proof (cases "poa_validate_header E (bs_consensus st) (blk_header block) None")
    case (Inl e)
    then show thesis using ins False refused by (auto simp: insert_genesis_def)
  next
    case poa: (Inr u)
    show thesis
    proof (cases "block_validate E block")
      case (Inl e)
      then show thesis using ins False poa refused by (auto simp: insert_genesis_def)
    next
      case (Inr v)
      then show thesis using ins False poa by (intro inserts) (simp_all add: insert_genesis_def accepted_def)
    qed
  qed
qed

lemma insert_child_cases:
  assumes num: "hd_number x \<noteq> 0" and parent: "headers (bs_by_hash st) (hd_parent_hash x) = Some y"
    and "hd_number x = saturating_add_w (hd_number y) 1" "poa_validate_header E (bs_consensus st) x (Some y) = Inr u"
  shows "accepted E (bs_consensus st) (headers (bs_by_hash st)) x"
  using assms by (simp add: accepted_def)

lemma insert_block_cases:
  assumes ins: "insert_block E block st = (r, st')"
  obtains (refused) e where "r = Inl e" "st' = st"
  | (inserts) "insert_validated E block st = (r, st')" "block_validate E block = Inr ()"
      "accepted E (bs_consensus st) (headers (bs_by_hash st)) (blk_header block)"
proof (cases "hd_number (blk_header block) = 0")
  case True
  then have "insert_genesis E block st = (r, st')" using ins by (simp add: insert_block_def)
  then show thesis by (rule insert_genesis_cases) (use refused inserts in auto)
next
  case num: False
  let ?x = "blk_header block"
  show thesis
  proof (cases "get_block st (hd_parent_hash ?x)")
    case None
    then show thesis using ins num refused by (auto simp: insert_block_def)
  next
    case (Some p)
    note st = ins num Some
    show thesis
    proof (cases "hd_number ?x = saturating_add_w (hd_number (blk_header p)) 1")
      case False
      then show thesis using st refused by (auto simp: insert_block_def)
    next
      case n: True
      show thesis
      proof (cases "poa_validate_header E (bs_consensus st) ?x (Some (blk_header p))")
        case (Inl e)
        then show thesis using st n refused by (auto simp: insert_block_def)
      next
        case poa: (Inr u)
        show thesis
        proof (cases "block_validate E block")
          case (Inl e)
          then show thesis using st n poa refused by (auto simp: insert_block_def)
        next
          case (Inr v)
          have "headers (bs_by_hash st) (hd_parent_hash ?x) = Some (blk_header p)"
            using Some by (simp add: headers_def get_block_def)
          from insert_child_cases [OF num this n poa] show thesis
            using st n poa Inr by (intro inserts) (simp_all add: insert_block_def)
        qed
      qed
    qed
  qed
qed

lemma insert_header_cases:
  assumes ins: "insert_header E x st = (r, st')"
  obtains (refused) e where "r = Inl e" "st' = st"
  | (inserts) "insert_validated E \<lparr> blk_header = x, blk_transactions = [], blk_receipts = [] \<rparr> st = (r, st')"
      "accepted E (bs_consensus st) (headers (bs_by_hash st)) x"
proof (cases "hd_number x = 0 \<or> get_block st (hd_parent_hash x) = None")
  case True
  then show thesis using ins refused by (auto simp: insert_header_def split: if_splits)
next
  case False
  then obtain p where num: "hd_number x \<noteq> 0" and p: "get_block st (hd_parent_hash x) = Some p" by auto
  show thesis
  proof (cases "hd_number x = saturating_add_w (hd_number (blk_header p)) 1")
    case False
    then show thesis using ins num p refused by (auto simp: insert_header_def)
  next
    case n: True
    show thesis
    proof (cases "poa_validate_header E (bs_consensus st) x (Some (blk_header p))")
      case (Inl e)
      then show thesis using ins num p n refused by (auto simp: insert_header_def)
    next
      case poa: (Inr u)
      have "headers (bs_by_hash st) (hd_parent_hash x) = Some (blk_header p)"
        using p by (simp add: headers_def get_block_def)
      from insert_child_cases [OF num this n poa] show thesis
        using ins num p n poa by (intro inserts) (simp_all add: insert_header_def)
    qed
  qed
qed

lemma insert_block_inv: "store_inv E st \<Longrightarrow> insert_block E block st = (r, st') \<Longrightarrow> store_inv E st'"
  by (erule insert_block_cases) (auto intro: insert_validated_inv)

lemma insert_genesis_inv: "store_inv E st \<Longrightarrow> insert_genesis E block st = (r, st') \<Longrightarrow> store_inv E st'"
  by (erule insert_genesis_cases) (auto intro: insert_validated_inv)

lemma insert_header_inv: "store_inv E st \<Longrightarrow> insert_header E header st = (r, st') \<Longrightarrow> store_inv E st'"
  by (erule insert_header_cases) (auto intro: insert_validated_inv)

section \<open>Snapshots and pruning\<close>

lemma snapshots_frame [simp]:
  "canonical_index (st \<lparr> bs_snapshots := m \<rparr>) = canonical_index st"
  "indexed E (st \<lparr> bs_snapshots := m \<rparr>) = indexed E st"
  "walk_to_genesis (st \<lparr> bs_snapshots := m \<rparr>) = walk_to_genesis st"
  "get_block (st \<lparr> bs_snapshots := m \<rparr>) = get_block st"
  by (simp_all add: indexed_def get_block_def canonical_index_def walk_to_genesis_def fun_eq_iff)

lemma store_inv_snapshots:
  "store_inv E st \<Longrightarrow> hm_wf m \<Longrightarrow> store_inv E (st \<lparr> bs_snapshots := m \<rparr>)"
  by (simp add: store_inv_def store_wf_def split: option.splits)

lemma store_inv_wf: "store_inv E st \<Longrightarrow> hm_wf (bs_snapshots st)"
  by (simp add: store_inv_def store_wf_def)

lemma record_state_inv: "store_inv E st \<Longrightarrow> store_inv E (record_state h s st)"
  unfolding record_state_def
  by (rule store_inv_snapshots) (simp_all add: store_inv_def store_wf_def hm_simps)

lemma prune_snapshots_inv: "store_inv E st \<Longrightarrow> store_inv E (prune_snapshots st)"
  by (simp add: prune_snapshots_def Let_def store_inv_snapshots hm_retain_wf store_inv_wf split: option.split)

lemma get_drop: "hm_get (map (\<lambda>(h, b). (h, drop_body k b)) m) h = map_option (drop_body k) (hm_get m h)"
  unfolding hm_get_def by (induction m) auto

lemma drop_body_header [simp]: "blk_header (drop_body k b) = blk_header b"
  by (simp add: drop_body_def)

lemma headers_drop: "headers (map (\<lambda>(h, b). (h, drop_body k b)) m) = headers m"
  by (simp add: headers_def get_drop fun_eq_iff option.map_comp comp_def)

lemma parent_walk_headers: "headers m = headers m' \<Longrightarrow> parent_walk m n h = parent_walk m' n h"
proof (induction n arbitrary: h)
  case (Suc n)
  then show ?case
    by (cases "hm_get m h"; cases "hm_get m' h") (auto simp: headers_def fun_eq_iff dest: spec [of _ h])
qed simp

lemma number_of_map: "number_of m h = (case headers m h of Some x \<Rightarrow> hd_number x | None \<Rightarrow> 0)"
  by (simp add: number_of_def headers_def split: option.split)

lemma drop_bodies_walk:
  "walk_to_genesis (drop_bodies_below k ar st) tip = walk_to_genesis st tip"
  "canonical_index (drop_bodies_below k ar st) tip = canonical_index st tip"
  using parent_walk_headers [OF headers_drop, of k "bs_by_hash st"]
  by (simp_all add: drop_bodies_below_def walk_to_genesis_def canonical_index_def number_of_map headers_drop)

lemma drop_bodies_inv:
  assumes "store_inv E st"
  shows "store_inv E (drop_bodies_below k ar st)"
proof (cases ar)
  case False
  let ?st = "drop_bodies_below k ar st"
  have f: "bs_by_hash ?st = map (\<lambda>(h, b). (h, drop_body k b)) (bs_by_hash st)" "bs_head ?st = bs_head st"
    "bs_by_number ?st = bs_by_number st" "bs_snapshots ?st = bs_snapshots st" "bs_tx_index ?st = bs_tx_index st"
    "bs_consensus ?st = bs_consensus st"
    using False by (simp_all add: drop_bodies_below_def)
  have "indexed E ?st t loc" if ix: "indexed E st t loc" for t loc
  proof -
    obtain b where b: "hm_get (bs_by_hash st) (tl_block_hash loc) = Some b"
      and r: "blk_transactions b = [] \<or>
        tl_index loc < length (blk_transactions b) \<and> tx_hash E (blk_transactions b ! tl_index loc) = t"
      using ix by (auto simp: indexed_def get_block_def)
    have "blk_transactions (drop_body k b) = [] \<or> blk_transactions (drop_body k b) = blk_transactions b"
      by (simp add: drop_body_def)
    then show ?thesis using ix b r by (auto simp: indexed_def get_block_def f get_drop)
  qed
  moreover have "map fst (map (\<lambda>(h, b). (h, drop_body k b)) (bs_by_hash st)) = map fst (bs_by_hash st)" by auto
  ultimately show ?thesis using assms
    by (auto simp: store_inv_def store_wf_def f headers_drop drop_bodies_walk hm_wf_def
        simp del: map_map split: option.splits)
qed (use assms in \<open>simp add: drop_bodies_below_def\<close>)

lemma prune_snapshots_keep_inv: "store_inv E st \<Longrightarrow> store_inv E (prune_snapshots_keep E keep st)"
proof -
  assume "store_inv E st"
  then have "store_inv E (prune_snapshots st)" by (rule prune_snapshots_inv)
  then show ?thesis
    by (simp add: prune_snapshots_keep_def Let_def store_inv_snapshots drop_bodies_inv hm_retain_wf
        store_inv_wf [OF drop_bodies_inv] split: option.split)
qed

section \<open>Reachable stores\<close>

inductive store_reach :: "'z core_env_scheme \<Rightarrow> poa_config \<Rightarrow> block_store \<Rightarrow> bool" for E cfg where
  sr_new: "store_reach E cfg (store_new cfg)"
| sr_genesis: "store_reach E cfg st \<Longrightarrow> insert_genesis E b st = (r, st') \<Longrightarrow> store_reach E cfg st'"
| sr_block: "store_reach E cfg st \<Longrightarrow> insert_block E b st = (r, st') \<Longrightarrow> store_reach E cfg st'"
| sr_header: "store_reach E cfg st \<Longrightarrow> insert_header E h st = (r, st') \<Longrightarrow> store_reach E cfg st'"
| sr_record: "store_reach E cfg st \<Longrightarrow> store_reach E cfg (record_state h s st)"
| sr_drop: "store_reach E cfg st \<Longrightarrow> store_reach E cfg (drop_bodies_below k ar st)"
| sr_prune: "store_reach E cfg st \<Longrightarrow> store_reach E cfg (prune_snapshots st)"
| sr_prune_keep: "store_reach E cfg st \<Longrightarrow> store_reach E cfg (prune_snapshots_keep E k st)"

lemma store_reach_inv: "store_reach E cfg st \<Longrightarrow> store_inv E st"
  by (induction rule: store_reach.induct)
    (auto intro: store_inv_new insert_genesis_inv insert_block_inv insert_header_inv record_state_inv
      drop_bodies_inv prune_snapshots_inv prune_snapshots_keep_inv)

section \<open>A sample store\<close>

definition sample_receipt :: receipt where
  "sample_receipt = \<lparr> rc_tx_hash = [], rc_block_number = 0, rc_gas_used = 0, rc_status = True, rc_logs = [] \<rparr>"

definition genesis_header :: block_header where
  "genesis_header = sample_header \<lparr> hd_number := 0,
     hd_transactions_root := list_root_txs ref_core [exec_tx None],
     hd_receipts_root := list_root_receipts ref_core [sample_receipt] \<rparr>"

definition sample_miner :: address where
  "sample_miner = address_from_secret ref_core sample_key"

definition genesis_sealed :: block_header where
  "genesis_sealed = projr (poa_seal_header ref_core sample_poa genesis_header sample_miner sample_key)"

definition genesis_sample :: block where
  "genesis_sample = \<lparr> blk_header = genesis_sealed, blk_transactions = [exec_tx None], blk_receipts = [sample_receipt] \<rparr>"

definition store_sample :: block_store where
  "store_sample = snd (insert_genesis ref_core genesis_sample (store_new sample_poa))"

lemma genesis_seal: "poa_seal_header ref_core sample_poa genesis_header sample_miner sample_key = Inr genesis_sealed"
  by (simp add: genesis_sealed_def poa_seal_header_def poa_is_validator_def sample_poa_fields sample_miner_def
      encode_signatures_def Let_def)

lemma genesis_fields:
  "hd_number genesis_sealed = 0" "hd_parent_hash genesis_sealed = hash_zero 32"
  "hd_gas_used genesis_sealed = 0" "hd_gas_limit genesis_sealed = 100"
  "hd_transactions_root genesis_sealed = list_root_txs ref_core [exec_tx None]"
  "hd_receipts_root genesis_sealed = list_root_receipts ref_core [sample_receipt]"
  by (subst poa_seal_header_Inr(5) [OF genesis_seal]; simp add: genesis_header_def sample_header_def)+

lemma genesis_inserts:
  "store_reach ref_core sample_poa store_sample"
  "bs_head store_sample = Some (block_hash ref_core genesis_sample)"
  "get_block store_sample (block_hash ref_core genesis_sample) = Some genesis_sample"
  "get_transaction store_sample (tx_hash ref_core (exec_tx None)) =
     Some (exec_tx None, \<lparr> tl_block_hash = block_hash ref_core genesis_sample, tl_block_number = 0, tl_index = 0 \<rparr>)"
proof -
  have "poa_validate_header ref_core sample_poa genesis_sealed None = Inr ()"
    by (rule sealed_header_validates [OF ref_core_ed25519_laws _ genesis_seal])
      (simp_all add: sample_poa_fields sample_miner_def)
  then have ins: "insert_genesis ref_core genesis_sample (store_new sample_poa)
      = insert_validated ref_core genesis_sample (store_new sample_poa)"
    by (simp add: insert_genesis_def genesis_sample_def genesis_fields store_new_def block_validate_def)
  show "store_reach ref_core sample_poa store_sample"
    unfolding store_sample_def by (rule sr_genesis [OF sr_new]) (rule prod.collapse [symmetric])
  show "bs_head store_sample = Some (block_hash ref_core genesis_sample)"
    "get_block store_sample (block_hash ref_core genesis_sample) = Some genesis_sample"
    unfolding store_sample_def ins
    by (simp_all add: insert_validated_def maybe_update_head takes_head_def
        store_new_def Let_def get_block_def hm_simps)
  show "get_transaction store_sample (tx_hash ref_core (exec_tx None)) =
     Some (exec_tx None, \<lparr> tl_block_hash = block_hash ref_core genesis_sample, tl_block_number = 0, tl_index = 0 \<rparr>)"
    unfolding store_sample_def ins
    by (simp add: insert_validated_def takes_head_def maybe_update_canonical_def
        rebuild_canonical_def walk_to_genesis_def number_of_def rebuild_tx_index_def head_block_def
        get_block_by_number_def index_block_def get_transaction_def
        store_new_def Let_def get_block_def hm_simps genesis_sample_def genesis_fields
        hm_insert_fresh hm_get_def)
qed

section \<open>Properties\<close>

text \<open>
  C4: fork choice. In every reachable store each block is filed under its hash, the head is
  set as soon as there is a block, and it is the best block stored: none is higher, and none
  at its height has a smaller hash.
\<close>

theorem store_fork_choice:
  assumes "store_reach E cfg st"
  shows "(\<forall>h b. get_block st h = Some b \<longrightarrow> block_hash E b = h) \<and>
    (case bs_head st of
       None \<Rightarrow> bs_by_hash st = []
     | Some tip \<Rightarrow> \<exists>t. get_block st tip = Some t \<and>
         (\<forall>h b. get_block st h = Some b \<longrightarrow>
            hd_number (blk_header b) < hd_number (blk_header t) \<or>
            hd_number (blk_header b) = hd_number (blk_header t) \<and> tip \<le> h))"
proof -
  note inv = store_reach_inv [OF assms]
  have "\<exists>t. get_block st tip = Some t \<and>
         (\<forall>h b. get_block st h = Some b \<longrightarrow>
            hd_number (blk_header b) < hd_number (blk_header t) \<or>
            hd_number (blk_header b) = hd_number (blk_header t) \<and> tip \<le> h)" if tip: "bs_head st = Some tip" for tip
  proof -
    obtain y where y: "headers (bs_by_hash st) tip = Some y"
      and best: "\<And>h x. headers (bs_by_hash st) h = Some x \<Longrightarrow>
          hd_number x < hd_number y \<or> hd_number x = hd_number y \<and> tip \<le> h"
      using inv tip by (auto simp: store_inv_def best_def)
    obtain t where t: "get_block st tip = Some t" "blk_header t = y"
      using y by (auto simp: headers_def get_block_def)
    have "headers (bs_by_hash st) h = Some (blk_header b)" if "get_block st h = Some b" for h b
      using that by (simp add: headers_def get_block_def)
    then show ?thesis using t best by blast
  qed
  then show ?thesis using inv store_inv_hash [OF inv] by (auto simp: store_inv_def split: option.split)
qed

theorem store_fork_choice_witness:
  "\<exists>t. get_block store_sample (block_hash ref_core genesis_sample) = Some t \<and>
     (\<forall>h b. get_block store_sample h = Some b \<longrightarrow> hd_number (blk_header b) \<le> hd_number (blk_header t))"
  using store_fork_choice [OF genesis_inserts(1)] genesis_inserts(2) by fastforce

text \<open>
  C27: every stored chain is whole. From any stored block (below the largest height) the
  parent walk ends at a genesis block; it lists one block per height, each the hash-linked
  parent of the next, with timestamps that never decrease and, after genesis, validators as
  miners. For the head, the height index is exactly this chain.
\<close>

theorem store_chain_whole:
  assumes "store_reach E cfg st" "get_block st h = Some b" "hd_number (blk_header b) \<noteq> - 1"
  shows "let c = chain_from st h; x = (\<lambda>a. blk_header (the (get_block st a))) in
    last c = h \<and> map (\<lambda>a. unat (hd_number (x a))) c = [0..<Suc (unat (hd_number (blk_header b)))] \<and>
    successively (\<lambda>p a. hd_parent_hash (x a) = p) c \<and>
    sorted (map (\<lambda>a. hd_timestamp (x a)) c) \<and>
    (\<forall>a \<in> set (tl c). poa_is_validator (bs_consensus st) (hd_miner (x a))) \<and>
    (bs_head st = Some h \<longrightarrow>
       (\<forall>n a. hm_get (bs_by_number st) n = Some a \<longleftrightarrow> a \<in> set c \<and> hd_number (x a) = n))"
proof -
  note inv = store_reach_inv [OF assms(1)]
  let ?H = "headers (bs_by_hash st)" and ?x = "\<lambda>a. blk_header (the (get_block st a))"
  obtain rank where rank: "linked_by E (bs_consensus st) ?H (length (bs_by_hash st)) rank"
    using inv by (auto simp: store_inv_def)
  have H: "?H h = Some (blk_header b)" using assms(2) by (simp add: headers_def get_block_def)
  have a: "ancestry ?H h (walk_to_genesis st h)" by (rule walk_linked [OF rank H])
  let ?w = "walk_to_genesis st h"
  have x: "the (?H a) = ?x a \<and> number_of (bs_by_hash st) a = hd_number (?x a)" if a: "a \<in> set ?w" for a
    using ancestry_known [OF \<open>ancestry ?H h ?w\<close> a] by (auto simp: headers_def get_block_def number_of_def)
  have links: "successively (\<lambda>a p. hd_parent_hash (?x a) = p \<and>
      poa_validate_header E (bs_consensus st) (?x a) (Some (?x p)) = Inr ()) ?w"
    by (rule successively_mono [OF ancestry_links [OF a rank]]) (use x in auto)
  let ?c = "rev ?w"
  have ends: "last ?c = h" using ancestry_ends [OF a] by (simp add: last_rev)
  have "map (\<lambda>a. unat (hd_number (?x a))) ?w = map (\<lambda>a. unat (hd_number (the (?H a)))) ?w" using x by simp
  then have nums: "map (\<lambda>a. unat (hd_number (?x a))) ?c = [0..<Suc (unat (hd_number (blk_header b)))]"
    using ancestry_numbers [OF a rank H assms(3)] by (simp add: rev_map [symmetric] del: upt_Suc)
  have up: "successively (\<lambda>p a. hd_parent_hash (?x a) = p \<and>
      poa_validate_header E (bs_consensus st) (?x a) (Some (?x p)) = Inr ()) ?c"
    using links by simp
  then have valid: "successively (\<lambda>p h. \<exists>u. poa_validate_header E (bs_consensus st) h (Some p) = Inr u) (map ?x ?c)"
    unfolding successively_map by (rule successively_mono) auto
  have times: "sorted (map (\<lambda>a. hd_timestamp (?x a)) ?c)"
    using poa.validated_times [OF valid] by (simp add: comp_def)
  have miners: "poa_is_validator (bs_consensus st) (hd_miner (?x a))" if "a \<in> set (tl ?c)" for a
    using poa.validated_miners [OF valid, of "?x a"] that by (simp add: map_tl [symmetric])
  have parents: "successively (\<lambda>p a. hd_parent_hash (?x a) = p) ?c"
    by (rule successively_mono [OF up]) auto
  have "hm_get (bs_by_number st) n = Some a \<longleftrightarrow> a \<in> set ?c \<and> hd_number (?x a) = n" if "bs_head st = Some h" for n a
  proof -
    have "bs_by_number st = canonical_index st h" using inv that by (simp add: store_inv_def)
    then show ?thesis
      using canonical_index_sound [of st h n a] canonical_index_complete [OF rank H assms(3), of a] x [of a] by auto
  qed
  then show ?thesis using ends nums times miners parents by (simp add: Let_def chain_from_def)
qed

theorem store_chain_whole_witness:
  "hm_get (bs_by_number store_sample) 0 = Some (block_hash ref_core genesis_sample)"
proof -
  let ?h = "block_hash ref_core genesis_sample"
  have n: "hd_number (blk_header genesis_sample) = 0" by (simp add: genesis_sample_def genesis_fields)
  note whole = store_chain_whole [OF genesis_inserts(1,3)]
  then have "\<exists>a. a \<in> set (chain_from store_sample ?h) \<and> a = ?h"
    using n by (auto simp: Let_def intro!: last_in_set)
  then show ?thesis using whole n genesis_inserts(2,3) by (auto simp: Let_def)
qed

text \<open>
  C28: the transaction index is sound. A transaction that a reachable store returns for a
  hash has that hash and is at the recorded position of the canonical block at the recorded
  height.
\<close>

theorem store_transaction_lookup:
  assumes "store_reach E cfg st" "get_transaction st t = Some (tx, loc)"
  shows "tx_hash E tx = t \<and>
    hm_get (bs_by_number st) (tl_block_number loc) = Some (tl_block_hash loc) \<and>
    (\<exists>b. get_block_by_number st (tl_block_number loc) = Some b \<and>
       tl_index loc < length (blk_transactions b) \<and> blk_transactions b ! tl_index loc = tx)"
proof -
  obtain b where b: "hm_get (bs_tx_index st) t = Some loc" "get_block st (tl_block_hash loc) = Some b"
    "tl_index loc < length (blk_transactions b)" "tx = blk_transactions b ! tl_index loc"
    using assms(2) by (auto simp: get_transaction_def split: option.splits if_splits)
  have "indexed E st t loc" using store_reach_inv [OF assms(1)] b(1) by (simp add: store_inv_def)
  then show ?thesis using b by (auto simp: indexed_def get_block_by_number_def)
qed

theorem store_transaction_lookup_witness:
  "\<exists>b. get_block_by_number store_sample 0 = Some b \<and> blk_transactions b ! 0 = exec_tx None"
  using store_transaction_lookup [OF genesis_inserts(1,4)] by auto

end
