(* ===== verification/Chain.thy ===== *)
theory Chain
  imports Store TxPool "HOL-Library.Product_Lexorder"
begin

text \<open>
  Import and production of blocks, \<open>crates/ivory-chain/src/apply.rs\<close> and \<open>producer.rs\<close>. An
  import runs the block on a fork of its parent's snapshot, compares state roots, inserts the
  block and, when the head moves, resets the live state and repairs the mempool.
\<close>

section \<open>Import\<close>

text \<open>The loop over the block's transactions; the fork is discarded when one fails.\<close>

fun execute_all ::
  "'z vm_env_scheme \<Rightarrow> gas_config \<Rightarrow> transaction list \<Rightarrow> execution_context \<Rightarrow> state_db \<Rightarrow>
   execution_error + execution_context \<times> state_db" where
  "execute_all E cfg [] ctx s = Inr (ctx, s)"
| "execute_all E cfg (tx # txs) ctx s =
     (case execute_transaction E cfg tx ctx s of
        (Inl e, _) \<Rightarrow> Inl e
      | (Inr _, ctx', s') \<Rightarrow> execute_all E cfg txs ctx' s')"

definition txs_on_path :: "block_store \<Rightarrow> h256 \<Rightarrow> transaction list" where
  "txs_on_path st tip =
     concat (map (\<lambda>hash. case get_block st hash of Some block \<Rightarrow> blk_transactions block | None \<Rightarrow> [])
       (chain_from st tip))"

definition apply_head_change ::
  "'z core_env_scheme \<Rightarrow> block_store \<Rightarrow> insert_outcome \<Rightarrow> state_db \<Rightarrow> transaction_pool \<Rightarrow>
   state_db \<times> transaction_pool" where
  "apply_head_change E st outcome live pool =
     (let live' = (case state_at st (io_new_head outcome) of
                     Some post \<Rightarrow> state_reset_from live post | None \<Rightarrow> live);
          old_txs = (case io_old_head outcome of Some h \<Rightarrow> txs_on_path st h | None \<Rightarrow> []);
          new_txs = txs_on_path st (io_new_head outcome);
          new_hashes = set (map (tx_hash E) new_txs);
          pool1 = fold (\<lambda>tx p. if tx_hash E tx \<notin> new_hashes
                                 then snd (add_transaction E tx Local p) else p) old_txs pool;
          pool2 = fold (\<lambda>tx p. snd (pool_remove (tx_hash E tx) p)) new_txs pool1
      in (live', pool2))"

definition import_and_apply ::
  "'z vm_env_scheme \<Rightarrow> block \<Rightarrow> block_store \<Rightarrow> state_db \<Rightarrow> transaction_pool \<Rightarrow>
   (chain_error + insert_outcome) \<times> block_store \<times> state_db \<times> transaction_pool" where
  "import_and_apply E block st live pool =
     (case state_at st (hd_parent_hash (blk_header block)) of
        None \<Rightarrow> (Inl UnknownParentState, st, live, pool)
      | Some parent_state \<Rightarrow>
     (case execute_all E gas_config_default (blk_transactions block)
             (execution_context_new (hd_number (blk_header block)) (hd_timestamp (blk_header block)))
             parent_state of
        Inl e \<Rightarrow> (Inl (ExecutionFailed e), st, live, pool)
      | Inr (ctx, trial) \<Rightarrow>
     (let (root, trial') = root_hash E trial
      in if root \<noteq> hd_state_root (blk_header block) then (Inl InvalidStateRoot, st, live, pool)
         else case insert_block E block st of
           (Inl e, st1) \<Rightarrow> (Inl e, st1, live, pool)
         | (Inr outcome, st1) \<Rightarrow>
             (let st2 = record_state (io_hash outcome) (state_fork trial') st1
              in if io_head_changed outcome
                 then let (live', pool') = apply_head_change E st2 outcome live pool
                      in (Inr outcome, st2, live', pool')
                 else (Inr outcome, st2, live, pool)))))"

section \<open>Production\<close>

fun produce_txs ::
  "'z vm_env_scheme \<Rightarrow> gas_config \<Rightarrow> transaction list \<Rightarrow> execution_context \<Rightarrow> state_db \<Rightarrow>
   (transaction \<times> receipt) list \<times> execution_context \<times> state_db" where
  "produce_txs E cfg [] ctx s = ([], ctx, s)"
| "produce_txs E cfg (tx # txs) ctx s =
     (case execute_transaction E cfg tx ctx s of
        (Inr out, ctx', s') \<Rightarrow>
          (case produce_txs E cfg txs ctx' s' of
             (included, rest) \<Rightarrow> ((tx, eo_receipt out) # included, rest))
      | (Inl _, ctx', s') \<Rightarrow> produce_txs E cfg txs ctx' s')"

record produce_params =
  pp_parent :: block
  pp_pool :: transaction_pool
  pp_consensus :: poa_config
  pp_miner :: address
  pp_miner_key :: secret_key
  pp_timestamp :: u64
  pp_max_txs :: nat

definition producer_new :: u64 where
  "producer_new = gc_max_gas_per_block gas_config_default"

definition produce_order :: "produce_params \<Rightarrow> transaction list" where
  "produce_order pp =
     sort_key (\<lambda>tx. (tx_from tx, tx_nonce tx)) (get_pending (pp_max_txs pp) (pp_pool pp))"

definition produce_context :: "produce_params \<Rightarrow> execution_context" where
  "produce_context pp =
     (execution_context_new (saturating_add_w (hd_number (blk_header (pp_parent pp))) 1) (pp_timestamp pp))
       \<lparr> ec_beneficiary := pp_miner pp \<rparr>"

text \<open>\<open>cfg\<close> and \<open>s\<close> are the executor's gas schedule and state.\<close>

definition produce_block ::
  "'z vm_env_scheme \<Rightarrow> u64 \<Rightarrow> produce_params \<Rightarrow> gas_config \<Rightarrow> state_db \<Rightarrow>
   (chain_error + block) \<times> state_db" where
  "produce_block E gas_limit pp cfg s =
     (let (included, ctx, s1) = produce_txs E cfg (produce_order pp) (produce_context pp) s;
          (root, s2) = root_hash E s1;
          header = \<lparr> hd_number = saturating_add_w (hd_number (blk_header (pp_parent pp))) 1,
                     hd_parent_hash = block_hash E (pp_parent pp),
                     hd_timestamp = pp_timestamp pp,
                     hd_miner = pp_miner pp,
                     hd_gas_limit = gas_limit,
                     hd_gas_used = ec_gas_used ctx,
                     hd_state_root = root,
                     hd_transactions_root = list_root_txs E (map fst included),
                     hd_receipts_root = list_root_receipts E (map snd included),
                     hd_difficulty = U256_ZERO,
                     hd_extra_data = [] \<rparr>
      in (case poa_seal_header E (pp_consensus pp) header (pp_miner pp) (pp_miner_key pp) of
            Inl e \<Rightarrow> Inl (ConsensusRejected e)
          | Inr sealed \<Rightarrow>
              Inr \<lparr> blk_header = sealed, blk_transactions = map fst included,
                    blk_receipts = map snd included \<rparr>, s2))"

section \<open>Runs of transactions\<close>

lemma execute_all_inv:
  "execute_all E cfg txs ctx s = Inr (ctx', s') \<Longrightarrow> state_inv E s \<Longrightarrow> state_inv E s'"
  by (induction E cfg txs ctx s rule: execute_all.induct)
    (auto split: sum.splits prod.splits dest: execute_transaction_inv)

lemma execute_all_total:
  "execute_all E cfg txs ctx s = Inr (ctx', s') \<Longrightarrow> total_balance s' \<le> total_balance s"
  by (induction E cfg txs ctx s rule: execute_all.induct)
    (force split: sum.splits prod.splits dest: execute_transaction_total)+

text \<open>The beneficiary is recorded and nothing else.\<close>

lemma buy_gas_beneficiary: "buy_gas cfg tx (ctx \<lparr> ec_beneficiary := b \<rparr>) s = buy_gas cfg tx ctx s"
proof -
  have "ec_gas_used (ctx \<lparr> ec_beneficiary := b \<rparr>) = ec_gas_used ctx" by simp
  then show ?thesis unfolding buy_gas_def by (simp only:)
qed

lemma execute_transaction_beneficiary:
  "execute_transaction E cfg tx (ctx \<lparr> ec_beneficiary := b \<rparr>) s =
   (case execute_transaction E cfg tx ctx s of (r, c, s') \<Rightarrow> (r, c \<lparr> ec_beneficiary := b \<rparr>, s'))"
  by (simp add: execute_transaction_def buy_gas_beneficiary execution_receipt_def Let_def
      split: sum.split prod.split)

text \<open>A production run in which every skipped transaction failed before it was paid for.\<close>

fun vm_clean :: "'z vm_env_scheme \<Rightarrow> gas_config \<Rightarrow> transaction list \<Rightarrow> execution_context \<Rightarrow> state_db \<Rightarrow> bool" where
  "vm_clean E cfg [] ctx s = True"
| "vm_clean E cfg (tx # txs) ctx s =
     (case execute_transaction E cfg tx ctx s of
        (Inr _, ctx', s') \<Rightarrow> vm_clean E cfg txs ctx' s'
      | (Inl e, ctx', s') \<Rightarrow> (\<forall>msg. e \<noteq> VmFailed msg) \<and> vm_clean E cfg txs ctx' s')"

lemma produce_txs_inv:
  "produce_txs E cfg txs ctx s = (inc, ctx', s') \<Longrightarrow> state_inv E s \<Longrightarrow> state_inv E s'"
  by (induction E cfg txs ctx s arbitrary: inc rule: produce_txs.induct)
    (auto split: sum.splits prod.splits dest: execute_transaction_inv)

text \<open>
  The included transactions of a clean run execute again from the same state with the same
  result, and the gas counter stays within the cap.
\<close>

lemma produce_txs_replay:
  "produce_txs E cfg txs ctx s = (inc, ctx', s') \<Longrightarrow> total_balance s < 2 ^ 256 \<Longrightarrow> vm_clean E cfg txs ctx s \<Longrightarrow>
   execute_all E cfg (map fst inc) ctx s = Inr (ctx', s') \<and>
   (ec_gas_used ctx \<le> gc_max_gas_per_block cfg \<longrightarrow> ec_gas_used ctx' \<le> gc_max_gas_per_block cfg)"
proof (induction txs arbitrary: ctx s inc)
  case (Cons tx txs)
  obtain r c1 s1 where ex: "execute_transaction E cfg tx ctx s = (r, c1, s1)" by (metis prod_cases3)
  show ?case
  proof (cases r)
    case (Inl e)
    have run: "execute_transaction E cfg tx ctx s = (Inl e, c1, s1)" using ex Inl by simp
    have "c1 = ctx \<and> s1 = s"
      using Cons.prems(2) run
    proof (cases rule: failed_transaction)
      case (contract msg m acc s2)
      then show ?thesis using Cons.prems(3) run by simp
    qed simp
    then show ?thesis using Cons.IH [of ctx s inc] Cons.prems run by simp
  next
    case (Inr out)
    have run: "execute_transaction E cfg tx ctx s = (Inr out, c1, s1)" using ex Inr by simp
    obtain inc' where inc: "produce_txs E cfg txs c1 s1 = (inc', ctx', s')" "inc = (tx, eo_receipt out) # inc'"
      using Cons.prems(1) run by (auto split: prod.splits)
    have "total_balance s1 < 2 ^ 256" using execute_transaction_total [OF run] Cons.prems(2) by linarith
    moreover have "vm_clean E cfg txs c1 s1" using Cons.prems(3) run by simp
    ultimately show ?thesis
      using Cons.IH [OF inc(1)] execute_transaction_cap [OF run] run inc(2) by simp
  qed
qed simp

lemma execute_all_beneficiary:
  "execute_all E cfg txs (ctx \<lparr> ec_beneficiary := b \<rparr>) s = Inr (ctx', s') \<Longrightarrow>
   \<exists>c. execute_all E cfg txs ctx s = Inr (c, s')"
proof (induction txs arbitrary: ctx s)
  case (Cons tx txs)
  then show ?case
    by (auto simp: execute_transaction_beneficiary split: prod.splits sum.splits)
qed simp

section \<open>What an import does\<close>

lemma insert_validated_Inl: "insert_validated E block st = (Inl e, st') \<Longrightarrow> st' = st"
  by (simp add: insert_validated_def Let_def split: if_splits)

lemma insert_block_Inl: "insert_block E block st = (Inl e, st') \<Longrightarrow> st' = st"
  by (erule insert_block_cases) (auto dest: insert_validated_Inl)

lemma insert_block_Inr:
  assumes inv: "store_inv E st" and ins: "insert_block E block st = (Inr out, st')"
  shows "io_hash out = block_hash E block" "get_block st (block_hash E block) = None"
    "bs_by_hash st' = hm_insert (block_hash E block) block (bs_by_hash st)"
    "bs_snapshots st' = bs_snapshots st" "bs_consensus st' = bs_consensus st"
    "io_old_head out = bs_head st"
    "bs_head st' = (if io_head_changed out then Some (block_hash E block) else bs_head st)"
    "io_head_changed out \<Longrightarrow> io_new_head out = block_hash E block"
    "accepted E (bs_consensus st) (headers (bs_by_hash st)) (blk_header block)"
proof -
  have v: "insert_validated E block st = (Inr out, st')"
    and acc: "accepted E (bs_consensus st) (headers (bs_by_hash st)) (blk_header block)"
    using ins by (auto elim: insert_block_cases)
  show "accepted E (bs_consensus st) (headers (bs_by_hash st)) (blk_header block)" by (rule acc)
  show "bs_snapshots st' = bs_snapshots st" "bs_consensus st' = bs_consensus st"
    using insert_validated_frame [OF v] by simp_all
  show "io_hash out = block_hash E block" "get_block st (block_hash E block) = None"
    "bs_by_hash st' = hm_insert (block_hash E block) block (bs_by_hash st)"
    "io_old_head out = bs_head st"
    "bs_head st' = (if io_head_changed out then Some (block_hash E block) else bs_head st)"
    "io_head_changed out \<Longrightarrow> io_new_head out = block_hash E block"
    by (rule insert_validated_cases [OF inv v]; simp)+
qed

lemma import_cases:
  assumes "import_and_apply E block st live pool = (r, st', live', pool')"
  obtains (refused) e where "r = Inl e" "st' = st" "live' = live" "pool' = pool"
  | (imported) out ps ctx trial st1 where "r = Inr out"
      "state_at st (hd_parent_hash (blk_header block)) = Some ps"
      "execute_all E gas_config_default (blk_transactions block)
         (execution_context_new (hd_number (blk_header block)) (hd_timestamp (blk_header block))) ps = Inr (ctx, trial)"
      "fst (root_hash E trial) = hd_state_root (blk_header block)"
      "insert_block E block st = (Inr out, st1)"
      "st' = record_state (io_hash out) (snd (root_hash E trial)) st1"
      "(live', pool') = (if io_head_changed out then apply_head_change E st' out live pool else (live, pool))"
proof (cases "state_at st (hd_parent_hash (blk_header block))")
  case None
  then show thesis using assms refused by (auto simp: import_and_apply_def)
next
  case (Some ps)
  let ?run = "execute_all E gas_config_default (blk_transactions block)
     (execution_context_new (hd_number (blk_header block)) (hd_timestamp (blk_header block))) ps"
  show thesis
  proof (cases ?run)
    case (Inl e)
    then show thesis using assms Some refused by (auto simp: import_and_apply_def)
  next
    case (Inr p)
    obtain ctx trial where run: "?run = Inr (ctx, trial)" using Inr by (cases p) simp
    obtain root trial' where root: "root_hash E trial = (root, trial')" by fastforce
    obtain q st1 where ins: "insert_block E block st = (q, st1)" by fastforce
    note st = assms Some run root ins
    show thesis
    proof (cases "root = hd_state_root (blk_header block)")
      case False
      then show thesis using st refused by (auto simp: import_and_apply_def)
    next
      case eq: True
      show thesis
      proof (cases q)
        case (Inl e)
        then show thesis using st eq refused insert_block_Inl [of E block st e st1]
          by (auto simp: import_and_apply_def)
      next
        case (Inr out)
        then show thesis using st eq
          by (intro imported [of out ps ctx trial st1])
            (auto simp: import_and_apply_def Let_def split: if_splits prod.splits)
      qed
    qed
  qed
qed

section \<open>The chain invariant\<close>

text \<open>
  Every snapshot is the well-formed post-state of a stored block and hashes to the state
  root in its header; the live state is the snapshot of the head.
\<close>

definition snapshot_ok :: "'z vm_env_scheme \<Rightarrow> block_store \<Rightarrow> h256 \<Rightarrow> state_db \<Rightarrow> bool" where
  "snapshot_ok E st h s \<longleftrightarrow>
     state_inv E s \<and> (\<exists>b. get_block st h = Some b \<and> fst (root_hash E s) = hd_state_root (blk_header b))"

definition chain_inv :: "'z vm_env_scheme \<Rightarrow> block_store \<Rightarrow> state_db \<Rightarrow> bool" where
  "chain_inv E st live \<longleftrightarrow>
     store_inv E st \<and>
     (\<forall>h s. hm_get (bs_snapshots st) h = Some s \<longrightarrow> snapshot_ok E st h s) \<and>
     (\<forall>tip. bs_head st = Some tip \<longrightarrow> hm_get (bs_snapshots st) tip = Some live)"

lemma import_effect:
  assumes inv: "chain_inv E st live"
    and imp: "import_and_apply E block st live pool = (Inr out, st', live', pool')"
  obtains ps ctx s where
    "hm_get (bs_snapshots st) (hd_parent_hash (blk_header block)) = Some ps"
    "execute_all E gas_config_default (blk_transactions block)
       (execution_context_new (hd_number (blk_header block)) (hd_timestamp (blk_header block))) ps = Inr (ctx, s)"
    "state_inv E s" "fst (root_hash E s) = hd_state_root (blk_header block)"
    "io_hash out = block_hash E block" "get_block st (block_hash E block) = None"
    "store_inv E st'" "bs_consensus st' = bs_consensus st"
    "get_block st' = (get_block st)(block_hash E block \<mapsto> block)"
    "\<And>h. hm_get (bs_snapshots st') h = (if h = block_hash E block then Some s else hm_get (bs_snapshots st) h)"
    "bs_head st' = (if io_head_changed out then Some (block_hash E block) else bs_head st)"
    "live' = (if io_head_changed out then s else live)"
    "accepted E (bs_consensus st) (headers (bs_by_hash st)) (blk_header block)"
  using imp
proof (cases rule: import_cases)
  case (imported out' ps ctx trial st1)
  have out: "out' = out" using imported(1) by simp
  have sinv: "store_inv E st" using inv by (simp add: chain_inv_def)
  note ins = insert_block_Inr [OF sinv imported(5)]
  have ps: "hm_get (bs_snapshots st) (hd_parent_hash (blk_header block)) = Some ps"
    using imported(2) by (auto simp: state_at_def)
  have "state_inv E ps" using inv ps by (auto simp: chain_inv_def snapshot_ok_def)
  then have tr: "state_inv E trial" by (rule execute_all_inv [OF imported(3)])
  have st': "st' = record_state (block_hash E block) trial st1"
    using imported(6) by (simp add: root_hash_inv [OF tr] ins(1))
  have snap: "hm_get (bs_snapshots st') h = (if h = block_hash E block then Some trial else hm_get (bs_snapshots st) h)" for h
    by (simp add: st' record_state_def ins(4) hm_simps)
  have live: "live' = (if io_head_changed out then trial else live)"
    using imported(7) out ins(8) snap [of "block_hash E block"]
    by (auto simp: apply_head_change_def Let_def state_at_def split: if_splits)
  have heads: "bs_head st' = (if io_head_changed out then Some (block_hash E block) else bs_head st)"
    using ins(7) out by (simp add: st' record_state_def)
  have blocks: "get_block st' = (get_block st)(block_hash E block \<mapsto> block)"
    by (simp add: st' record_state_def get_block_def ins(3) fun_eq_iff hm_simps)
  show thesis
  proof (rule that [OF ps imported(3) tr imported(4) _ ins(2) _ _ blocks snap heads live ins(9)])
    show "store_inv E st'" unfolding st' by (rule record_state_inv [OF insert_block_inv [OF sinv imported(5)]])
  qed (simp_all add: out ins st' record_state_def flip: out)
qed simp

lemma chain_snapshot:
  assumes "chain_inv E st live" "hm_get (bs_snapshots st) h = Some s"
  shows "state_inv E s" "\<exists>b. get_block st h = Some b \<and> fst (root_hash E s) = hd_state_root (blk_header b)"
  using assms by (auto simp: chain_inv_def snapshot_ok_def)

lemma import_inv:
  assumes inv: "chain_inv E st live"
    and imp: "import_and_apply E block st live pool = (r, st', live', pool')"
  shows "chain_inv E st' live'"
proof (cases r)
  case (Inl e)
  then show ?thesis using imp inv by (auto elim: import_cases)
next
  case (Inr out)
  have imp': "import_and_apply E block st live pool = (Inr out, st', live', pool')" using imp Inr by simp
  show ?thesis
  proof (rule import_effect [OF inv imp'])
    fix s
    assume s: "state_inv E s" "fst (root_hash E s) = hd_state_root (blk_header block)"
      and fresh: "get_block st (block_hash E block) = None" and sinv: "store_inv E st'"
      and blocks: "get_block st' = (get_block st)(block_hash E block \<mapsto> block)"
      and snap: "\<And>h. hm_get (bs_snapshots st') h = (if h = block_hash E block then Some s else hm_get (bs_snapshots st) h)"
      and head: "bs_head st' = (if io_head_changed out then Some (block_hash E block) else bs_head st)"
      and live: "live' = (if io_head_changed out then s else live)"
    have "snapshot_ok E st' h t" if "hm_get (bs_snapshots st') h = Some t" for h t
      using that s fresh inv by (auto simp: snap blocks snapshot_ok_def chain_inv_def split: if_splits)
    moreover have "hm_get (bs_snapshots st') tip = Some live'" if "bs_head st' = Some tip" for tip
    proof (cases "io_head_changed out")
      case False
      then have tip: "bs_head st = Some tip" using that head by simp
      then have "hm_get (bs_snapshots st) tip = Some live" using inv by (simp add: chain_inv_def)
      moreover from this have "tip \<noteq> block_hash E block"
        using chain_snapshot(2) [OF inv] fresh by fastforce
      ultimately show ?thesis using False by (simp add: snap live)
    qed (use that head live snap in simp)
    ultimately show "chain_inv E st' live'" using sinv by (simp add: chain_inv_def)
  qed
qed

text \<open>Pruning keeps the head's snapshot.\<close>

lemma tip_on_chain:
  assumes "store_inv E st" "bs_head st = Some tip"
  shows "tip \<in> set (chain_from st tip)"
proof -
  obtain rank y where "linked_by E (bs_consensus st) (headers (bs_by_hash st)) (length (bs_by_hash st)) rank"
    "headers (bs_by_hash st) tip = Some y"
    using assms by (auto simp: store_inv_def best_def)
  from ancestry_ends [OF walk_linked [OF this]] show ?thesis
    by (metis chain_from_def list.set_sel(1) set_rev)
qed

lemma prune_inv:
  assumes "chain_inv E st live"
  shows "chain_inv E (prune_snapshots st) live"
proof -
  have inv: "store_inv E st" using assms by (simp add: chain_inv_def)
  show ?thesis
  proof (cases "bs_head st")
    case None
    then show ?thesis using assms by (simp add: prune_snapshots_def)
  next
    case (Some tip)
    let ?st = "prune_snapshots st"
    have f: "bs_head ?st = bs_head st" "get_block ?st = get_block st"
      using Some by (simp_all add: prune_snapshots_def Let_def)
    have "hm_get (bs_snapshots ?st) h = (if h \<in> set (chain_from st tip) then hm_get (bs_snapshots st) h else None)" for h
      using Some hm_retain_get [OF store_inv_wf [OF inv]]
      by (simp add: prune_snapshots_def Let_def split: option.split)
    then show ?thesis
      using assms tip_on_chain [OF inv Some] prune_snapshots_inv [OF inv] Some
      by (auto simp: chain_inv_def snapshot_ok_def f split: if_splits)
  qed
qed

lemma drop_inv:
  assumes "chain_inv E st live"
  shows "chain_inv E (drop_bodies_below k ar st) live"
proof -
  let ?st = "drop_bodies_below k ar st"
  have f: "bs_head ?st = bs_head st" "bs_snapshots ?st = bs_snapshots st"
    by (simp_all add: drop_bodies_below_def)
  have "snapshot_ok E ?st h s" if "snapshot_ok E st h s" for h s
    using that by (auto simp: snapshot_ok_def drop_bodies_below_def get_block_def get_drop)
  then show ?thesis using assms drop_bodies_inv by (auto simp: chain_inv_def f)
qed

lemma keep_cutoff_le: "keep_cutoff n k \<le> n"
  by (simp add: keep_cutoff_def word_le_nat_alt saturating_sub_w_val)

lemma prune_keep_inv:
  assumes "chain_inv E st live"
  shows "chain_inv E (prune_snapshots_keep E k st) live"
proof (cases "head_block (prune_snapshots st)")
  case None
  then show ?thesis using prune_inv [OF assms] by (simp add: prune_snapshots_keep_def)
next
  case (Some b)
  let ?st1 = "prune_snapshots st"
  let ?cut = "keep_cutoff (hd_number (blk_header b)) k"
  let ?st2 = "drop_bodies_below ?cut False ?st1"
  let ?keep = "set (filter (at_or_above ?st2 ?cut) (chain_from ?st2 (block_hash E b)))"
  have c2: "chain_inv E ?st2 live" by (rule drop_inv [OF prune_inv [OF assms]])
  then have i2: "store_inv E ?st2" by (simp add: chain_inv_def)
  obtain tip where tip: "bs_head ?st1 = Some tip" "get_block ?st1 tip = Some b"
    using Some by (auto simp: head_block_def split: option.splits)
  have i1: "store_inv E ?st1" using prune_inv [OF assms] by (simp add: chain_inv_def)
  have hash: "block_hash E b = tip" by (rule store_inv_hash [OF i1 tip(2)])
  have tip2: "bs_head ?st2 = Some tip" using tip(1) by (simp add: drop_bodies_below_def)
  have "at_or_above ?st2 ?cut tip"
    using tip(2) keep_cutoff_le by (simp add: at_or_above_def get_block_def drop_bodies_below_def get_drop)
  then have keep: "tip \<in> ?keep" using tip_on_chain [OF i2 tip2] hash by simp
  let ?st3 = "?st2 \<lparr> bs_snapshots := hm_retain (\<lambda>h _. h \<in> ?keep) (bs_snapshots ?st2) \<rparr>"
  have get: "hm_get (bs_snapshots ?st3) h = (if h \<in> ?keep then hm_get (bs_snapshots ?st2) h else None)" for h
    using hm_retain_get [OF store_inv_wf [OF i2], of "\<lambda>h _. h \<in> ?keep" h] by (simp split: option.split)
  have "store_inv E ?st3" using i2 by (intro store_inv_snapshots hm_retain_wf store_inv_wf)
  moreover have "hm_get (bs_snapshots ?st3) h = Some s \<Longrightarrow> snapshot_ok E ?st3 h s" for h s
    using c2 get [of h] by (auto simp: chain_inv_def snapshot_ok_def split: if_splits)
  moreover have "hm_get (bs_snapshots ?st3) tip = Some live"
    using c2 get [of tip] keep tip2 by (simp add: chain_inv_def)
  ultimately have "chain_inv E ?st3 live" using tip2 by (simp add: chain_inv_def)
  then show ?thesis using Some by (simp add: prune_snapshots_keep_def Let_def)
qed

text \<open>The mempool repair is a sequence of pool operations.\<close>

lemma fold_pool_ops:
  "(\<And>x p. (pool_op E)\<^sup>*\<^sup>* p (f x p)) \<Longrightarrow> (pool_op E)\<^sup>*\<^sup>* p (fold f xs p)"
  by (induction xs arbitrary: p) (auto intro: rtranclp_trans)

lemma pool_op_add: "pool_op E p (snd (add_transaction E tx origin p))"
  unfolding add_transaction_def by (rule op_add) (rule prod.collapse [symmetric])

lemma pool_op_remove: "pool_op E p (snd (pool_remove h p))"
  by (rule op_remove) (rule prod.collapse [symmetric])

lemma head_change_pool:
  assumes "apply_head_change E st out live pool = (live', pool')"
  shows "(pool_op E)\<^sup>*\<^sup>* pool pool'"
  using assms unfolding apply_head_change_def Let_def
  by (auto intro!: rtranclp_trans [OF fold_pool_ops fold_pool_ops] pool_op_add pool_op_remove)

lemma import_pool:
  assumes "import_and_apply E block st live pool = (r, st', live', pool')"
  shows "(pool_op E)\<^sup>*\<^sup>* pool pool'"
  using assms
proof (cases rule: import_cases)
  case (imported out ps ctx trial st1)
  then show ?thesis by (auto split: if_splits intro: head_change_pool [OF sym])
qed simp

lemma pool_ops_inv: "(pool_op E)\<^sup>*\<^sup>* p p' \<Longrightarrow> pool_inv E p \<Longrightarrow> pool_inv E p'"
  by (induction rule: rtranclp_induct) (auto intro: pool_op_inv)

section \<open>Reachable chains\<close>

text \<open>
  A chain starts from a genesis block and a state with its root; it grows by imports, the
  pool by its own operations, and pruning happens at any time, with a retention window only
  when the node does not archive.
\<close>

inductive chain_reach ::
  "'z vm_env_scheme \<Rightarrow> bool \<Rightarrow> poa_config \<Rightarrow> block \<Rightarrow> state_db \<Rightarrow> block_store \<Rightarrow> state_db \<Rightarrow> transaction_pool \<Rightarrow> bool"
  for E archive cfg g s0 where
  cr_start: "insert_genesis E g (store_new cfg) = (Inr out, st) \<Longrightarrow> state_inv E s0 \<Longrightarrow>
     fst (root_hash E s0) = hd_state_root (blk_header g) \<Longrightarrow>
     chain_reach E archive cfg g s0 (record_state (block_hash E g) s0 st) s0 pool_new"
| cr_import: "chain_reach E archive cfg g s0 st live pool \<Longrightarrow>
     import_and_apply E block st live pool = (r, st', live', pool') \<Longrightarrow>
     chain_reach E archive cfg g s0 st' live' pool'"
| cr_pool: "chain_reach E archive cfg g s0 st live pool \<Longrightarrow> pool_op E pool pool' \<Longrightarrow>
     chain_reach E archive cfg g s0 st live pool'"
| cr_prune: "chain_reach E archive cfg g s0 st live pool \<Longrightarrow>
     chain_reach E archive cfg g s0 (prune_snapshots st) live pool"
| cr_prune_keep: "chain_reach E archive cfg g s0 st live pool \<Longrightarrow> \<not> archive \<Longrightarrow>
     chain_reach E archive cfg g s0 (prune_snapshots_keep E k st) live pool"

lemma insert_genesis_Inr:
  assumes ins: "insert_genesis E g (store_new cfg) = (Inr out, st)"
  shows "bs_by_hash st = [(block_hash E g, g)]" "bs_head st = Some (block_hash E g)"
    "bs_snapshots st = []" "store_inv E st" "hd_number (blk_header g) = 0" "bs_consensus st = cfg"
proof -
  have v: "insert_validated E g (store_new cfg) = (Inr out, st)" using ins by (auto elim: insert_genesis_cases)
  show "store_inv E st" by (rule insert_genesis_inv [OF store_inv_new ins])
  show "bs_snapshots st = []" "bs_consensus st = cfg" using insert_validated_frame [OF v] by (simp_all add: store_new_def)
  show "bs_by_hash st = [(block_hash E g, g)]" "bs_head st = Some (block_hash E g)"
    by (rule insert_validated_cases [OF store_inv_new v]; simp add: store_new_def hm_insert_def)+
  show "hd_number (blk_header g) = 0"
    using ins by (auto simp: insert_genesis_def split: if_splits)
qed

lemma start_inv:
  assumes "insert_genesis E g (store_new cfg) = (Inr out, st)" "state_inv E s0"
    "fst (root_hash E s0) = hd_state_root (blk_header g)"
  shows "chain_inv E (record_state (block_hash E g) s0 st) s0"
proof -
  note i = insert_genesis_Inr [OF assms(1)]
  show ?thesis using record_state_inv [OF i(4)] assms(2,3)
    by (auto simp: chain_inv_def snapshot_ok_def record_state_def i get_block_def hm_simps hm_insert_fresh hm_get_def
        split: if_splits)
qed

lemma chain_reach_inv: "chain_reach E archive cfg g s0 st live pool \<Longrightarrow> chain_inv E st live \<and> pool_inv E pool"
proof (induction rule: chain_reach.induct)
  case (cr_import st live pool block r st' live' pool')
  then show ?case by (auto intro: import_inv pool_ops_inv [OF import_pool])
qed (auto simp: pool_new_def intro: start_inv pool_inv_new pool_op_inv prune_inv prune_keep_inv)

section \<open>Replay\<close>

text \<open>
  The state of a stored block as a run from genesis: the genesis state, or the block's
  transactions executed on the state of its parent.
\<close>

abbreviation run_block ::
  "'z vm_env_scheme \<Rightarrow> block \<Rightarrow> state_db \<Rightarrow> execution_error + execution_context \<times> state_db" where
  "run_block E b s \<equiv> execute_all E gas_config_default (blk_transactions b)
     (execution_context_new (hd_number (blk_header b)) (hd_timestamp (blk_header b))) s"

inductive runs_to ::
  "'z vm_env_scheme \<Rightarrow> (h256 \<Rightarrow> block option) \<Rightarrow> block \<Rightarrow> state_db \<Rightarrow> h256 \<Rightarrow> state_db \<Rightarrow> bool"
  for E B g s0 where
  rt_genesis: "B (block_hash E g) = Some g \<Longrightarrow> runs_to E B g s0 (block_hash E g) s0"
| rt_block: "B h = Some b \<Longrightarrow> hd_number (blk_header b) \<noteq> 0 \<Longrightarrow>
     runs_to E B g s0 (hd_parent_hash (blk_header b)) ps \<Longrightarrow> run_block E b ps = Inr (ctx, s) \<Longrightarrow>
     runs_to E B g s0 h s"

lemma runs_to_mono: "runs_to E B g s0 h s \<Longrightarrow> B \<subseteq>\<^sub>m B' \<Longrightarrow> runs_to E B' g s0 h s"
  by (induction rule: runs_to.induct) (auto intro: runs_to.intros dest: map_le_Some)

fun replay_blocks :: "'z vm_env_scheme \<Rightarrow> block list \<Rightarrow> state_db \<Rightarrow> execution_error + state_db" where
  "replay_blocks E [] s = Inr s"
| "replay_blocks E (b # bs) s =
     (case run_block E b s of Inl e \<Rightarrow> Inl e | Inr (_, s') \<Rightarrow> replay_blocks E bs s')"

lemma replay_append:
  "replay_blocks E (bs @ cs) s = (case replay_blocks E bs s of Inl e \<Rightarrow> Inl e | Inr s' \<Rightarrow> replay_blocks E cs s')"
  by (induction bs arbitrary: s) (auto split: sum.splits)

lemma runs_to_replay:
  "runs_to E (get_block st) g s0 h s \<Longrightarrow> hd_number (blk_header g) = 0 \<Longrightarrow> ancestry (headers (bs_by_hash st)) h p \<Longrightarrow>
   last p = block_hash E g \<and> replay_blocks E (map (\<lambda>a. the (get_block st a)) (tl (rev p))) s0 = Inr s"
proof (induction arbitrary: p rule: runs_to.induct)
  case rt_genesis
  then have "headers (bs_by_hash st) (block_hash E g) = Some (blk_header g)" by (simp add: headers_def get_block_def)
  from ancestry_unique [OF rt_genesis.prems(2) anc_genesis [of "headers (bs_by_hash st)", OF this]]
  have "p = [block_hash E g]" using rt_genesis.prems(1) by simp
  then show ?case by simp
next
  case (rt_block h b ps ctx s)
  have "headers (bs_by_hash st) h = Some (blk_header b)"
    using rt_block.hyps(1) by (simp add: headers_def get_block_def)
  then obtain q where q: "p = h # q" "ancestry (headers (bs_by_hash st)) (hd_parent_hash (blk_header b)) q"
    using rt_block.hyps(2) rt_block.prems(2) by (auto elim: ancestryE)
  note IH = rt_block.IH [OF rt_block.prems(1) q(2)]
  have ne: "q \<noteq> []" using ancestry_ends [OF q(2)] by simp
  then have "tl (rev p) = tl (rev q) @ [h]" by (simp add: q(1))
  then show ?case using IH ne q(1) rt_block.hyps(1,4) by (simp add: replay_append)
qed

text \<open>
  On an archiving chain, bodies stay: every body is valid, a block with a snapshot has a parent
  with one, and every snapshot is a run from genesis, provided no block hashes to the zero hash that a genesis block names as parent.
\<close>

definition archive_inv :: "'z vm_env_scheme \<Rightarrow> block \<Rightarrow> state_db \<Rightarrow> block_store \<Rightarrow> bool" where
  "archive_inv E g s0 st \<longleftrightarrow>
     hd_number (blk_header g) = 0 \<and> get_block st (block_hash E g) = Some g \<and>
     (\<forall>h b. get_block st h = Some b \<longrightarrow> block_validate E b = Inr ()) \<and>
     (\<forall>h b. get_block st h = Some b \<longrightarrow> hm_get (bs_snapshots st) h \<noteq> None \<longrightarrow>
        hd_number (blk_header b) \<noteq> 0 \<longrightarrow> hm_get (bs_snapshots st) (hd_parent_hash (blk_header b)) \<noteq> None) \<and>
     (get_block st (hash_zero 32) = None \<longrightarrow>
       (\<forall>h s. hm_get (bs_snapshots st) h = Some s \<longrightarrow> runs_to E (get_block st) g s0 h s))"

lemma import_validates:
  assumes "import_and_apply E block st live pool = (Inr out, st', live', pool')"
  shows "block_validate E block = Inr ()"
  using assms
proof (cases rule: import_cases)
  case (imported out ps ctx trial st1)
  from imported(5) show ?thesis by (auto elim: insert_block_cases)
qed simp

lemma import_archive:
  assumes inv: "chain_inv E st live" and ar: "archive_inv E g s0 st"
    and imp: "import_and_apply E block st live pool = (r, st', live', pool')"
  shows "archive_inv E g s0 st'"
proof (cases r)
  case (Inl e)
  then show ?thesis using imp ar by (auto elim: import_cases)
next
  case (Inr out)
  have imp': "import_and_apply E block st live pool = (Inr out, st', live', pool')" using imp Inr by simp
  show ?thesis
  proof (rule import_effect [OF inv imp'])
    fix ps ctx s
    assume parent: "hm_get (bs_snapshots st) (hd_parent_hash (blk_header block)) = Some ps"
      and run: "run_block E block ps = Inr (ctx, s)"
      and fresh: "get_block st (block_hash E block) = None"
      and blocks: "get_block st' = (get_block st)(block_hash E block \<mapsto> block)"
      and snap: "\<And>h. hm_get (bs_snapshots st') h = (if h = block_hash E block then Some s else hm_get (bs_snapshots st) h)"
      and acc: "accepted E (bs_consensus st) (headers (bs_by_hash st)) (blk_header block)"
    have le: "get_block st \<subseteq>\<^sub>m get_block st'" using fresh by (auto simp: blocks map_le_def)
    have "runs_to E (get_block st') g s0 h t"
      if zero: "get_block st' (hash_zero 32) = None" and t: "hm_get (bs_snapshots st') h = Some t" for h t
    proof -
      have z: "get_block st (hash_zero 32) = None" using zero by (simp add: blocks split: if_splits)
      have old: "runs_to E (get_block st') g s0 a u" if "hm_get (bs_snapshots st) a = Some u" for a u
        using that ar z by (auto simp: archive_inv_def intro: runs_to_mono [OF _ le])
      have "hd_number (blk_header block) \<noteq> 0"
        using acc chain_snapshot(2) [OF inv parent] z by (auto simp: accepted_def)
      then have "runs_to E (get_block st') g s0 (block_hash E block) s"
        using rt_block [OF _ _ old [OF parent] run, of "block_hash E block"] by (simp add: blocks)
      then show ?thesis using t old [of h t] by (simp add: snap split: if_splits)
    qed
    moreover have "hm_get (bs_snapshots st') (hd_parent_hash (blk_header b)) \<noteq> None"
      if "get_block st' h = Some b" "hm_get (bs_snapshots st') h \<noteq> None" "hd_number (blk_header b) \<noteq> 0" for h b
      using that ar parent by (auto simp: archive_inv_def blocks snap split: if_splits)
    ultimately show "archive_inv E g s0 st'"
      using ar fresh import_validates [OF imp'] by (auto simp: archive_inv_def blocks)
  qed
qed

lemma chain_parent:
  assumes inv: "store_inv E st" and tip: "bs_head st = Some tip"
    and h: "h \<in> set (chain_from st tip)" "get_block st h = Some b" "hd_number (blk_header b) \<noteq> 0"
  shows "hd_parent_hash (blk_header b) \<in> set (chain_from st tip)"
proof -
  obtain rank y where "linked_by E (bs_consensus st) (headers (bs_by_hash st)) (length (bs_by_hash st)) rank"
    "headers (bs_by_hash st) tip = Some y"
    using inv tip by (auto simp: store_inv_def best_def)
  note anc = walk_linked [OF this]
  have "ancestry H t p \<Longrightarrow> h \<in> set p \<Longrightarrow> H h = Some x \<Longrightarrow> hd_number x \<noteq> 0 \<Longrightarrow> hd_parent_hash x \<in> set p" for H t p x
  proof (induction rule: ancestry.induct)
    case (anc_parent a z q)
    then show ?case using ancestry_ends [OF anc_parent.hyps(3)] by (metis hd_in_set list.set_intros(2) option.inject set_ConsD)
  qed simp
  from this [OF anc] show ?thesis using h by (simp add: chain_from_def headers_def get_block_def)
qed

lemma prune_archive:
  assumes inv: "store_inv E st" and ar: "archive_inv E g s0 st"
  shows "archive_inv E g s0 (prune_snapshots st)"
proof (cases "bs_head st")
  case (Some tip)
  let ?st = "prune_snapshots st"
  have "get_block ?st = get_block st" using Some by (simp add: prune_snapshots_def Let_def)
  moreover have "hm_get (bs_snapshots ?st) h = (if h \<in> set (chain_from st tip) then hm_get (bs_snapshots st) h else None)" for h
    using Some hm_retain_get [OF store_inv_wf [OF inv], of "\<lambda>h _. h \<in> set (chain_from st tip)" h]
    by (simp add: prune_snapshots_def Let_def split: option.splits)
  ultimately show ?thesis using ar chain_parent [OF inv Some] by (auto simp: archive_inv_def)
qed (use ar in \<open>simp add: prune_snapshots_def\<close>)

lemma start_archive:
  assumes "insert_genesis E g (store_new cfg) = (Inr out, st)"
  shows "archive_inv E g s0 (record_state (block_hash E g) s0 st)"
proof -
  note i = insert_genesis_Inr [OF assms]
  have "block_validate E g = Inr ()" using assms by (auto elim: insert_genesis_cases)
  then show ?thesis
    by (auto simp: archive_inv_def record_state_def i get_block_def hm_insert_fresh hm_get_def
        intro: rt_genesis split: if_splits)
qed

lemma archive_reach: "chain_reach E archive cfg g s0 st live pool \<Longrightarrow> archive \<Longrightarrow> archive_inv E g s0 st"
proof (induction rule: chain_reach.induct)
  case (cr_import st live pool block r st' live' pool')
  have "chain_inv E st live" using chain_reach_inv [OF cr_import.hyps(1)] ..
  then show ?case using import_archive cr_import by metis
next
  case (cr_prune st live pool)
  have "store_inv E st" using chain_reach_inv [OF cr_prune.hyps(1)] by (simp add: chain_inv_def)
  then show ?case using prune_archive cr_prune by metis
qed (auto intro: start_archive)

lemma live_replay:
  assumes "chain_reach E True cfg g s0 st live pool" "bs_head st = Some tip"
    "get_block st (hash_zero 32) = None"
  shows "hd (chain_from st tip) = block_hash E g \<and>
    replay_blocks E (map (\<lambda>h. the (get_block st h)) (tl (chain_from st tip))) s0 = Inr live"
proof -
  have inv: "chain_inv E st live" using chain_reach_inv [OF assms(1)] ..
  have ar: "archive_inv E g s0 st" by (rule archive_reach [OF assms(1)]) simp
  have "hm_get (bs_snapshots st) tip = Some live" using inv assms(2) by (simp add: chain_inv_def)
  then have runs: "runs_to E (get_block st) g s0 tip live" using ar assms(3) by (simp add: archive_inv_def)
  obtain rank y where "linked_by E (bs_consensus st) (headers (bs_by_hash st)) (length (bs_by_hash st)) rank"
    "headers (bs_by_hash st) tip = Some y"
    using inv assms(2) by (auto simp: chain_inv_def store_inv_def best_def)
  note walk = walk_linked [OF this]
  have "walk_to_genesis st tip \<noteq> []" using ancestry_ends [OF walk] by simp
  then show ?thesis using runs_to_replay [OF runs _ walk] ar
    by (simp add: chain_from_def hd_rev archive_inv_def)
qed

section \<open>Produced blocks\<close>

lemma sealed_fields:
  assumes "poa_seal_header E cfg h miner sk = Inr x"
  shows "hd_number x = hd_number h" "hd_parent_hash x = hd_parent_hash h" "hd_timestamp x = hd_timestamp h"
    "hd_gas_limit x = hd_gas_limit h" "hd_gas_used x = hd_gas_used h" "hd_state_root x = hd_state_root h"
    "hd_transactions_root x = hd_transactions_root h" "hd_receipts_root x = hd_receipts_root h"
  by (subst poa_seal_header_Inr(5) [OF assms]; simp)+

text \<open>The shape of a produced block; \<open>s'\<close> is the producer's state afterwards.\<close>

lemma produced_shape:
  assumes "produce_block E gas_limit pp cfg s = (Inr b, s')" "state_inv E s"
  obtains inc ctx where "produce_txs E cfg (produce_order pp) (produce_context pp) s = (inc, ctx, s')"
    "state_inv E s'" "blk_transactions b = map fst inc" "blk_receipts b = map snd inc"
    "hd_number (blk_header b) = saturating_add_w (hd_number (blk_header (pp_parent pp))) 1"
    "hd_parent_hash (blk_header b) = block_hash E (pp_parent pp)"
    "hd_timestamp (blk_header b) = pp_timestamp pp"
    "hd_gas_limit (blk_header b) = gas_limit" "hd_gas_used (blk_header b) = ec_gas_used ctx"
    "hd_state_root (blk_header b) = fst (root_hash E s')"
    "hd_transactions_root (blk_header b) = list_root_txs E (map fst inc)"
    "hd_receipts_root (blk_header b) = list_root_receipts E (map snd inc)"
    "\<exists>h. hd_timestamp h = pp_timestamp pp \<and>
       poa_seal_header E (pp_consensus pp) h (pp_miner pp) (pp_miner_key pp) = Inr (blk_header b)"
proof -
  obtain inc ctx s1 where run: "produce_txs E cfg (produce_order pp) (produce_context pp) s = (inc, ctx, s1)"
    by (metis prod_cases3)
  have inv: "state_inv E s1" by (rule produce_txs_inv [OF run assms(2)])
  have s': "s' = s1"
    using assms(1) run root_hash_inv [OF inv] by (auto simp: produce_block_def Let_def split: prod.splits)
  define h where "h = \<lparr> hd_number = saturating_add_w (hd_number (blk_header (pp_parent pp))) 1,
      hd_parent_hash = block_hash E (pp_parent pp), hd_timestamp = pp_timestamp pp, hd_miner = pp_miner pp,
      hd_gas_limit = gas_limit, hd_gas_used = ec_gas_used ctx, hd_state_root = fst (root_hash E s1),
      hd_transactions_root = list_root_txs E (map fst inc),
      hd_receipts_root = list_root_receipts E (map snd inc), hd_difficulty = U256_ZERO, hd_extra_data = [] \<rparr>"
  obtain x where seal: "poa_seal_header E (pp_consensus pp) h (pp_miner pp) (pp_miner_key pp) = Inr x"
    and b: "b = \<lparr> blk_header = x, blk_transactions = map fst inc, blk_receipts = map snd inc \<rparr>"
    using assms(1) run unfolding h_def by (auto simp: produce_block_def Let_def split: prod.splits sum.splits)
  have "\<exists>h. hd_timestamp h = pp_timestamp pp \<and>
      poa_seal_header E (pp_consensus pp) h (pp_miner pp) (pp_miner_key pp) = Inr (blk_header b)"
    using seal b by (intro exI [of _ h]) (simp add: h_def)
  then show thesis
    by (intro that [OF run [folded s']])
      (use inv s' b sealed_fields [OF seal] in \<open>simp_all add: h_def\<close>)
qed

lemma produced_runs:
  assumes "produce_txs E gas_config_default (produce_order pp) (produce_context pp) s = (inc, ctx, s')"
    and "vm_clean E gas_config_default (produce_order pp) (produce_context pp) s" "total_balance s < 2 ^ 256"
  shows "\<exists>c. execute_all E gas_config_default (map fst inc)
      (execution_context_new (saturating_add_w (hd_number (blk_header (pp_parent pp))) 1) (pp_timestamp pp)) s = Inr (c, s')"
    "ec_gas_used ctx \<le> gc_max_gas_per_block gas_config_default"
proof -
  note r = produce_txs_replay [OF assms(1,3,2)]
  from conjunct1 [OF r] show "\<exists>c. execute_all E gas_config_default (map fst inc)
      (execution_context_new (saturating_add_w (hd_number (blk_header (pp_parent pp))) 1) (pp_timestamp pp)) s = Inr (c, s')"
    unfolding produce_context_def by (rule execute_all_beneficiary)
  show "ec_gas_used ctx \<le> gc_max_gas_per_block gas_config_default"
    using r by (simp add: produce_context_def execution_context_new_def)
qed

lemma insert_fresh:
  assumes inv: "store_inv E st" and acc: "accepted E (bs_consensus st) (headers (bs_by_hash st)) (blk_header b)"
    and num: "hd_number (blk_header b) \<noteq> 0" and valid: "block_validate E b = Inr ()"
    and fresh: "get_block st (block_hash E b) = None"
  obtains out st' where "insert_block E b st = (Inr out, st')"
    "\<And>tip t. bs_head st = Some tip \<Longrightarrow> get_block st tip = Some t \<Longrightarrow>
       hd_number (blk_header t) < hd_number (blk_header b) \<Longrightarrow> io_head_changed out"
proof -
  obtain p where p: "get_block st (hd_parent_hash (blk_header b)) = Some p"
    "hd_number (blk_header b) = saturating_add_w (hd_number (blk_header p)) 1"
    "poa_validate_header E (bs_consensus st) (blk_header b) (Some (blk_header p)) = Inr ()"
    using acc num by (auto simp: accepted_def headers_def get_block_def)
  have ins: "insert_block E b st = insert_validated E b st"
    using p num valid by (simp add: insert_block_def)
  obtain r st' where v: "insert_validated E b st = (r, st')" by fastforce
  from inv v show thesis
  proof (cases rule: insert_validated_cases)
    case duplicate
    then show thesis using v fresh by (simp add: insert_validated_def get_block_def Let_def)
  next
    case (head out st1)
    then show thesis using that ins v by simp
  next
    case (side out tip)
    have "\<not> hd_number (blk_header t) < hd_number (blk_header b)" if "get_block st tip = Some t" for t
      using side(10) that by (auto simp: headers_def get_block_def)
    then show thesis using that [of out st'] ins v side(1,9) by simp
  qed
qed

lemma import_succeeds:
  assumes "chain_inv E st live" "hm_get (bs_snapshots st) (hd_parent_hash (blk_header b)) = Some ps"
    "run_block E b ps = Inr (ctx, s)" "fst (root_hash E s) = hd_state_root (blk_header b)"
    "insert_block E b st = (Inr out, st1)"
  obtains st' live' pool' where "import_and_apply E b st live pool = (Inr out, st', live', pool')"
proof -
  have "fst (import_and_apply E b st live pool) = Inr out"
    using assms(2-) by (simp add: import_and_apply_def state_at_def case_prod_beta Let_def)
  then show thesis using that by (metis prod.collapse)
qed

lemma sat_succ: "n \<noteq> - 1 \<Longrightarrow> unat (saturating_add_w n (1 :: u64)) = unat n + 1"
proof -
  assume "n \<noteq> - 1"
  then have "unat n \<noteq> 2 ^ 64 - 1"
    using unat_minus_one_word_max [where 'a = 64] by (auto simp: word_unat_eq_iff)
  then show ?thesis using unat_lt [of n] by (simp add: saturating_add_w_val min_def)
qed

lemma produced_imports:
  assumes laws: "ed25519_laws E" and inv: "chain_inv E st live"
    and head: "head_block st = Some (pp_parent pp)" "hd_number (blk_header (pp_parent pp)) \<noteq> - 1"
    and cons: "pp_consensus pp = bs_consensus st" "poa_required_signatures (bs_consensus st) = 1"
    and key: "\<lparr> va_address = pp_miner pp, va_public_key = ed25519_public E (pp_miner_key pp) \<rparr>
      \<in> set (poa_validators (bs_consensus st))"
    and time: "hd_timestamp (blk_header (pp_parent pp)) \<le> pp_timestamp pp"
    and gas: "gc_max_gas_per_block gas_config_default \<le> gas_limit"
    and tot: "total_balance live < 2 ^ 256"
    and clean: "vm_clean E gas_config_default (produce_order pp) (produce_context pp) live"
    and prod: "produce_block E gas_limit pp gas_config_default live = (Inr b, s')"
    and fresh: "get_block st (block_hash E b) = None"
  obtains out st' pool' where "import_and_apply E b st live pool = (Inr out, st', s', pool')"
    "bs_head st' = Some (block_hash E b)" "state_at st' (block_hash E b) = Some s'" "io_head_changed out"
proof -
  obtain tip where tip: "bs_head st = Some tip" "get_block st tip = Some (pp_parent pp)"
    using head(1) by (auto simp: head_block_def split: option.splits)
  have sinv: "store_inv E st" using inv by (simp add: chain_inv_def)
  have hash: "block_hash E (pp_parent pp) = tip" by (rule store_inv_hash [OF sinv tip(2)])
  have snap: "hm_get (bs_snapshots st) tip = Some live" using inv tip(1) by (simp add: chain_inv_def)
  have "state_inv E live" by (rule chain_snapshot(1) [OF inv snap])
  from prod this obtain inc ctx where shape:
      "produce_txs E gas_config_default (produce_order pp) (produce_context pp) live = (inc, ctx, s')"
      "state_inv E s'" "blk_transactions b = map fst inc" "blk_receipts b = map snd inc"
      "hd_number (blk_header b) = saturating_add_w (hd_number (blk_header (pp_parent pp))) 1"
      "hd_parent_hash (blk_header b) = block_hash E (pp_parent pp)"
      "hd_timestamp (blk_header b) = pp_timestamp pp"
      "hd_gas_limit (blk_header b) = gas_limit" "hd_gas_used (blk_header b) = ec_gas_used ctx"
      "hd_state_root (blk_header b) = fst (root_hash E s')"
      "hd_transactions_root (blk_header b) = list_root_txs E (map fst inc)"
      "hd_receipts_root (blk_header b) = list_root_receipts E (map snd inc)"
      "\<exists>h. hd_timestamp h = pp_timestamp pp \<and>
         poa_seal_header E (pp_consensus pp) h (pp_miner pp) (pp_miner_key pp) = Inr (blk_header b)"
    by (rule produced_shape)
  note runs = produced_runs [OF shape(1) clean tot]
  obtain c where run: "run_block E b live = Inr (c, s')" using runs(1) by (auto simp: shape(3,5,7))
  have num: "unat (hd_number (blk_header b)) = unat (hd_number (blk_header (pp_parent pp))) + 1"
    using head(2) shape(5) by (simp add: sat_succ)
  have valid: "block_validate E b = Inr ()"
    using runs(2) gas by (simp add: block_validate_def shape(3,4,8,9,11,12) leD order.trans)
  obtain h where h: "hd_timestamp h = pp_timestamp pp"
    "poa_seal_header E (bs_consensus st) h (pp_miner pp) (pp_miner_key pp) = Inr (blk_header b)"
    using shape(13) cons(1) by auto
  have "poa_validate_header E (bs_consensus st) (blk_header b) (Some (blk_header (pp_parent pp))) = Inr ()"
    by (rule sealed_header_validates [OF laws cons(2) h(2) key]) (simp add: h(1) time)
  then have "accepted E (bs_consensus st) (headers (bs_by_hash st)) (blk_header b)"
    using tip(2) num by (auto simp: accepted_def shape(5,6) hash headers_def get_block_def)
  moreover have "hd_number (blk_header b) \<noteq> 0" using num by auto
  ultimately obtain out st1 where ins: "insert_block E b st = (Inr out, st1)"
    and changed: "\<And>t a. bs_head st = Some t \<Longrightarrow> get_block st t = Some a \<Longrightarrow>
       hd_number (blk_header a) < hd_number (blk_header b) \<Longrightarrow> io_head_changed out"
    using insert_fresh [OF sinv _ _ valid fresh] by metis
  have ch: "io_head_changed out" using changed [OF tip] num by (simp add: word_less_nat_alt)
  have snap': "hm_get (bs_snapshots st) (hd_parent_hash (blk_header b)) = Some live" by (simp add: shape(6) hash snap)
  obtain st' live' pool' where imp: "import_and_apply E b st live pool = (Inr out, st', live', pool')"
    by (rule import_succeeds [OF inv snap' run _ ins]) (simp add: shape(10))
  show thesis
  proof (rule import_effect [OF inv imp])
    fix ps ctx' s
    assume e: "hm_get (bs_snapshots st) (hd_parent_hash (blk_header b)) = Some ps" "run_block E b ps = Inr (ctx', s)"
      "\<And>h. hm_get (bs_snapshots st') h = (if h = block_hash E b then Some s else hm_get (bs_snapshots st) h)"
      "bs_head st' = (if io_head_changed out then Some (block_hash E b) else bs_head st)"
      "live' = (if io_head_changed out then s else live)"
    then have "s = s'" using snap' run by simp
    then show thesis using that imp e(3-5) ch by (simp add: state_at_def)
  qed
qed

section \<open>When an import succeeds\<close>

lemma insert_block_exact:
  assumes "store_inv E st"
  shows "(\<exists>out st'. insert_block E b st = (Inr out, st')) \<longleftrightarrow>
    accepted E (bs_consensus st) (headers (bs_by_hash st)) (blk_header b) \<and>
    block_validate E b = Inr () \<and> get_block st (block_hash E b) = None"
    (is "?ok \<longleftrightarrow> ?acc \<and> ?valid \<and> ?fresh")
proof
  assume ?ok
  then show "?acc \<and> ?valid \<and> ?fresh"
    using insert_block_Inr(2,9) [OF assms] by (auto elim: insert_block_cases)
next
  assume r: "?acc \<and> ?valid \<and> ?fresh"
  show ?ok
  proof (cases "hd_number (blk_header b) = 0")
    case True
    then have "insert_block E b st = insert_validated E b st"
      using r by (simp add: insert_block_def insert_genesis_def accepted_def)
    then show ?thesis using r by (simp add: insert_validated_def get_block_def Let_def)
  next
    case False
    then show ?thesis using insert_fresh [OF assms, of b] r by metis
  qed
qed

lemma import_exact:
  assumes inv: "store_inv E st"
  shows "(\<exists>out st' live' pool'. import_and_apply E b st live pool = (Inr out, st', live', pool')) \<longleftrightarrow>
    (\<exists>ps ctx s. state_at st (hd_parent_hash (blk_header b)) = Some ps \<and> run_block E b ps = Inr (ctx, s) \<and>
       fst (root_hash E s) = hd_state_root (blk_header b)) \<and>
    accepted E (bs_consensus st) (headers (bs_by_hash st)) (blk_header b) \<and>
    block_validate E b = Inr () \<and> get_block st (block_hash E b) = None"
    (is "?ok \<longleftrightarrow> ?run \<and> ?ins")
proof
  assume ?ok
  then obtain out st' live' pool' where "import_and_apply E b st live pool = (Inr out, st', live', pool')" by blast
  then show "?run \<and> ?ins"
  proof (cases rule: import_cases)
    case (imported out' ps ctx trial st1)
    then show ?thesis using insert_block_exact [OF inv, of b] by blast
  qed simp
next
  assume r: "?run \<and> ?ins"
  then obtain out st1 where "insert_block E b st = (Inr out, st1)" using insert_block_exact [OF inv, of b] by blast
  then have "fst (import_and_apply E b st live pool) = Inr out"
    using r by (auto simp: import_and_apply_def case_prod_beta Let_def)
  then show ?ok by (metis prod.collapse)
qed

lemma genesis_kept: "chain_reach E archive cfg g s0 st live pool \<Longrightarrow>
  headers (bs_by_hash st) (block_hash E g) = Some (blk_header g) \<and> bs_consensus st = cfg"
proof (induction rule: chain_reach.induct)
  case (cr_start out st)
  then show ?case by (simp add: record_state_def insert_genesis_Inr headers_def hm_get_def)
next
  case (cr_import st live pool block r st' live' pool')
  have inv: "chain_inv E st live" using chain_reach_inv [OF cr_import.hyps(1)] ..
  show ?case
  proof (cases r)
    case (Inl e)
    then show ?thesis using cr_import by (auto elim: import_cases)
  next
    case (Inr out)
    show ?thesis
      by (rule import_effect [OF inv cr_import.hyps(2) [unfolded Inr]])
        (use cr_import.IH in \<open>auto simp: headers_def get_block_def fun_eq_iff split: if_splits\<close>)
  qed
next
  case (cr_prune st live pool)
  then show ?case by (simp add: prune_snapshots_def Let_def split: option.split)
next
  case (cr_prune_keep st live pool k)
  then show ?case
    by (simp add: prune_snapshots_keep_def prune_snapshots_def drop_bodies_below_def headers_drop Let_def
        split: option.split)
qed

section \<open>A sample chain\<close>

definition demo_poa :: "'z vm_env_scheme \<Rightarrow> poa_config" where
  "demo_poa E = poa_config_from_secret E sample_key"

definition demo_miner :: "'z vm_env_scheme \<Rightarrow> address" where
  "demo_miner E = address_from_secret E sample_key"

definition demo_header :: "'z vm_env_scheme \<Rightarrow> state_db \<Rightarrow> block_header" where
  "demo_header E s0 = sample_header \<lparr> hd_number := 0, hd_state_root := fst (root_hash E s0),
     hd_transactions_root := list_root_txs E [], hd_receipts_root := list_root_receipts E [] \<rparr>"

definition demo_genesis :: "'z vm_env_scheme \<Rightarrow> state_db \<Rightarrow> block" where
  "demo_genesis E s0 =
     \<lparr> blk_header = projr (poa_seal_header E (demo_poa E) (demo_header E s0) (demo_miner E) sample_key),
       blk_transactions = [], blk_receipts = [] \<rparr>"

definition demo_store :: "'z vm_env_scheme \<Rightarrow> state_db \<Rightarrow> block_store" where
  "demo_store E s0 = record_state (block_hash E (demo_genesis E s0)) s0
     (snd (insert_genesis E (demo_genesis E s0) (store_new (demo_poa E))))"

lemma demo_poa_fields:
  "poa_validators (demo_poa E) = [\<lparr> va_address = demo_miner E, va_public_key = ed25519_public E sample_key \<rparr>]"
  "poa_required_signatures (demo_poa E) = 1"
  by (simp_all add: demo_poa_def demo_miner_def poa_config_from_secret_def poa_single_def validator_from_secret_def
      address_from_secret_def public_key_from_secret_def Let_def)

lemma demo_seal:
  "poa_seal_header E (demo_poa E) (demo_header E s0) (demo_miner E) sample_key = Inr (blk_header (demo_genesis E s0))"
  by (simp add: demo_genesis_def poa_seal_header_def poa_is_validator_def demo_poa_fields demo_miner_def
      encode_signatures_def Let_def)

lemma demo_fields:
  "hd_number (blk_header (demo_genesis E s0)) = 0" "hd_parent_hash (blk_header (demo_genesis E s0)) = hash_zero 32"
  "hd_timestamp (blk_header (demo_genesis E s0)) = 7"
  "hd_state_root (blk_header (demo_genesis E s0)) = fst (root_hash E s0)"
  "blk_transactions (demo_genesis E s0) = []"
  using sealed_fields [OF demo_seal [of E s0]]
  by (simp_all add: demo_header_def sample_header_def demo_genesis_def)

lemma demo_start:
  assumes "ed25519_laws E" "state_inv E s0"
  shows "chain_reach E archive (demo_poa E) (demo_genesis E s0) s0 (demo_store E s0) s0 pool_new"
    "bs_head (demo_store E s0) = Some (block_hash E (demo_genesis E s0))"
    "bs_by_hash (demo_store E s0) = [(block_hash E (demo_genesis E s0), demo_genesis E s0)]"
    "bs_consensus (demo_store E s0) = demo_poa E"
proof -
  let ?g = "demo_genesis E s0"
  have "poa_validate_header E (demo_poa E) (blk_header ?g) None = Inr ()"
    by (rule sealed_header_validates [OF assms(1) _ demo_seal]) (simp_all add: demo_poa_fields)
  moreover have "block_validate E ?g = Inr ()"
    using sealed_fields [OF demo_seal [of E s0]]
    by (simp add: block_validate_def demo_header_def sample_header_def demo_genesis_def)
  ultimately have "insert_genesis E ?g (store_new (demo_poa E)) = insert_validated E ?g (store_new (demo_poa E))"
    by (simp add: insert_genesis_def demo_fields store_new_def)
  then have "\<exists>out st. insert_genesis E ?g (store_new (demo_poa E)) = (Inr out, st)"
    by (simp add: insert_validated_def store_new_def hm_simps Let_def)
  then obtain out where ins: "insert_genesis E ?g (store_new (demo_poa E)) =
      (Inr out, snd (insert_genesis E ?g (store_new (demo_poa E))))" by auto
  show "chain_reach E archive (demo_poa E) ?g s0 (demo_store E s0) s0 pool_new"
    unfolding demo_store_def by (rule cr_start [OF ins assms(2)]) (simp add: demo_fields)
  show "bs_head (demo_store E s0) = Some (block_hash E ?g)" "bs_by_hash (demo_store E s0) = [(block_hash E ?g, ?g)]"
    "bs_consensus (demo_store E s0) = demo_poa E"
    using insert_genesis_Inr [OF ins] by (simp_all add: demo_store_def record_state_def)
qed

lemma ref_vm_ed25519_laws: "ed25519_laws ref_vm"
  using ref_core_ed25519_laws
  by (simp add: ed25519_laws_def ref_vm_def ref_state_def core_env.defs state_env.defs)

lemma empty_state_inv: "state_inv E state_new"
  by (intro reach_inv reach_new)

text \<open>A hash that keeps its input, under which distinct headers have distinct hashes.\<close>

definition plain_vm :: vm_env where
  "plain_vm = ref_vm \<lparr> sha3_keccak256 := \<lambda>bs. bs \<rparr>"

lemma plain_vm_ed25519_laws: "ed25519_laws plain_vm"
  using ref_vm_ed25519_laws by (simp add: ed25519_laws_def plain_vm_def)

lemma plain_header_hash: "header_hash plain_vm h = enc_header h"
  by (simp add: header_hash_def keccak256_def plain_vm_def ref_vm_def ref_state_def ref_core_def
      prim_env.defs core_env.defs state_env.defs)

lemma plain_hash: "block_hash plain_vm b \<noteq> hash_zero 32"
proof -
  have "enc_list e xs \<noteq> []" for e :: "u8 encoder" and xs by (cases xs) simp_all
  then have "length (enc_header h) \<noteq> 32" for h
    by (simp add: enc_header_def enc_bytes_def enc_word_def)
  then show ?thesis unfolding block_hash_def plain_header_hash by (metis hash_zero_def length_replicate)
qed

lemmas demo_plain = demo_start [OF plain_vm_ed25519_laws empty_state_inv]

lemmas demo_empty = demo_start [OF ref_vm_ed25519_laws empty_state_inv]

section \<open>Properties\<close>

text \<open>
  C5: state and chain agree. On every reachable chain the pool invariant holds, each recorded
  snapshot is a well-formed state of a stored block with that block's state root, there is
  always a head, and the live state is the snapshot of the head.
\<close>

theorem chain_states_agree:
  assumes "chain_reach E archive cfg g s0 st live pool"
  shows "pool_inv E pool \<and>
    (\<forall>h s. state_at st h = Some s \<longrightarrow> state_inv E s \<and>
       (\<exists>b. get_block st h = Some b \<and> block_hash E b = h \<and> hd_state_root (blk_header b) = fst (root_hash E s))) \<and>
    (\<exists>tip. bs_head st = Some tip \<and> state_at st tip = Some live)"
proof -
  have inv: "chain_inv E st live" and pool: "pool_inv E pool" using chain_reach_inv [OF assms] by simp_all
  have sinv: "store_inv E st" using inv by (simp add: chain_inv_def)
  have "bs_by_hash st \<noteq> []" using genesis_kept [OF assms] by (auto simp: headers_def hm_simps)
  then obtain tip where "bs_head st = Some tip" using sinv by (auto simp: store_inv_def split: option.splits)
  then have "\<exists>tip. bs_head st = Some tip \<and> state_at st tip = Some live"
    using inv by (simp add: chain_inv_def state_at_def)
  moreover have "state_inv E s \<and>
      (\<exists>b. get_block st h = Some b \<and> block_hash E b = h \<and> hd_state_root (blk_header b) = fst (root_hash E s))"
    if "state_at st h = Some s" for h s
  proof -
    have "hm_get (bs_snapshots st) h = Some s" using that by (auto simp: state_at_def)
    from chain_snapshot [OF inv this] show ?thesis using store_inv_hash [OF sinv] by auto
  qed
  ultimately show ?thesis using pool by blast
qed

theorem chain_states_agree_witness:
  "state_at (demo_store ref_vm state_new) (block_hash ref_vm (demo_genesis ref_vm state_new)) = Some state_new"
  using chain_states_agree [OF demo_empty(1)] demo_empty(2) by simp

text \<open>
  C8: import is all or nothing. It succeeds exactly when the parent's snapshot is there, the
  block's transactions all run on it, the resulting state has the root in the header, the
  header is accepted by consensus against its parent, the body matches the header and the
  block is new; otherwise store, live state and pool are untouched.
\<close>

theorem import_all_or_nothing:
  assumes "chain_reach E archive cfg g s0 st live pool"
  shows "case import_and_apply E b st live pool of (r, st', live', pool') \<Rightarrow>
    ((\<exists>out. r = Inr out) \<longleftrightarrow>
      (\<exists>ps ctx s. state_at st (hd_parent_hash (blk_header b)) = Some ps \<and>
         execute_all E gas_config_default (blk_transactions b)
           (execution_context_new (hd_number (blk_header b)) (hd_timestamp (blk_header b))) ps = Inr (ctx, s) \<and>
         fst (root_hash E s) = hd_state_root (blk_header b)) \<and>
      accepted E cfg (headers (bs_by_hash st)) (blk_header b) \<and>
      block_validate E b = Inr () \<and> get_block st (block_hash E b) = None) \<and>
    (case r of Inl e \<Rightarrow> st' = st \<and> live' = live \<and> pool' = pool
     | Inr out \<Rightarrow> get_block st' = (get_block st)(block_hash E b \<mapsto> b))"
proof -
  obtain r st' live' pool' where imp: "import_and_apply E b st live pool = (r, st', live', pool')"
    by (metis prod_cases4)
  have inv: "chain_inv E st live" using chain_reach_inv [OF assms] ..
  have sinv: "store_inv E st" using inv by (simp add: chain_inv_def)
  have "bs_consensus st = cfg" using genesis_kept [OF assms] ..
  note exact = import_exact [OF sinv, of b live pool, unfolded this imp]
  show ?thesis
  proof (cases r)
    case (Inl e)
    then have "st' = st \<and> live' = live \<and> pool' = pool" using imp by (auto elim: import_cases)
    then show ?thesis using exact Inl by (simp add: imp)
  next
    case (Inr out)
    have "get_block st' = (get_block st)(block_hash E b \<mapsto> b)"
      by (rule import_effect [OF inv imp [unfolded Inr]])
    then show ?thesis using exact Inr by (simp add: imp)
  qed
qed

theorem import_all_or_nothing_witness:
  "\<not> (\<exists>out. fst (import_and_apply ref_vm (demo_genesis ref_vm state_new) (demo_store ref_vm state_new)
     state_new pool_new) = Inr out)"
proof -
  have "get_block (demo_store ref_vm state_new) (block_hash ref_vm (demo_genesis ref_vm state_new)) \<noteq> None"
    by (simp add: get_block_def demo_empty(3) hm_get_def)
  then show ?thesis
    using import_all_or_nothing [OF demo_empty(1), of "demo_genesis ref_vm state_new"]
    by (auto split: prod.splits)
qed

text \<open>
  C2: the live state is a function of the canonical chain. On an archiving chain in which no
  block hashes to zero, the head's chain starts at the genesis block and executing the blocks
  after it, in order, on the genesis state gives exactly the live state, whatever forks,
  reorganisations, refusals and prunings happened in between.
\<close>

theorem live_state_is_replay:
  assumes "chain_reach E True cfg g s0 st live pool" "bs_head st = Some tip"
    "get_block st (hash_zero 32) = None"
  shows "hd (chain_from st tip) = block_hash E g \<and>
    replay_blocks E (map (\<lambda>h. the (get_block st h)) (tl (chain_from st tip))) s0 = Inr live"
  by (rule live_replay [OF assms])

theorem live_state_is_replay_witness:
  "replay_blocks plain_vm [] state_new = Inr state_new \<and>
   chain_from (demo_store plain_vm state_new) (block_hash plain_vm (demo_genesis plain_vm state_new))
     = [block_hash plain_vm (demo_genesis plain_vm state_new)]"
proof -
  have "get_block (demo_store plain_vm state_new) (hash_zero 32) = None"
    by (simp add: get_block_def demo_plain(3) hm_get_def plain_hash [symmetric])
  from live_state_is_replay [OF demo_plain(1,2) this]
  show ?thesis by (simp add: chain_from_def walk_to_genesis_def demo_plain(3) hm_get_def demo_fields)
qed

text \<open>
  C29: a branch that was pruned is dead. After \<open>prune_snapshots\<close>, which the node runs after
  every import, a block whose parent is not on the canonical chain is refused for want of the
  parent's state, however long the branch; a reorganisation can only start at a canonical
  block.
\<close>

theorem pruned_branch_refused:
  assumes "chain_reach E archive cfg g s0 st live pool" "bs_head st = Some tip"
    "hd_parent_hash (blk_header b) \<notin> set (chain_from st tip)"
  shows "import_and_apply E b (prune_snapshots st) live pool =
    (Inl UnknownParentState, prune_snapshots st, live, pool)"
proof -
  have "store_inv E st" using chain_reach_inv [OF assms(1)] by (simp add: chain_inv_def)
  from hm_retain_get [OF store_inv_wf [OF this], of "\<lambda>h _. h \<in> set (chain_from st tip)" "hd_parent_hash (blk_header b)"]
  have "state_at (prune_snapshots st) (hd_parent_hash (blk_header b)) = None"
    using assms(2,3) by (simp add: prune_snapshots_def state_at_def Let_def split: option.splits)
  then show ?thesis by (simp add: import_and_apply_def)
qed

theorem pruned_branch_refused_witness:
  "import_and_apply plain_vm (sample_block \<lparr> blk_header := sample_header \<rparr>) (prune_snapshots (demo_store plain_vm state_new))
     state_new pool_new =
   (Inl UnknownParentState, prune_snapshots (demo_store plain_vm state_new), state_new, pool_new)"
proof -
  have "hd_parent_hash (blk_header (sample_block \<lparr> blk_header := sample_header \<rparr>)) \<notin>
      set (chain_from (demo_store plain_vm state_new) (block_hash plain_vm (demo_genesis plain_vm state_new)))"
    by (simp add: chain_from_def walk_to_genesis_def demo_plain(3) hm_get_def demo_fields sample_header_def
        plain_hash [symmetric])
  from pruned_branch_refused [OF demo_plain(1,2) this] show ?thesis .
qed

end
