(* ===== verification/Network.thy ===== *)
theory Network
  imports Core "HOL-Library.Sublist"
begin

text \<open>
  The gossip service of \<open>crates/ivory-network\<close>: messages and their wire form, the commands of
  \<open>NetworkHandle\<close>, the handling of a command and of a swarm event. libp2p (the swarm, of type
  \<open>'s\<close>) and bincode are parameters; what the service adds is which message goes out on which
  topic, which event an incoming payload becomes, the allowlist and the connection counter.
\<close>

section \<open>Messages\<close>

type_synonym peer_id = bytes
type_synonym multiaddr = string

datatype network_message =
    BlockMsg block
  | TransactionMsg transaction
  | GetBlock h256
  | HeaderMsg block_header
  | GetHeader h256

datatype network_error =
    SwarmError string
  | Publish string
  | Stopped
  | InvalidMessage
  | InvalidAddress string

datatype publish_error = InsufficientPeers | PublishFailed string

record 's net_env =
  bin_message :: "network_message \<Rightarrow> bytes option"
  unbin_message :: "bytes \<Rightarrow> network_message option"
  gossip_publish :: "string \<Rightarrow> bytes \<Rightarrow> 's \<Rightarrow> (publish_error + unit) \<times> 's"
  swarm_dial :: "multiaddr \<Rightarrow> 's \<Rightarrow> (string + unit) \<times> 's"
  swarm_disconnect :: "peer_id \<Rightarrow> 's \<Rightarrow> 's"
  gossip_add_peer :: "peer_id \<Rightarrow> 's \<Rightarrow> 's"
  gossip_remove_peer :: "peer_id \<Rightarrow> 's \<Rightarrow> 's"
  kad_add_address :: "peer_id \<Rightarrow> multiaddr \<Rightarrow> 's \<Rightarrow> 's"

definition message_laws :: "('s, 'z) net_env_scheme \<Rightarrow> bool" where
  "message_laws N \<longleftrightarrow> (\<forall>m. \<exists>bs. bin_message N m = Some bs \<and> unbin_message N bs = Some m)"

definition message_encode :: "('s, 'z) net_env_scheme \<Rightarrow> network_message \<Rightarrow> network_error + bytes" where
  "message_encode N m = (case bin_message N m of None \<Rightarrow> Inl InvalidMessage | Some bytes \<Rightarrow> Inr bytes)"

definition message_decode :: "('s, 'z) net_env_scheme \<Rightarrow> bytes \<Rightarrow> network_error + network_message" where
  "message_decode N bytes = (case unbin_message N bytes of None \<Rightarrow> Inl InvalidMessage | Some m \<Rightarrow> Inr m)"

definition TOPIC_BLOCKS :: string where
  "TOPIC_BLOCKS = ''ivory/blocks/1''"

definition TOPIC_TXS :: string where
  "TOPIC_TXS = ''ivory/txs/1''"

definition TOPIC_SYNC :: string where
  "TOPIC_SYNC = ''ivory/sync/1''"

section \<open>Commands and events\<close>

datatype command =
    BroadcastBlock block
  | BroadcastHeader block_header
  | BroadcastTx transaction
  | RequestBlock h256
  | RequestHeader h256
  | Dial multiaddr

datatype network_event =
    BlockReceived block
  | TxReceived transaction
  | BlockRequest h256
  | HeaderReceived block_header
  | HeaderRequest h256
  | PeerConnected peer_id
  | PeerDisconnected peer_id
  | ListenAddr multiaddr

definition publish ::
  "('s, 'z) net_env_scheme \<Rightarrow> string \<Rightarrow> network_message \<Rightarrow> 's \<Rightarrow> (network_error + unit) \<times> 's" where
  "publish N topic msg sw =
     (case message_encode N msg of
        Inl e \<Rightarrow> (Inl e, sw)
      | Inr data \<Rightarrow>
     (case gossip_publish N topic data sw of
        (Inr _, sw') \<Rightarrow> (Inr (), sw')
      | (Inl InsufficientPeers, sw') \<Rightarrow> (Inr (), sw')
      | (Inl (PublishFailed e), sw') \<Rightarrow> (Inl (Publish e), sw')))"

fun handle_command ::
  "('s, 'z) net_env_scheme \<Rightarrow> command \<Rightarrow> 's \<Rightarrow> (network_error + unit) \<times> 's" where
  "handle_command N (BroadcastBlock b) sw =
     (case publish N TOPIC_BLOCKS (HeaderMsg (blk_header b)) sw of
        (Inl e, sw') \<Rightarrow> (Inl e, sw')
      | (Inr _, sw') \<Rightarrow> publish N TOPIC_BLOCKS (BlockMsg b) sw')"
| "handle_command N (BroadcastHeader h) sw = publish N TOPIC_BLOCKS (HeaderMsg h) sw"
| "handle_command N (BroadcastTx tx) sw = publish N TOPIC_TXS (TransactionMsg tx) sw"
| "handle_command N (RequestBlock hash) sw = publish N TOPIC_SYNC (GetBlock hash) sw"
| "handle_command N (RequestHeader hash) sw = publish N TOPIC_SYNC (GetHeader hash) sw"
| "handle_command N (Dial addr) sw =
     (case swarm_dial N addr sw of (r, sw') \<Rightarrow> (map_sum SwarmError id r, sw'))"

datatype swarm_event =
    NewListenAddr multiaddr
  | ConnectionEstablished peer_id
  | ConnectionClosed peer_id
  | GossipMessage bytes
  | RoutingUpdated peer_id
  | IdentifyReceived peer_id "multiaddr list"
  | OtherSwarmEvent

text \<open>The service: the swarm, the connection counter and the events sent to the node.\<close>

record 's service =
  sv_swarm :: 's
  sv_peers :: u64
  sv_events :: "network_event list"

definition send_event :: "network_event \<Rightarrow> ('s, 'z) service_scheme \<Rightarrow> ('s, 'z) service_scheme" where
  "send_event ev sv = sv \<lparr> sv_events := sv_events sv @ [ev] \<rparr>"

definition message_event :: "network_message \<Rightarrow> network_event" where
  "message_event m =
     (case m of
        BlockMsg b \<Rightarrow> BlockReceived b
      | TransactionMsg tx \<Rightarrow> TxReceived tx
      | GetBlock hash \<Rightarrow> BlockRequest hash
      | HeaderMsg h \<Rightarrow> HeaderReceived h
      | GetHeader hash \<Rightarrow> HeaderRequest hash)"

definition barred :: "peer_id list \<Rightarrow> peer_id \<Rightarrow> bool" where
  "barred allowlist peer \<longleftrightarrow> allowlist \<noteq> [] \<and> peer \<notin> set allowlist"

fun handle_swarm_event ::
  "('s, 'z) net_env_scheme \<Rightarrow> peer_id list \<Rightarrow> swarm_event \<Rightarrow> 's service \<Rightarrow> 's service" where
  "handle_swarm_event N allowlist (NewListenAddr addr) sv = send_event (ListenAddr addr) sv"
| "handle_swarm_event N allowlist (ConnectionEstablished peer) sv =
     (if barred allowlist peer then sv \<lparr> sv_swarm := swarm_disconnect N peer (sv_swarm sv) \<rparr>
      else send_event (PeerConnected peer)
        (sv \<lparr> sv_swarm := gossip_add_peer N peer (sv_swarm sv), sv_peers := sv_peers sv + 1 \<rparr>))"
| "handle_swarm_event N allowlist (ConnectionClosed peer) sv =
     (if barred allowlist peer then sv
      else send_event (PeerDisconnected peer)
        (sv \<lparr> sv_swarm := gossip_remove_peer N peer (sv_swarm sv),
              sv_peers := saturating_sub_w (sv_peers sv) 1 \<rparr>))"
| "handle_swarm_event N allowlist (GossipMessage data) sv =
     (case message_decode N data of
        Inl _ \<Rightarrow> sv
      | Inr m \<Rightarrow> send_event (message_event m) sv)"
| "handle_swarm_event N allowlist (RoutingUpdated peer) sv = sv"
| "handle_swarm_event N allowlist (IdentifyReceived peer addrs) sv =
     sv \<lparr> sv_swarm := fold (kad_add_address N peer) addrs (sv_swarm sv) \<rparr>"
| "handle_swarm_event N allowlist OtherSwarmEvent sv = sv"

section \<open>What a run of events leaves\<close>

lemma events_append: "\<exists>es. sv_events (handle_swarm_event N al ev sv) = sv_events sv @ es"
  by (cases ev) (auto simp: send_event_def split: sum.split)

text \<open>Connections of peers that may stay, opened and closed.\<close>

definition opened :: "peer_id list \<Rightarrow> swarm_event \<Rightarrow> nat" where
  "opened al ev = (case ev of ConnectionEstablished p \<Rightarrow> if barred al p then 0 else 1 | _ \<Rightarrow> 0)"

definition closed :: "peer_id list \<Rightarrow> swarm_event \<Rightarrow> nat" where
  "closed al ev = (case ev of ConnectionClosed p \<Rightarrow> if barred al p then 0 else 1 | _ \<Rightarrow> 0)"

text \<open>Every connection is closed at most once, after it was opened.\<close>

primrec balanced :: "peer_id list \<Rightarrow> nat \<Rightarrow> swarm_event list \<Rightarrow> bool" where
  "balanced al n [] = True"
| "balanced al n (ev # evs) =
     (closed al ev \<le> n \<and> balanced al (n + opened al ev - closed al ev) evs)"

lemma step_peers:
  assumes "unat (sv_peers sv) + opened al ev < 2 ^ 64" "closed al ev \<le> unat (sv_peers sv)"
  shows "unat (sv_peers (handle_swarm_event N al ev sv)) = unat (sv_peers sv) + opened al ev - closed al ev"
proof (cases ev)
  case (ConnectionEstablished p)
  then show ?thesis using assms by (auto simp: send_event_def opened_def closed_def unat_plus_if' split: if_splits)
next
  case (ConnectionClosed p)
  then show ?thesis using assms by (auto simp: send_event_def opened_def closed_def saturating_sub_w_val split: if_splits)
qed (auto simp: send_event_def opened_def closed_def split: sum.split)

lemma run_peers:
  assumes "balanced al (unat (sv_peers sv)) evs" "unat (sv_peers sv) + sum_list (map (opened al) evs) < 2 ^ 64"
  shows "unat (sv_peers (fold (handle_swarm_event N al) evs sv)) + sum_list (map (closed al) evs)
     = unat (sv_peers sv) + sum_list (map (opened al) evs)"
  using assms
proof (induction evs arbitrary: sv)
  case (Cons ev evs)
  let ?sv = "handle_swarm_event N al ev sv"
  have c: "closed al ev \<le> unat (sv_peers sv)" using Cons.prems(1) by simp
  have step: "unat (sv_peers ?sv) = unat (sv_peers sv) + opened al ev - closed al ev"
    by (rule step_peers) (use Cons.prems in simp_all)
  have "unat (sv_peers (fold (handle_swarm_event N al) evs ?sv)) + sum_list (map (closed al) evs)
      = unat (sv_peers ?sv) + sum_list (map (opened al) evs)"
    by (rule Cons.IH) (use Cons.prems step in simp_all)
  then show ?case using c step by simp
qed simp

lemma barred_silent:
  "barred al p \<Longrightarrow> PeerConnected p \<in> set (sv_events (handle_swarm_event N al ev sv)) \<Longrightarrow>
   PeerConnected p \<in> set (sv_events sv)"
  by (cases ev) (auto simp: send_event_def message_event_def split: sum.splits if_splits network_message.splits)

lemma barred_run:
  "barred al p \<Longrightarrow> PeerConnected p \<notin> set (sv_events sv) \<Longrightarrow>
   PeerConnected p \<notin> set (sv_events (fold (handle_swarm_event N al) evs sv))"
proof (induction evs arbitrary: sv)
  case (Cons ev evs)
  then show ?case using barred_silent [OF Cons.prems(1), of N ev sv] by auto
qed simp

section \<open>Delivery\<close>

text \<open>What a command asks to publish, and what a peer should see of it.\<close>

definition messages_of :: "command \<Rightarrow> network_message list" where
  "messages_of cmd =
     (case cmd of
        BroadcastBlock b \<Rightarrow> [HeaderMsg (blk_header b), BlockMsg b]
      | BroadcastHeader h \<Rightarrow> [HeaderMsg h]
      | BroadcastTx tx \<Rightarrow> [TransactionMsg tx]
      | RequestBlock hash \<Rightarrow> [GetBlock hash]
      | RequestHeader hash \<Rightarrow> [GetHeader hash]
      | Dial addr \<Rightarrow> [])"

definition announced :: "command \<Rightarrow> network_event list" where
  "announced cmd =
     (case cmd of
        BroadcastBlock b \<Rightarrow> [HeaderReceived (blk_header b), BlockReceived b]
      | BroadcastHeader h \<Rightarrow> [HeaderReceived h]
      | BroadcastTx tx \<Rightarrow> [TxReceived tx]
      | RequestBlock hash \<Rightarrow> [BlockRequest hash]
      | RequestHeader hash \<Rightarrow> [HeaderRequest hash]
      | Dial addr \<Rightarrow> [])"

definition topic_of :: "network_message \<Rightarrow> string" where
  "topic_of m =
     (case m of
        BlockMsg _ \<Rightarrow> ''ivory/blocks/1'' | HeaderMsg _ \<Rightarrow> ''ivory/blocks/1''
      | TransactionMsg _ \<Rightarrow> ''ivory/txs/1''
      | GetBlock _ \<Rightarrow> ''ivory/sync/1'' | GetHeader _ \<Rightarrow> ''ivory/sync/1'')"

text \<open>
  What is relied on in libp2p: a publication either is accepted, and then queued once, or is refused
  with an error, and then not queued; dialling publishes nothing. Nothing is assumed about which
  publications are accepted.
\<close>

definition gossip_log :: "('s, 'z) net_env_scheme \<Rightarrow> ('s \<Rightarrow> (string \<times> bytes) list) \<Rightarrow> bool" where
  "gossip_log N log \<longleftrightarrow>
     (\<forall>topic data sw. log (snd (gossip_publish N topic data sw)) =
        (case fst (gossip_publish N topic data sw) of Inr _ \<Rightarrow> log sw @ [(topic, data)] | Inl _ \<Rightarrow> log sw)) \<and>
     (\<forall>addr sw. log (snd (swarm_dial N addr sw)) = log sw)"

definition accepts_all :: "('s, 'z) net_env_scheme \<Rightarrow> bool" where
  "accepts_all N \<longleftrightarrow> (\<forall>topic data sw. fst (gossip_publish N topic data sw) = Inr ())"

definition wire :: "('s, 'z) net_env_scheme \<Rightarrow> network_message \<Rightarrow> bytes" where
  "wire N m = the (bin_message N m)"

abbreviation queued :: "('s, 'z) net_env_scheme \<Rightarrow> network_message \<Rightarrow> string \<times> bytes" where
  "queued N m \<equiv> (topic_of m, wire N m)"

text \<open>The command loop: a failed command is logged and the next one is taken.\<close>

definition run_commands :: "('s, 'z) net_env_scheme \<Rightarrow> command list \<Rightarrow> 's \<Rightarrow> 's" where
  "run_commands N cs sw = fold (\<lambda>c sw. snd (handle_command N c sw)) cs sw"

lemma wire_laws: "message_laws N \<Longrightarrow> message_encode N m = Inr (wire N m) \<and> message_decode N (wire N m) = Inr m"
  unfolding message_laws_def message_encode_def message_decode_def wire_def by (metis option.sel option.simps(5))

lemma publish_log:
  assumes "message_laws N" "gossip_log N log" "topic = topic_of m"
  shows "\<exists>ms. log (snd (publish N topic m sw)) = log sw @ map (queued N) ms \<and> subseq ms [m] \<and>
    (accepts_all N \<longrightarrow> ms = [m] \<and> fst (publish N topic m sw) = Inr ())"
proof -
  obtain r sw' where p: "gossip_publish N topic (wire N m) sw = (r, sw')" by fastforce
  then have log: "log sw' = (case r of Inr _ \<Rightarrow> log sw @ [(topic, wire N m)] | Inl _ \<Rightarrow> log sw)"
    using assms(2) unfolding gossip_log_def by (metis fst_conv snd_conv)
  have acc: "accepts_all N \<Longrightarrow> r = Inr ()" using p unfolding accepts_all_def by (metis fst_conv)
  show ?thesis
  proof (cases r)
    case (Inr u)
    then show ?thesis using p log assms(3) wire_laws [OF assms(1), of m]
      by (intro exI [of _ "[m]"]) (simp add: publish_def)
  next
    case (Inl e)
    then have "snd (publish N topic m sw) = sw'"
      using p wire_laws [OF assms(1), of m] by (cases e) (simp_all add: publish_def)
    then show ?thesis using Inl log acc by (intro exI [of _ "[]"]) auto
  qed
qed

lemma topics:
  "TOPIC_BLOCKS = topic_of (HeaderMsg h)" "TOPIC_BLOCKS = topic_of (BlockMsg b)" "TOPIC_TXS = topic_of (TransactionMsg tx)"
  "TOPIC_SYNC = topic_of (GetBlock k)" "TOPIC_SYNC = topic_of (GetHeader k)"
  by (simp_all add: topic_of_def TOPIC_BLOCKS_def TOPIC_TXS_def TOPIC_SYNC_def)

lemma command_log:
  assumes "message_laws N" "gossip_log N log"
  shows "\<exists>ms. log (snd (handle_command N cmd sw)) = log sw @ map (queued N) ms \<and> subseq ms (messages_of cmd) \<and>
    (accepts_all N \<longrightarrow> ms = messages_of cmd)"
proof (cases cmd)
  case (BroadcastBlock b)
  let ?h = "HeaderMsg (blk_header b)" and ?b = "BlockMsg b"
  obtain r sw1 where 1: "publish N TOPIC_BLOCKS ?h sw = (r, sw1)" by fastforce
  obtain ms where ms: "log sw1 = log sw @ map (queued N) ms" "subseq ms [?h]" "accepts_all N \<longrightarrow> ms = [?h] \<and> r = Inr ()"
    using publish_log [OF assms topics(1) [of "blk_header b"], of sw] 1 by auto
  obtain ns where ns: "log (snd (publish N TOPIC_BLOCKS ?b sw1)) = log sw1 @ map (queued N) ns" "subseq ns [?b]"
    "accepts_all N \<longrightarrow> ns = [?b]"
    using publish_log [OF assms topics(2) [of b], of sw1] by auto
  show ?thesis
  proof (cases r)
    case (Inl e)
    then show ?thesis using 1 ms list_emb_append2 [of "(=)" ms "[?h]" "[?b]"] BroadcastBlock
      by (intro exI [of _ ms]) (auto simp: messages_of_def intro: subseq_order.trans)
  next
    case (Inr u)
    then show ?thesis using 1 ms ns list_emb_append_mono [OF ms(2) ns(2)] BroadcastBlock
      by (intro exI [of _ "ms @ ns"]) (simp add: messages_of_def)
  qed
next
  case (Dial addr)
  have "log (snd (swarm_dial N addr sw)) = log sw" using assms(2) by (simp add: gossip_log_def)
  then show ?thesis using Dial by (cases "swarm_dial N addr sw") (simp add: messages_of_def)
next
  case (BroadcastHeader h)
  then show ?thesis using publish_log [OF assms topics(1) [of h], of sw] by (auto simp: messages_of_def)
next
  case (BroadcastTx tx)
  then show ?thesis using publish_log [OF assms topics(3) [of tx], of sw] by (auto simp: messages_of_def)
next
  case (RequestBlock k)
  then show ?thesis using publish_log [OF assms topics(4) [of k], of sw] by (auto simp: messages_of_def)
next
  case (RequestHeader k)
  then show ?thesis using publish_log [OF assms topics(5) [of k], of sw] by (auto simp: messages_of_def)
qed

lemma run_log:
  assumes "message_laws N" "gossip_log N log"
  shows "\<exists>ms. log (run_commands N cs sw) = log sw @ map (queued N) ms \<and> subseq ms (concat (map messages_of cs)) \<and>
    (accepts_all N \<longrightarrow> ms = concat (map messages_of cs))"
proof (induction cs arbitrary: sw)
  case Nil
  then show ?case by (simp add: run_commands_def)
next
  case (Cons c cs)
  obtain ms where ms: "log (snd (handle_command N c sw)) = log sw @ map (queued N) ms" "subseq ms (messages_of c)"
    "accepts_all N \<longrightarrow> ms = messages_of c"
    using command_log [OF assms] by blast
  obtain ns where ns: "log (run_commands N cs (snd (handle_command N c sw))) =
      log (snd (handle_command N c sw)) @ map (queued N) ns" "subseq ns (concat (map messages_of cs))"
    "accepts_all N \<longrightarrow> ns = concat (map messages_of cs)"
    using Cons.IH by blast
  show ?case using ms ns list_emb_append_mono [OF ms(2) ns(2)]
    by (intro exI [of _ "ms @ ns"]) (simp add: run_commands_def)
qed

lemma announced_messages: "map message_event (messages_of cmd) = announced cmd"
  by (cases cmd) (simp_all add: messages_of_def announced_def message_event_def)

lemma receive_run:
  "sv_events (fold (\<lambda>d. handle_swarm_event N al (GossipMessage d)) ds sv) =
   sv_events sv @ map message_event (concat (map (\<lambda>d. case message_decode N d of Inl _ \<Rightarrow> [] | Inr m \<Rightarrow> [m]) ds))"
  by (induction ds arbitrary: sv) (auto simp: send_event_def split: sum.splits)

lemma receive_wire:
  assumes "message_laws N"
  shows "concat (map (\<lambda>d. case message_decode N d of Inl _ \<Rightarrow> [] | Inr m \<Rightarrow> [m]) (map (wire N) ms)) = ms"
  by (induction ms) (simp_all add: wire_laws [OF assms])

section \<open>A sample network\<close>

definition enc_block :: "block encoder" where
  "enc_block = enc_pair enc_header (enc_pair (enc_list enc_tx) (enc_list enc_receipt)) \<circ>
     (\<lambda>b. (blk_header b, blk_transactions b, blk_receipts b))"

definition dec_block :: "block decoder" where
  "dec_block = dec_map (\<lambda>(h, ts, rs). \<lparr> blk_header = h, blk_transactions = ts, blk_receipts = rs \<rparr>)
     (dec_pair dec_header (dec_pair (dec_list dec_tx) (dec_list dec_receipt)))"

lemma codec_block: "codec enc_block dec_block"
  unfolding enc_block_def dec_block_def
  by (intro codec_iso codec_pair codec_list codec_header codec_tx codec_receipt) simp

definition enc_message :: "network_message encoder" where
  "enc_message m =
     (case m of
        BlockMsg b \<Rightarrow> 0 # enc_block b
      | TransactionMsg tx \<Rightarrow> 1 # enc_tx tx
      | GetBlock h \<Rightarrow> 2 # enc_bytes h
      | HeaderMsg h \<Rightarrow> 3 # enc_header h
      | GetHeader h \<Rightarrow> 4 # enc_bytes h)"

definition dec_message :: "network_message decoder" where
  "dec_message bs =
     (case bs of
        [] \<Rightarrow> None
      | t # r \<Rightarrow>
          if t = 0 then dec_map BlockMsg dec_block r
          else if t = 1 then dec_map TransactionMsg dec_tx r
          else if t = 2 then dec_map GetBlock dec_bytes r
          else if t = 3 then dec_map HeaderMsg dec_header r
          else dec_map GetHeader dec_bytes r)"

lemma codec_message: "codec enc_message dec_message"
  by (simp add: codec_def enc_message_def dec_message_def dec_map_def codecD [OF codec_block]
      codecD [OF codec_tx] codecD [OF codec_header] codecD [OF codec_bytes] split: network_message.split)

text \<open>A swarm with a number of peers and the log of what it queued; without peers it refuses.\<close>

definition ref_net :: "(nat \<times> (string \<times> bytes) list) net_env" where
  "ref_net = \<lparr> bin_message = (\<lambda>m. Some (enc_message m)), unbin_message = run_decoder dec_message,
     gossip_publish = (\<lambda>t d (n, sent). if n = 0 then (Inl InsufficientPeers, n, sent) else (Inr (), n, sent @ [(t, d)])),
     swarm_dial = (\<lambda>a sw. (Inr (), sw)), swarm_disconnect = (\<lambda>p sw. sw),
     gossip_add_peer = (\<lambda>p (n, sent). (n + 1, sent)), gossip_remove_peer = (\<lambda>p (n, sent). (n - 1, sent)),
     kad_add_address = (\<lambda>p a sw. sw) \<rparr>"

lemma ref_net_laws: "message_laws ref_net" "gossip_log ref_net snd"
  by (auto simp: message_laws_def gossip_log_def ref_net_def codec_roundtrip [OF codec_message])

section \<open>Properties\<close>

text \<open>
  C30: what one node sends is what others can see of it. Whatever the gossip layer accepts or refuses
  of the messages of a sequence of commands, what it queues are those messages, each on its topic and
  in the order of the commands, a block after its header; it is all of them when nothing is refused.
  Whatever part of it reaches a peer, in whatever order, how often and mixed with payloads that do not
  decode, the peer's node sees an event of one of the commands for each message that arrives and
  nothing else. And whatever happens on the swarm, no peer outside a non-empty allowlist is ever
  reported as connected.
\<close>

theorem gossip_delivers:
  assumes "message_laws N" "gossip_log N log"
  shows "\<exists>ms. log (run_commands N cs sw) = log sw @ map (\<lambda>m. (topic_of m, wire N m)) ms \<and>
    subseq (map message_event ms) (concat (map announced cs)) \<and>
    (accepts_all N \<longrightarrow> map message_event ms = concat (map announced cs)) \<and>
    (\<forall>ds. set ds \<subseteq> wire N ` set ms \<union> {d. \<exists>e. message_decode N d = Inl e} \<longrightarrow>
       (\<exists>evs. sv_events (fold (\<lambda>d. handle_swarm_event N al (GossipMessage d)) ds sv) = sv_events sv @ evs \<and>
          set evs \<subseteq> set (concat (map announced cs)) \<and>
          (\<forall>m \<in> set ms. wire N m \<in> set ds \<longrightarrow> message_event m \<in> set evs))) \<and>
    (\<forall>evs p. barred al p \<longrightarrow> PeerConnected p \<notin> set (sv_events sv) \<longrightarrow>
       PeerConnected p \<notin> set (sv_events (fold (handle_swarm_event N al) evs sv)))"
proof -
  obtain ms where ms: "log (run_commands N cs sw) = log sw @ map (queued N) ms"
    "subseq ms (concat (map messages_of cs))" "accepts_all N \<longrightarrow> ms = concat (map messages_of cs)"
    using run_log [OF assms] by blast
  have all: "map message_event (concat (map messages_of cs)) = concat (map announced cs)"
    by (simp add: map_concat comp_def announced_messages)
  have sub: "subseq (map message_event ms) (concat (map announced cs))"
    using subseq_map [OF ms(2), of message_event] by (simp only: all)
  have "\<exists>evs. sv_events (fold (\<lambda>d. handle_swarm_event N al (GossipMessage d)) ds sv) = sv_events sv @ evs \<and>
      set evs \<subseteq> set (concat (map announced cs)) \<and> (\<forall>m \<in> set ms. wire N m \<in> set ds \<longrightarrow> message_event m \<in> set evs)"
    if ds: "set ds \<subseteq> wire N ` set ms \<union> {d. \<exists>e. message_decode N d = Inl e}" for ds
  proof -
    let ?got = "concat (map (\<lambda>d. case message_decode N d of Inl _ \<Rightarrow> [] | Inr m \<Rightarrow> [m]) ds)"
    have "set ?got \<subseteq> set ms" using ds wire_laws [OF assms(1)] by (auto split: sum.splits)
    moreover have "m \<in> set ?got" if "wire N m \<in> set ds" for m
      using that wire_laws [OF assms(1), of m] by (force split: sum.splits)
    moreover have "set (map message_event ms) \<subseteq> set (concat (map announced cs))" using list_emb_set [OF sub] by blast
    ultimately show ?thesis unfolding receive_run by (intro exI [of _ "map message_event ?got"]) fastforce
  qed
  then show ?thesis using ms sub all by (intro exI [of _ ms] conjI allI impI barred_run) simp_all
qed

theorem gossip_delivers_witness:
  "\<exists>ms. run_commands ref_net [BroadcastBlock sample_block, Dial []] (1, []) = (1, map (queued ref_net) ms) \<and>
    subseq (map message_event ms) [HeaderReceived (blk_header sample_block), BlockReceived sample_block] \<and>
    (\<exists>evs. sv_events (fold (\<lambda>d. handle_swarm_event ref_net [] (GossipMessage d)) (map (wire ref_net) (rev ms))
        \<lparr> sv_swarm = (0, []), sv_peers = 0, sv_events = [] \<rparr>) = evs \<and> set evs = message_event ` set ms)"
proof -
  let ?cs = "[BroadcastBlock sample_block, Dial []]" and ?sv = "\<lparr> sv_swarm = (0 :: nat, [] :: (string \<times> bytes) list), sv_peers = 0, sv_events = [] \<rparr>"
  have "\<exists>sent. run_commands ref_net ?cs (1, []) = (1, sent)"
    by (simp add: run_commands_def publish_def message_encode_def ref_net_def)
  then obtain sent where sent: "run_commands ref_net ?cs (1, []) = (1, sent)" by blast
  obtain ms where ms: "sent = map (queued ref_net) ms"
    "subseq (map message_event ms) (concat (map announced ?cs))"
    using gossip_delivers [OF ref_net_laws, of ?cs "(1, [])" "[]" ?sv] sent by auto
  have "sv_events (fold (\<lambda>d. handle_swarm_event ref_net [] (GossipMessage d)) (map (wire ref_net) (rev ms)) ?sv)
      = map message_event (rev ms)"
    unfolding receive_run by (simp add: receive_wire [OF ref_net_laws(1)] del: map_map)
  then show ?thesis using ms(1,2) sent by (intro exI [of _ ms]) (auto simp: announced_def)
qed

end
