(* ===== verification/Persist.thy ===== *)
theory Persist
  imports Chain Network
begin

text \<open>
  The on-disk chain of \<open>bin/ivory/src/persist.rs\<close> over the key-value wrapper of
  \<open>crates/ivory-storage\<close>: canonical blocks by hash, the height index, the head, headers of
  pruned blocks, state snapshots and trie nodes, each under keys with a tag of their own.
  RocksDB and the bincode codecs are parameters; a database is a value of type \<open>'d\<close>.
\<close>

section \<open>The database\<close>

record 'd disk_env = vm_env +
  rocks_get :: "bytes \<Rightarrow> 'd \<Rightarrow> string + bytes option"
  rocks_put :: "bytes \<Rightarrow> bytes \<Rightarrow> 'd \<Rightarrow> (string + unit) \<times> 'd"
  rocks_delete :: "bytes \<Rightarrow> 'd \<Rightarrow> (string + unit) \<times> 'd"
  rocks_flush :: "'d \<Rightarrow> (string + unit) \<times> 'd"
  bin_block :: "block \<Rightarrow> bytes"
  unbin_block :: "bytes \<Rightarrow> block option"
  unbin_header :: "bytes \<Rightarrow> block_header option"
  bin_snapshot :: "state_snapshot \<Rightarrow> bytes"
  unbin_snapshot :: "bytes \<Rightarrow> state_snapshot option"

text \<open>
  What is relied on: while no I/O fails, the database behaves as the map \<open>view\<close>, and
  decoding inverts encoding.
\<close>

definition rocks_laws :: "('d, 'z) disk_env_scheme \<Rightarrow> ('d \<Rightarrow> bytes \<rightharpoonup> bytes) \<Rightarrow> bool" where
  "rocks_laws E view \<longleftrightarrow>
     (\<forall>k d. rocks_get E k d = Inr (view d k)) \<and>
     (\<forall>k v d. \<exists>d'. rocks_put E k v d = (Inr (), d') \<and> view d' = (view d)(k \<mapsto> v)) \<and>
     (\<forall>k d. \<exists>d'. rocks_delete E k d = (Inr (), d') \<and> view d' = (view d)(k := None)) \<and>
     (\<forall>d. \<exists>d'. rocks_flush E d = (Inr (), d') \<and> view d' = view d)"

definition disk_codec_laws :: "('d, 'z) disk_env_scheme \<Rightarrow> bool" where
  "disk_codec_laws E \<longleftrightarrow>
     (\<forall>b. unbin_block E (bin_block E b) = Some b) \<and>
     (\<forall>h. unbin_header E (bin_header E h) = Some h) \<and>
     (\<forall>s. unbin_snapshot E (bin_snapshot E s) = Some s)"

datatype storage_error = RocksDb string

datatype persist_error =
    Storage storage_error
  | HeadHashLength
  | HeadBlockMissing
  | GenesisMissing
  | GenesisMismatch h256 h256
  | ReloadGenesis chain_error
  | ReloadBlock u64 chain_error
  | ReloadHeader u64 chain_error
  | HeightHashLength u64
  | HeightMissing u64
  | HeaderMissing u64
  | DecodeBlock
  | DecodeHeader
  | DecodeSnapshot

definition db_get :: "('d, 'z) disk_env_scheme \<Rightarrow> bytes \<Rightarrow> 'd \<Rightarrow> storage_error + bytes option" where
  "db_get E key d = map_sum RocksDb id (rocks_get E key d)"

definition db_put :: "('d, 'z) disk_env_scheme \<Rightarrow> bytes \<Rightarrow> bytes \<Rightarrow> 'd \<Rightarrow> (storage_error + unit) \<times> 'd" where
  "db_put E key val d = (case rocks_put E key val d of (r, d') \<Rightarrow> (map_sum RocksDb id r, d'))"

definition db_delete :: "('d, 'z) disk_env_scheme \<Rightarrow> bytes \<Rightarrow> 'd \<Rightarrow> (storage_error + unit) \<times> 'd" where
  "db_delete E key d = (case rocks_delete E key d of (r, d') \<Rightarrow> (map_sum RocksDb id r, d'))"

definition db_flush :: "('d, 'z) disk_env_scheme \<Rightarrow> 'd \<Rightarrow> (storage_error + unit) \<times> 'd" where
  "db_flush E d = (case rocks_flush E d of (r, d') \<Rightarrow> (map_sum RocksDb id r, d'))"

text \<open>Writes in sequence stop at the first failure; \<open>?\<close> with a context wraps the error.\<close>

type_synonym 'd disk_op = "'d \<Rightarrow> (persist_error + unit) \<times> 'd"

definition lift_op :: "('d \<Rightarrow> (storage_error + unit) \<times> 'd) \<Rightarrow> 'd disk_op" where
  "lift_op m d = (case m d of (r, d') \<Rightarrow> (map_sum Storage id r, d'))"

definition skip_op :: "'d disk_op" where
  "skip_op d = (Inr (), d)"

definition and_then :: "'d disk_op \<Rightarrow> 'd disk_op \<Rightarrow> 'd disk_op" where
  "and_then m m' d = (case m d of (Inl e, d') \<Rightarrow> (Inl e, d') | (Inr _, d') \<Rightarrow> m' d')"

primrec for_each :: "('a \<Rightarrow> 'd disk_op) \<Rightarrow> 'a list \<Rightarrow> 'd disk_op" where
  "for_each f [] = skip_op"
| "for_each f (x # xs) = and_then (f x) (for_each f xs)"

section \<open>Keys\<close>

definition KEY_HEAD :: bytes where
  "KEY_HEAD = string_bytes ''head''"

definition height_key :: "u64 \<Rightarrow> bytes" where
  "height_key number = 0x68 # to_be_bytes_w number"

definition block_key :: "h256 \<Rightarrow> bytes" where
  "block_key hash = 0x62 # hash"

definition header_key :: "h256 \<Rightarrow> bytes" where
  "header_key hash = 0x48 # hash"

definition snapshot_key :: "h256 \<Rightarrow> bytes" where
  "snapshot_key hash = 0x73 # hash"

definition trie_key :: "h256 \<Rightarrow> bytes" where
  "trie_key hash = 0x74 # hash"

section \<open>Entries\<close>

definition db_read :: "('d, 'z) disk_env_scheme \<Rightarrow> bytes \<Rightarrow> 'd \<Rightarrow> persist_error + bytes option" where
  "db_read E key d = map_sum Storage id (db_get E key d)"

definition put_block :: "('d, 'z) disk_env_scheme \<Rightarrow> block \<Rightarrow> 'd disk_op" where
  "put_block E b = lift_op (db_put E (block_key (block_hash E b)) (bin_block E b))"

definition put_header :: "('d, 'z) disk_env_scheme \<Rightarrow> block_header \<Rightarrow> 'd disk_op" where
  "put_header E h = lift_op (db_put E (header_key (header_hash E h)) (bin_header E h))"

definition put_height :: "('d, 'z) disk_env_scheme \<Rightarrow> u64 \<Rightarrow> h256 \<Rightarrow> 'd disk_op" where
  "put_height E number hash = lift_op (db_put E (height_key number) hash)"

definition persist_get_block :: "('d, 'z) disk_env_scheme \<Rightarrow> h256 \<Rightarrow> 'd \<Rightarrow> persist_error + block option" where
  "persist_get_block E hash d =
     (case db_read E (block_key hash) d of
        Inl e \<Rightarrow> Inl e
      | Inr None \<Rightarrow> Inr None
      | Inr (Some raw) \<Rightarrow> (case unbin_block E raw of None \<Rightarrow> Inl DecodeBlock | Some b \<Rightarrow> Inr (Some b)))"

definition get_header :: "('d, 'z) disk_env_scheme \<Rightarrow> h256 \<Rightarrow> 'd \<Rightarrow> persist_error + block_header option" where
  "get_header E hash d =
     (case db_read E (header_key hash) d of
        Inl e \<Rightarrow> Inl e
      | Inr None \<Rightarrow> Inr None
      | Inr (Some raw) \<Rightarrow> (case unbin_header E raw of None \<Rightarrow> Inl DecodeHeader | Some h \<Rightarrow> Inr (Some h)))"

definition get_height_hash :: "('d, 'z) disk_env_scheme \<Rightarrow> u64 \<Rightarrow> 'd \<Rightarrow> persist_error + h256 option" where
  "get_height_hash E number d =
     (case db_read E (height_key number) d of
        Inl e \<Rightarrow> Inl e
      | Inr None \<Rightarrow> Inr None
      | Inr (Some raw) \<Rightarrow>
          (case hash_from_slice 32 raw of None \<Rightarrow> Inl (HeightHashLength number) | Some h \<Rightarrow> Inr (Some h)))"

definition get_block_by_height :: "('d, 'z) disk_env_scheme \<Rightarrow> u64 \<Rightarrow> 'd \<Rightarrow> persist_error + block option" where
  "get_block_by_height E number d =
     (case db_read E (height_key number) d of
        Inl e \<Rightarrow> Inl e
      | Inr None \<Rightarrow> Inr None
      | Inr (Some raw) \<Rightarrow>
          (case hash_from_slice 32 raw of
             None \<Rightarrow> Inl (HeightHashLength number)
           | Some hash \<Rightarrow> persist_get_block E hash d))"

definition persist_snapshot :: "('d, 'z) disk_env_scheme \<Rightarrow> h256 \<Rightarrow> state_db \<Rightarrow> 'd disk_op" where
  "persist_snapshot E hash s = lift_op (db_put E (snapshot_key hash) (bin_snapshot E (to_snapshot s)))"

definition get_snapshot :: "('d, 'z) disk_env_scheme \<Rightarrow> h256 \<Rightarrow> 'd \<Rightarrow> persist_error + state_db option" where
  "get_snapshot E hash d =
     (case db_read E (snapshot_key hash) d of
        Inl e \<Rightarrow> Inl e
      | Inr None \<Rightarrow> Inr None
      | Inr (Some raw) \<Rightarrow>
          (case unbin_snapshot E raw of
             None \<Rightarrow> Inl DecodeSnapshot | Some snap \<Rightarrow> Inr (Some (from_snapshot snap))))"

definition persist_trie_nodes :: "('d, 'z) disk_env_scheme \<Rightarrow> node_store \<Rightarrow> 'd disk_op" where
  "persist_trie_nodes E nodes =
     and_then (for_each (\<lambda>(hash, bytes). lift_op (db_put E (trie_key hash) bytes)) nodes)
       (lift_op (db_flush E))"

definition get_trie_node :: "('d, 'z) disk_env_scheme \<Rightarrow> h256 \<Rightarrow> 'd \<Rightarrow> persist_error + bytes option" where
  "get_trie_node E hash d = db_read E (trie_key hash) d"

section \<open>Writing the canonical chain\<close>

record chain_persist =
  cp_archive :: bool
  cp_archive_keep :: u64

definition open_with :: "bool \<Rightarrow> u64 \<Rightarrow> chain_persist" where
  "open_with archive archive_keep =
     \<lparr> cp_archive = archive, cp_archive_keep = max archive_keep 1 \<rparr>"

definition heights :: "u64 \<Rightarrow> u64 \<Rightarrow> u64 list" where
  "heights lo hi = map of_nat [unat lo..<Suc (unat hi)]"

definition keeps_body :: "chain_persist \<Rightarrow> u64 \<Rightarrow> u64 \<Rightarrow> bool" where
  "keeps_body cp head_number n \<longleftrightarrow>
     cp_archive cp \<or> n = 0 \<or> saturating_sub_w head_number n < cp_archive_keep cp"

definition persist_height :: "('d, 'z) disk_env_scheme \<Rightarrow> chain_persist \<Rightarrow> u64 \<Rightarrow> u64 \<Rightarrow> block \<Rightarrow> 'd disk_op" where
  "persist_height E cp head_number n b =
     and_then
       (if keeps_body cp head_number n then put_block E b
        else and_then (put_header E (blk_header b)) (lift_op (db_delete E (block_key (block_hash E b)))))
       (put_height E n (block_hash E b))"

definition persist_state :: "('d, 'z) disk_env_scheme \<Rightarrow> h256 \<Rightarrow> state_db \<Rightarrow> 'd disk_op" where
  "persist_state E hash s =
     (let (nodes, s') = trie_nodes E s
      in and_then (persist_trie_nodes E nodes) (persist_snapshot E hash s'))"

definition persist_canonical ::
  "('d, 'z) disk_env_scheme \<Rightarrow> chain_persist \<Rightarrow> block_store \<Rightarrow> block \<Rightarrow> 'd disk_op" where
  "persist_canonical E cp st block =
     and_then (put_block E block)
       (case head_block st of
          None \<Rightarrow> skip_op
        | Some head \<Rightarrow>
            (let number = hd_number (blk_header head)
             in and_then (lift_op (db_put E KEY_HEAD (block_hash E head)))
               (and_then
                  (for_each (\<lambda>n. case get_block_by_number st n of
                       None \<Rightarrow> skip_op
                     | Some b \<Rightarrow> persist_height E cp number n b) (heights 0 number))
               (and_then
                  (for_each (\<lambda>n. case get_block_by_number st n of
                       None \<Rightarrow> skip_op
                     | Some b \<Rightarrow> (case state_at st (block_hash E b) of
                                    None \<Rightarrow> skip_op
                                  | Some s \<Rightarrow> persist_state E (block_hash E b) s)) (heights 0 number))
                  (lift_op (db_flush E))))))"

section \<open>Reloading\<close>

definition load_height ::
  "('d, 'z) disk_env_scheme \<Rightarrow> 'd \<Rightarrow> u64 \<Rightarrow> block_store \<Rightarrow> (persist_error + unit) \<times> block_store" where
  "load_height E d n st =
     (case get_block_by_height E n d of
        Inl e \<Rightarrow> (Inl e, st)
      | Inr (Some block) \<Rightarrow>
          (case insert_block E block st of (r, st') \<Rightarrow> (map_sum (ReloadBlock n) (\<lambda>_. ()) r, st'))
      | Inr None \<Rightarrow>
     (case get_height_hash E n d of
        Inl e \<Rightarrow> (Inl e, st)
      | Inr None \<Rightarrow> (Inl (HeightMissing n), st)
      | Inr (Some hash) \<Rightarrow>
     (case get_header E hash d of
        Inl e \<Rightarrow> (Inl e, st)
      | Inr None \<Rightarrow> (Inl (HeaderMissing n), st)
      | Inr (Some header) \<Rightarrow>
          (case insert_header E header st of (r, st') \<Rightarrow> (map_sum (ReloadHeader n) (\<lambda>_. ()) r, st')))))"

definition load_snapshot ::
  "('d, 'z) disk_env_scheme \<Rightarrow> 'd \<Rightarrow> u64 \<Rightarrow> block_store \<Rightarrow> (persist_error + unit) \<times> block_store" where
  "load_snapshot E d n st =
     (case get_block_by_number st n of
        None \<Rightarrow> (Inr (), st)
      | Some block \<Rightarrow>
          (case get_snapshot E (block_hash E block) d of
             Inl e \<Rightarrow> (Inl e, st)
           | Inr None \<Rightarrow> (Inr (), st)
           | Inr (Some snap) \<Rightarrow> (Inr (), record_state (block_hash E block) snap st)))"

primrec load_each ::
  "(u64 \<Rightarrow> block_store \<Rightarrow> (persist_error + unit) \<times> block_store) \<Rightarrow> u64 list \<Rightarrow> block_store \<Rightarrow>
   (persist_error + unit) \<times> block_store" where
  "load_each f [] st = (Inr (), st)"
| "load_each f (n # ns) st =
     (case f n st of (Inl e, st') \<Rightarrow> (Inl e, st') | (Inr _, st') \<Rightarrow> load_each f ns st')"

definition load_into ::
  "('d, 'z) disk_env_scheme \<Rightarrow> 'd \<Rightarrow> block_store \<Rightarrow> block \<Rightarrow> (persist_error + u64 option) \<times> block_store" where
  "load_into E d st expected_genesis =
     (case db_read E KEY_HEAD d of
        Inl e \<Rightarrow> (Inl e, st)
      | Inr None \<Rightarrow> (Inr None, st)
      | Inr (Some head_raw) \<Rightarrow>
     (case hash_from_slice 32 head_raw of
        None \<Rightarrow> (Inl HeadHashLength, st)
      | Some head_hash \<Rightarrow>
     (case persist_get_block E head_hash d of
        Inl e \<Rightarrow> (Inl e, st)
      | Inr None \<Rightarrow> (Inl HeadBlockMissing, st)
      | Inr (Some head) \<Rightarrow>
     (case get_block_by_height E 0 d of
        Inl e \<Rightarrow> (Inl e, st)
      | Inr None \<Rightarrow> (Inl GenesisMissing, st)
      | Inr (Some genesis) \<Rightarrow>
          if block_hash E genesis \<noteq> block_hash E expected_genesis
          then (Inl (GenesisMismatch (block_hash E genesis) (block_hash E expected_genesis)), st)
          else case insert_genesis E genesis st of
            (Inl e, st1) \<Rightarrow> (Inl (ReloadGenesis e), st1)
          | (Inr _, st1) \<Rightarrow>
          (case load_each (load_height E d) (heights 1 (hd_number (blk_header head))) st1 of
             (Inl e, st2) \<Rightarrow> (Inl e, st2)
           | (Inr _, st2) \<Rightarrow>
          (case load_each (load_snapshot E d) (heights 0 (hd_number (blk_header head))) st2 of
             (Inl e, st3) \<Rightarrow> (Inl e, st3)
           | (Inr _, st3) \<Rightarrow> (Inr (Some (hd_number (blk_header head))), st3)))))))"

section \<open>What is written\<close>

text \<open>On a database that obeys its laws, an operation performs a list of writes.\<close>

definition set_key :: "bytes \<times> bytes option \<Rightarrow> (bytes \<rightharpoonup> bytes) \<Rightarrow> bytes \<rightharpoonup> bytes" where
  "set_key w f = f(fst w := snd w)"

definition performs :: "('d \<Rightarrow> bytes \<rightharpoonup> bytes) \<Rightarrow> 'd disk_op \<Rightarrow> (bytes \<times> bytes option) list \<Rightarrow> bool" where
  "performs view m ws \<longleftrightarrow> (\<forall>d. \<exists>d'. m d = (Inr (), d') \<and> view d' = fold set_key ws (view d))"

lemma performs_skip: "performs view skip_op []"
  by (simp add: performs_def skip_op_def)

lemma performs_then:
  assumes "performs view m ws" "performs view m' ws'"
  shows "performs view (and_then m m') (ws @ ws')"
  unfolding performs_def
proof
  fix d
  obtain d1 where d1: "m d = (Inr (), d1)" "view d1 = fold set_key ws (view d)"
    using assms(1) by (auto simp: performs_def)
  obtain d2 where "m' d1 = (Inr (), d2)" "view d2 = fold set_key ws' (view d1)"
    using assms(2) by (auto simp: performs_def)
  then show "\<exists>d'. and_then m m' d = (Inr (), d') \<and> view d' = fold set_key (ws @ ws') (view d)"
    using d1 by (simp add: and_then_def)
qed

lemma performs_each:
  "(\<And>x. x \<in> set xs \<Longrightarrow> performs view (f x) (ws x)) \<Longrightarrow> performs view (for_each f xs) (concat (map ws xs))"
  by (induction xs) (auto intro: performs_skip performs_then)

lemma performs_lift:
  assumes "\<And>d. \<exists>d'. m d = (Inr (), d') \<and> view d' = fold set_key ws (view d)"
  shows "performs view (lift_op (\<lambda>d. case m d of (r, d') \<Rightarrow> (map_sum RocksDb id r, d'))) ws"
  unfolding performs_def
proof
  fix d
  obtain d' where "m d = (Inr (), d')" "view d' = fold set_key ws (view d)" using assms by blast
  then show "\<exists>d'. lift_op (\<lambda>d. case m d of (r, d') \<Rightarrow> (map_sum RocksDb id r, d')) d = (Inr (), d') \<and>
      view d' = fold set_key ws (view d)"
    by (simp add: lift_op_def)
qed

lemma performs_rocks:
  assumes "rocks_laws E view"
  shows "performs view (lift_op (db_put E k v)) [(k, Some v)]"
    "performs view (lift_op (db_delete E k)) [(k, None)]"
    "performs view (lift_op (db_flush E)) []"
  unfolding db_put_def [abs_def] db_delete_def [abs_def] db_flush_def [abs_def]
  by (rule performs_lift; use assms in \<open>simp add: rocks_laws_def set_key_def\<close>)+

lemma db_read_view: "rocks_laws E view \<Longrightarrow> db_read E k d = Inr (view d k)"
  by (simp add: db_read_def db_get_def rocks_laws_def)

lemma fold_write_other: "k \<notin> fst ` set ws \<Longrightarrow> fold set_key ws f k = f k"
  by (induction ws arbitrary: f) (auto simp: set_key_def)

lemma fold_write:
  assumes "(k, v) \<in> set ws" and only: "\<And>v'. (k, v') \<in> set ws \<Longrightarrow> v' = v"
  shows "fold set_key ws f k = v"
proof -
  have "fold set_key ws f k = (case map_of (rev ws) k of None \<Rightarrow> f k | Some u \<Rightarrow> u)"
    by (induction ws arbitrary: f) (auto simp: set_key_def map_add_def split: option.splits)
  moreover obtain u where u: "map_of (rev ws) k = Some u"
    using assms(1) by (metis map_of_eq_None_iff not_Some_eq imageI fst_conv set_rev)
  moreover have "(k, u) \<in> set ws" using map_of_SomeD [OF u] by simp
  ultimately show ?thesis using only [of u] by simp
qed

text \<open>The keys of different kinds of entry never meet.\<close>

lemma key_simps:
  "height_key n \<noteq> block_key h" "height_key n \<noteq> header_key h" "height_key n \<noteq> snapshot_key h" "height_key n \<noteq> trie_key h"
  "height_key n \<noteq> KEY_HEAD" "height_key n = height_key m \<longleftrightarrow> n = m"
  "block_key h \<noteq> header_key i" "block_key h \<noteq> snapshot_key i" "block_key h \<noteq> trie_key i" "block_key h \<noteq> KEY_HEAD"
  "block_key h = block_key i \<longleftrightarrow> h = i" "header_key h = header_key i \<longleftrightarrow> h = i"
  "header_key h \<noteq> snapshot_key i" "header_key h \<noteq> trie_key i" "header_key h \<noteq> KEY_HEAD"
  "snapshot_key h = snapshot_key i \<longleftrightarrow> h = i" "snapshot_key h \<noteq> trie_key i" "snapshot_key h \<noteq> KEY_HEAD"
  "trie_key h \<noteq> KEY_HEAD"
proof -
  have len: "length (to_be_bytes_w (n :: u64)) = 8" for n by (simp add: to_be_bytes_w_def to_le_bytes_w_def)
  have inj: "to_be_bytes_w n = to_be_bytes_w m \<longleftrightarrow> n = m" for n m :: u64
  proof
    assume "to_be_bytes_w n = to_be_bytes_w m"
    then have "le_val (le_digits 8 (unat n)) = le_val (le_digits 8 (unat m))"
      by (simp add: to_be_bytes_w_def to_le_bytes_w_def)
    then show "n = m" using unat_lt [of n] unat_lt [of m] by (simp add: le_val_digits word_unat_eq_iff)
  qed simp
  show "height_key n \<noteq> KEY_HEAD"
  proof
    assume "height_key n = KEY_HEAD"
    then have "length (height_key n) = length KEY_HEAD" by simp
    then show False by (simp add: height_key_def KEY_HEAD_def string_bytes_def len)
  qed
  show "height_key n = height_key m \<longleftrightarrow> n = m" by (simp add: height_key_def inj)
qed (simp_all add: height_key_def block_key_def header_key_def snapshot_key_def trie_key_def KEY_HEAD_def string_bytes_def)

lemmas key_neqs = key_simps(1-5,7-10,13-15,17-19) [symmetric]

definition height_writes ::
  "('d, 'z) disk_env_scheme \<Rightarrow> chain_persist \<Rightarrow> u64 \<Rightarrow> u64 \<Rightarrow> block \<Rightarrow> (bytes \<times> bytes option) list" where
  "height_writes E cp head_number n b =
     (if keeps_body cp head_number n then [(block_key (block_hash E b), Some (bin_block E b))]
      else [(header_key (block_hash E b), Some (bin_header E (blk_header b))), (block_key (block_hash E b), None)]) @
     [(height_key n, Some (block_hash E b))]"

definition state_writes :: "('d, 'z) disk_env_scheme \<Rightarrow> h256 \<Rightarrow> state_db \<Rightarrow> (bytes \<times> bytes option) list" where
  "state_writes E hash s =
     (case trie_nodes E s of (nodes, s') \<Rightarrow>
        map (\<lambda>(k, v). (trie_key k, Some v)) nodes @ [(snapshot_key hash, Some (bin_snapshot E (to_snapshot s')))])"

definition canonical_writes ::
  "('d, 'z) disk_env_scheme \<Rightarrow> chain_persist \<Rightarrow> block_store \<Rightarrow> block \<Rightarrow> (bytes \<times> bytes option) list" where
  "canonical_writes E cp st head =
     (KEY_HEAD, Some (block_hash E head)) #
     concat (map (\<lambda>n. case get_block_by_number st n of None \<Rightarrow> []
        | Some b \<Rightarrow> height_writes E cp (hd_number (blk_header head)) n b) (heights 0 (hd_number (blk_header head)))) @
     concat (map (\<lambda>n. case get_block_by_number st n of None \<Rightarrow> []
        | Some b \<Rightarrow> (case state_at st (block_hash E b) of None \<Rightarrow> [] | Some s \<Rightarrow> state_writes E (block_hash E b) s))
       (heights 0 (hd_number (blk_header head))))"

lemma performs_height:
  assumes "rocks_laws E view"
  shows "performs view (persist_height E cp num n b) (height_writes E cp num n b)"
  unfolding persist_height_def height_writes_def put_block_def put_header_def put_height_def block_hash_def [symmetric]
  using performs_then [OF performs_rocks(1) [OF assms] performs_rocks(2) [OF assms], simplified]
  by (intro performs_then) (auto simp: performs_rocks [OF assms] block_hash_def)

lemma performs_nodes:
  assumes "rocks_laws E view"
  shows "performs view (persist_trie_nodes E nodes) (map (\<lambda>(k, v). (trie_key k, Some v)) nodes)"
proof -
  have "performs view (for_each (\<lambda>(hash, bytes). lift_op (db_put E (trie_key hash) bytes)) nodes)
      (concat (map (\<lambda>(k, v). [(trie_key k, Some v)]) nodes))"
    by (rule performs_each) (auto simp: performs_rocks [OF assms])
  moreover have "concat (map (\<lambda>(k, v). [(trie_key k, Some v)]) nodes) = map (\<lambda>(k, v). (trie_key k, Some v)) nodes"
    by (induction nodes) auto
  ultimately show ?thesis
    using performs_then [OF _ performs_rocks(3) [OF assms]] by (fastforce simp: persist_trie_nodes_def)
qed

lemma performs_state:
  assumes "rocks_laws E view"
  shows "performs view (persist_state E h s) (state_writes E h s)"
  unfolding persist_state_def state_writes_def persist_snapshot_def
  by (auto intro: performs_then [OF performs_nodes [OF assms] performs_rocks(1) [OF assms]] split: prod.split)

lemma performs_canonical:
  assumes laws: "rocks_laws E view" and head: "head_block st = Some head"
  shows "performs view (persist_canonical E cp st b)
    ((block_key (block_hash E b), Some (bin_block E b)) # canonical_writes E cp st head)"
proof -
  let ?ns = "heights 0 (hd_number (blk_header head))"
  have h: "performs view (for_each (\<lambda>n. case get_block_by_number st n of None \<Rightarrow> skip_op
        | Some b \<Rightarrow> persist_height E cp (hd_number (blk_header head)) n b) ?ns)
      (concat (map (\<lambda>n. case get_block_by_number st n of None \<Rightarrow> []
        | Some b \<Rightarrow> height_writes E cp (hd_number (blk_header head)) n b) ?ns))"
    by (rule performs_each) (auto intro: performs_skip performs_height [OF laws] split: option.split)
  have t: "performs view (for_each (\<lambda>n. case get_block_by_number st n of None \<Rightarrow> skip_op
        | Some b \<Rightarrow> (case state_at st (block_hash E b) of None \<Rightarrow> skip_op
            | Some s \<Rightarrow> persist_state E (block_hash E b) s)) ?ns)
      (concat (map (\<lambda>n. case get_block_by_number st n of None \<Rightarrow> []
        | Some b \<Rightarrow> (case state_at st (block_hash E b) of None \<Rightarrow> []
            | Some s \<Rightarrow> state_writes E (block_hash E b) s)) ?ns))"
    by (rule performs_each) (auto intro: performs_skip performs_state [OF laws] split: option.split)
  note r = performs_rocks [OF laws]
  from performs_then [OF r(1) performs_then [OF r(1) performs_then [OF h performs_then [OF t r(3)]]]]
  show ?thesis using head by (simp add: persist_canonical_def put_block_def canonical_writes_def Let_def)
qed

section \<open>The canonical chain by height\<close>

lemma canonical_chain:
  assumes inv: "store_inv E st" and tip: "bs_head st = Some tip" "get_block st tip = Some t"
    and num: "hd_number (blk_header t) \<noteq> - 1"
  shows "length (chain_from st tip) = Suc (unat (hd_number (blk_header t)))"
    "chain_from st tip ! unat (hd_number (blk_header t)) = tip" "distinct (chain_from st tip)"
    "\<And>i. i < length (chain_from st tip) \<Longrightarrow>
       \<exists>b. get_block st (chain_from st tip ! i) = Some b \<and> hd_number (blk_header b) = of_nat i \<and>
         get_block_by_number st (of_nat i) = Some b"
    "\<And>i b. Suc i < length (chain_from st tip) \<Longrightarrow> get_block st (chain_from st tip ! Suc i) = Some b \<Longrightarrow>
       hd_parent_hash (blk_header b) = chain_from st tip ! i"
proof -
  let ?H = "headers (bs_by_hash st)" and ?c = "chain_from st tip"
  obtain rank where rank: "linked_by E (bs_consensus st) ?H (length (bs_by_hash st)) rank"
    using inv by (auto simp: store_inv_def)
  have H: "?H tip = Some (blk_header t)" using tip(2) by (simp add: headers_def get_block_def)
  have a: "ancestry ?H tip (walk_to_genesis st tip)" by (rule walk_linked [OF rank H])
  have "map (\<lambda>a. unat (hd_number (the (?H a)))) ?c = [0..<Suc (unat (hd_number (blk_header t)))]"
    unfolding chain_from_def rev_map [symmetric] ancestry_numbers [OF a rank H num] by simp
  then have nums: "map (\<lambda>a. unat (hd_number (the (?H a)))) ?c = [0..<Suc (unat (hd_number (blk_header t)))]" .
  show len: "length ?c = Suc (unat (hd_number (blk_header t)))" using arg_cong [OF nums, of length] by simp
  have "last ?c = tip" using ancestry_ends [OF a] by (simp add: chain_from_def last_rev)
  then show "?c ! unat (hd_number (blk_header t)) = tip" using len by (metis last_conv_nth diff_Suc_1 list.size(3) nat.simps(3))
  show "distinct ?c" using arg_cong [OF nums, of distinct] by (simp add: distinct_map del: upt_Suc)
  have known: "\<exists>b. get_block st h = Some b \<and> the (?H h) = blk_header b" if "h \<in> set ?c" for h
    using ancestry_known [OF a, of h] that by (auto simp: chain_from_def headers_def get_block_def)
  have canon: "bs_by_number st = canonical_index st tip" using inv tip(1) by (simp add: store_inv_def)
  show "\<exists>b. get_block st (?c ! i) = Some b \<and> hd_number (blk_header b) = of_nat i \<and>
      get_block_by_number st (of_nat i) = Some b" if i: "i < length ?c" for i
  proof -
    have mem: "?c ! i \<in> set ?c" using i by simp
    obtain b where b: "get_block st (?c ! i) = Some b" "the (?H (?c ! i)) = blk_header b" using known [OF mem] by blast
    have "map (\<lambda>a. unat (hd_number (the (?H a)))) ?c ! i = i" unfolding nums using i len by (simp del: upt_Suc)
    then have "unat (hd_number (blk_header b)) = i" using i b(2) by simp
    then have n: "hd_number (blk_header b) = of_nat i" by auto
    have "number_of (bs_by_hash st) (?c ! i) = of_nat i"
      using b(1) n by (simp add: number_of_def get_block_def)
    then have "hm_get (bs_by_number st) (of_nat i) = Some (?c ! i)"
      using canonical_index_complete [OF rank H num, of "?c ! i"] mem canon by (simp add: chain_from_def)
    then show ?thesis using b(1) n by (simp add: get_block_by_number_def)
  qed
  show "hd_parent_hash (blk_header b) = ?c ! i"
    if i: "Suc i < length ?c" and b: "get_block st (?c ! Suc i) = Some b" for i b
  proof -
    have "successively (\<lambda>a b. hd_parent_hash (the (?H b)) = a) ?c"
      unfolding chain_from_def successively_rev
      by (rule successively_mono [OF ancestry_links [OF a rank]]) auto
    then have "hd_parent_hash (the (?H (?c ! Suc i))) = ?c ! i" using i by (simp add: successively_conv_nth)
    then show ?thesis using b by (simp add: headers_def get_block_def)
  qed
qed

section \<open>Reading the archive back\<close>

text \<open>The entries of the canonical chain in a database view.\<close>

definition holds_chain ::
  "('d, 'z) disk_env_scheme \<Rightarrow> (bytes \<rightharpoonup> bytes) \<Rightarrow> block_store \<Rightarrow> h256 \<Rightarrow> bool" where
  "holds_chain E m st tip \<longleftrightarrow> m KEY_HEAD = Some tip \<and>
     (\<forall>i < length (chain_from st tip). let h = chain_from st tip ! i in
        m (height_key (of_nat i)) = Some h \<and>
        m (block_key h) = Some (bin_block E (the (get_block st h))) \<and>
        (\<forall>s. hm_get (bs_snapshots st) h = Some s \<longrightarrow> m (snapshot_key h) = Some (bin_snapshot E (to_snapshot s))))"

text \<open>The same without the snapshots.\<close>

definition holds_blocks ::
  "('d, 'z) disk_env_scheme \<Rightarrow> (bytes \<rightharpoonup> bytes) \<Rightarrow> block_store \<Rightarrow> h256 \<Rightarrow> bool" where
  "holds_blocks E m st tip \<longleftrightarrow> m KEY_HEAD = Some tip \<and>
     (\<forall>i < length (chain_from st tip). let h = chain_from st tip ! i in
        m (height_key (of_nat i)) = Some h \<and> m (block_key h) = Some (bin_block E (the (get_block st h))))"

lemma holds_chain_blocks: "holds_chain E m st tip \<Longrightarrow> holds_blocks E m st tip"
  by (simp add: holds_chain_def holds_blocks_def Let_def)

lemma trie_nodes_inv: "state_inv E s \<Longrightarrow> snd (trie_nodes E s) = s"
  using root_hash_inv [of E s] by (simp add: trie_nodes_def root_hash_def Let_def)

lemma canonical_heights: "m \<in> set (heights 0 n) \<longleftrightarrow> m \<le> n"
proof
  assume "m \<in> set (heights 0 n)"
  then obtain i where "i \<le> unat n" "m = of_nat i" by (auto simp: heights_def less_Suc_eq_le simp del: upt_Suc)
  then show "m \<le> n" by (simp add: word_le_nat_alt le_unat_uoi)
next
  assume "m \<le> n"
  then have "unat m \<in> set [0..<Suc (unat n)]" by (simp add: word_le_nat_alt less_Suc_eq_le del: upt_Suc)
  then show "m \<in> set (heights 0 n)" unfolding heights_def set_map by (intro image_eqI [of _ _ "unat m"]) simp_all
qed

lemma canonical_hash:
  assumes "store_inv E st" "get_block_by_number st n = Some b"
  shows "get_block st (block_hash E b) = Some b"
  using assms store_inv_hash [OF assms(1)] by (auto simp: get_block_by_number_def split: option.splits)

text \<open>The entries an archiving write consists of.\<close>

inductive chain_entry ::
  "('d, 'z) disk_env_scheme \<Rightarrow> block_store \<Rightarrow> h256 \<Rightarrow> bytes \<Rightarrow> bytes option \<Rightarrow> bool" for E st tip where
  ce_head: "chain_entry E st tip KEY_HEAD (Some tip)"
| ce_block: "get_block st h = Some a \<Longrightarrow> chain_entry E st tip (block_key h) (Some (bin_block E a))"
| ce_height: "get_block_by_number st n = Some a \<Longrightarrow> chain_entry E st tip (height_key n) (Some (block_hash E a))"
| ce_snapshot: "hm_get (bs_snapshots st) h = Some s \<Longrightarrow>
    chain_entry E st tip (snapshot_key h) (Some (bin_snapshot E (to_snapshot s)))"
| ce_trie: "chain_entry E st tip (trie_key h) (Some y)"

lemma chain_entry_unique:
  "chain_entry E st tip KEY_HEAD v \<Longrightarrow> v = Some tip"
  "chain_entry E st tip (block_key h) v \<Longrightarrow> \<exists>a. get_block st h = Some a \<and> v = Some (bin_block E a)"
  "chain_entry E st tip (height_key n) v \<Longrightarrow> \<exists>a. get_block_by_number st n = Some a \<and> v = Some (block_hash E a)"
  "chain_entry E st tip (snapshot_key h) v \<Longrightarrow>
     \<exists>s. hm_get (bs_snapshots st) h = Some s \<and> v = Some (bin_snapshot E (to_snapshot s))"
  by (erule chain_entry.cases; simp add: key_simps key_neqs)+

lemma state_writes_inv:
  "state_inv E s \<Longrightarrow> state_writes E h s =
     map (\<lambda>(k, v). (trie_key k, Some v)) (fst (trie_nodes E s)) @ [(snapshot_key h, Some (bin_snapshot E (to_snapshot s)))]"
  using trie_nodes_inv [of E s] by (cases "trie_nodes E s") (simp add: state_writes_def)

lemma writes_sound:
  assumes inv: "chain_inv E st live" and ar: "cp_archive cp" and t: "block_hash E t = tip"
    and w: "(k, v) \<in> set (canonical_writes E cp st t)"
  shows "chain_entry E st tip k v"
proof -
  have sinv: "store_inv E st" using inv by (simp add: chain_inv_def)
  consider "(k, v) = (KEY_HEAD, Some tip)"
    | n a where "get_block_by_number st n = Some a"
        "(k, v) \<in> set (height_writes E cp (hd_number (blk_header t)) n a)"
    | n a s where "get_block_by_number st n = Some a" "state_at st (block_hash E a) = Some s"
        "(k, v) \<in> set (state_writes E (block_hash E a) s)"
    using w t by (fastforce simp: canonical_writes_def split: option.splits)
  then show ?thesis
  proof cases
    case 2
    then show ?thesis using canonical_hash [OF sinv 2(1)]
      by (auto simp: height_writes_def keeps_body_def ar intro: ce_block ce_height)
  next
    case 3
    then have "hm_get (bs_snapshots st) (block_hash E a) = Some s" by (auto simp: state_at_def)
    then show ?thesis using 3(3) state_writes_inv [OF chain_snapshot(1) [OF inv]]
      by (auto intro: ce_trie ce_snapshot)
  qed (auto intro: ce_head)
qed

lemma writes_complete:
  assumes inv: "chain_inv E st live" and ar: "cp_archive cp" and t: "block_hash E t = tip"
  shows "(KEY_HEAD, Some tip) \<in> set (canonical_writes E cp st t)"
    "get_block_by_number st n = Some a \<Longrightarrow> n \<le> hd_number (blk_header t) \<Longrightarrow>
       (block_key (block_hash E a), Some (bin_block E a)) \<in> set (canonical_writes E cp st t) \<and>
       (height_key n, Some (block_hash E a)) \<in> set (canonical_writes E cp st t) \<and>
       (\<forall>s. hm_get (bs_snapshots st) (block_hash E a) = Some s \<longrightarrow>
         (snapshot_key (block_hash E a), Some (bin_snapshot E (to_snapshot s))) \<in> set (canonical_writes E cp st t))"
proof -
  show "(KEY_HEAD, Some tip) \<in> set (canonical_writes E cp st t)" by (simp add: canonical_writes_def t)
  assume a: "get_block_by_number st n = Some a" "n \<le> hd_number (blk_header t)"
  have "set (height_writes E cp (hd_number (blk_header t)) n a) \<subseteq> set (canonical_writes E cp st t)"
    using a canonical_heights [of n] by (force simp: canonical_writes_def)
  moreover have "set (state_writes E (block_hash E a) s) \<subseteq> set (canonical_writes E cp st t)"
    if "hm_get (bs_snapshots st) (block_hash E a) = Some s" for s
    using a that canonical_heights [of n] by (force simp: canonical_writes_def state_at_def)
  ultimately show "(block_key (block_hash E a), Some (bin_block E a)) \<in> set (canonical_writes E cp st t) \<and>
       (height_key n, Some (block_hash E a)) \<in> set (canonical_writes E cp st t) \<and>
       (\<forall>s. hm_get (bs_snapshots st) (block_hash E a) = Some s \<longrightarrow>
         (snapshot_key (block_hash E a), Some (bin_snapshot E (to_snapshot s))) \<in> set (canonical_writes E cp st t))"
    using state_writes_inv [OF chain_snapshot(1) [OF inv]]
    by (auto simp: height_writes_def keeps_body_def ar)
qed

lemma persisted_archive:
  assumes laws: "rocks_laws E view" and ar: "cp_archive cp" and inv: "chain_inv E st live"
    and tip: "bs_head st = Some tip" "get_block st tip = Some t" and num: "hd_number (blk_header t) \<noteq> - 1"
  shows "\<exists>d'. persist_canonical E cp st b d = (Inr (), d') \<and> holds_chain E (view d') st tip"
proof -
  have sinv: "store_inv E st" using inv by (simp add: chain_inv_def)
  have hash: "block_hash E t = tip" by (rule store_inv_hash [OF sinv tip(2)])
  have head: "head_block st = Some t" using tip by (simp add: head_block_def)
  let ?w = "canonical_writes E cp st t" and ?f = "(block_key (block_hash E b), Some (bin_block E b))"
  obtain d' where d': "persist_canonical E cp st b d = (Inr (), d')" "view d' = fold set_key ?w (set_key ?f (view d))"
    using performs_canonical [OF laws head, of cp b] by (auto simp: performs_def)
  note c = canonical_chain [OF sinv tip num]
  note sound = writes_sound [OF inv ar hash] and complete = writes_complete [OF inv ar hash]
  have "view d' KEY_HEAD = Some tip"
    unfolding d'(2) by (rule fold_write [OF complete(1) chain_entry_unique(1) [OF sound]])
  moreover have "view d' (height_key (of_nat i)) = Some h \<and> view d' (block_key h) = Some (bin_block E (the (get_block st h))) \<and>
      (\<forall>s. hm_get (bs_snapshots st) h = Some s \<longrightarrow> view d' (snapshot_key h) = Some (bin_snapshot E (to_snapshot s)))"
    if i: "i < length (chain_from st tip)" and h: "h = chain_from st tip ! i" for i h
  proof -
    obtain a where a: "get_block st h = Some a" "get_block_by_number st (of_nat i) = Some a" using c(4) [OF i] h by blast
    have ha: "block_hash E a = h" by (rule store_inv_hash [OF sinv a(1)])
    have "of_nat i \<le> hd_number (blk_header t)" using i c(1) by (simp add: word_le_nat_alt le_unat_uoi less_Suc_eq_le)
    note w = complete(2) [OF a(2) this, unfolded ha]
    show ?thesis unfolding d'(2)
    proof (intro conjI allI impI)
      show "fold set_key ?w (set_key ?f (view d)) (height_key (of_nat i)) = Some h"
        by (rule fold_write) (use w chain_entry_unique(3) [OF sound] a(2) ha in fastforce)+
      show "fold set_key ?w (set_key ?f (view d)) (block_key h) = Some (bin_block E (the (get_block st h)))"
        by (rule fold_write) (use w chain_entry_unique(2) [OF sound] a(1) in fastforce)+
      show "fold set_key ?w (set_key ?f (view d)) (snapshot_key h) = Some (bin_snapshot E (to_snapshot s))"
        if "hm_get (bs_snapshots st) h = Some s" for s
        by (rule fold_write) (use w chain_entry_unique(4) [OF sound] that in fastforce)+
    qed
  qed
  ultimately show ?thesis using d'(1) by (auto simp: holds_chain_def Let_def)
qed

section \<open>Reloading an archive\<close>

lemma read_block:
  assumes "rocks_laws E view" "disk_codec_laws E" "view d (block_key h) = Some (bin_block E b)"
  shows "persist_get_block E h d = Inr (Some b)"
  using assms by (simp add: persist_get_block_def db_read_view disk_codec_laws_def)

lemma read_height:
  assumes "rocks_laws E view" "disk_codec_laws E" "length h = 32"
    "view d (height_key n) = Some h" "view d (block_key h) = Some (bin_block E b)"
  shows "get_block_by_height E n d = Inr (Some b)"
  using assms read_block [OF assms(1,2,5)]
  by (simp add: get_block_by_height_def db_read_view hash_from_slice_def)

lemma read_snapshot:
  assumes "rocks_laws E view" "disk_codec_laws E" "state_inv E s"
    "view d (snapshot_key h) = Some (bin_snapshot E (to_snapshot s))"
  shows "get_snapshot E h d = Inr (Some s)"
  using assms
  by (simp add: get_snapshot_def db_read_view disk_codec_laws_def state_inv_def snapshot_roundtrip)

text \<open>The store after the first blocks of the chain \<open>c\<close> of \<open>st\<close> have been inserted.\<close>

definition loaded :: "('d, 'z) disk_env_scheme \<Rightarrow> block_store \<Rightarrow> h256 list \<Rightarrow> nat \<Rightarrow> block_store \<Rightarrow> bool" where
  "loaded E st c i st' \<longleftrightarrow>
     store_inv E st' \<and> bs_consensus st' = bs_consensus st \<and> bs_snapshots st' = [] \<and> bs_head st' = Some (c ! i) \<and>
     get_block st' = (\<lambda>h. if h \<in> set (take (Suc i) c) then get_block st h else None)"

lemma load_next:
  assumes inv: "store_inv E st" and tip: "bs_head st = Some tip" "get_block st tip = Some t"
    and num: "hd_number (blk_header t) \<noteq> - 1" and valid: "block_validate E b = Inr ()"
    and l: "loaded E st (chain_from st tip) i st1" and i: "Suc i < length (chain_from st tip)"
    and b: "get_block st (chain_from st tip ! Suc i) = Some b"
  shows "\<exists>out st2. insert_block E b st1 = (Inr out, st2) \<and> loaded E st (chain_from st tip) (Suc i) st2"
proof -
  let ?c = "chain_from st tip"
  note c = canonical_chain [OF inv tip num]
  have s1: "store_inv E st1" "bs_consensus st1 = bs_consensus st" "bs_head st1 = Some (?c ! i)"
    "get_block st1 = (\<lambda>h. if h \<in> set (take (Suc i) ?c) then get_block st h else None)"
    using l by (simp_all add: loaded_def)
  have hash: "block_hash E b = ?c ! Suc i" by (rule store_inv_hash [OF inv b])
  have new: "?c ! Suc i \<notin> set (take (Suc i) ?c)"
    using c(3) i by (auto simp: in_set_conv_nth nth_eq_iff_index_eq)
  have old: "?c ! i \<in> set (take (Suc i) ?c)" using i by (simp add: take_Suc_conv_app_nth)
  obtain p where p: "get_block st (?c ! i) = Some p" "hd_number (blk_header p) = of_nat i" using c(4) [of i] i by auto
  have nb: "hd_number (blk_header b) = of_nat (Suc i)" using c(4) [OF i] b by auto
  have lt: "Suc i < 2 ^ 64" using i c(1) unat_lt [of "hd_number (blk_header t)"] by simp
  then have "unat (of_nat (Suc i) :: u64) = Suc i" "unat (of_nat i :: u64) = i"
    by (simp_all add: unat_of_nat del: of_nat_Suc)
  then have less: "hd_number (blk_header p) < hd_number (blk_header b)" "hd_number (blk_header b) \<noteq> 0"
    unfolding nb p(2) word_less_nat_alt word_unat_eq_iff by simp_all
  have parent: "hd_parent_hash (blk_header b) = ?c ! i" by (rule c(5) [OF i b])
  have "accepted E (bs_consensus st) (headers (bs_by_hash st)) (blk_header b)"
    using inv b by (auto simp: store_inv_def linked_by_def headers_def get_block_def)
  moreover have "headers (bs_by_hash st1) (?c ! i) = headers (bs_by_hash st) (?c ! i)"
    using old s1(4) by (simp add: headers_def get_block_def fun_eq_iff)
  ultimately have acc: "accepted E (bs_consensus st1) (headers (bs_by_hash st1)) (blk_header b)"
    using less(2) by (simp add: accepted_def parent s1(2))
  have fresh: "get_block st1 (block_hash E b) = None" using new by (simp add: s1(4) hash)
  have "get_block st1 (?c ! i) = Some p" using old p(1) by (simp add: s1(4))
  then obtain out st2 where ins: "insert_block E b st1 = (Inr out, st2)" and ch: "io_head_changed out"
    using insert_fresh [OF s1(1) acc less(2) valid fresh] s1(3) less(1) by metis
  note r = insert_block_Inr [OF s1(1) ins]
  have "get_block st2 = (get_block st1)(block_hash E b \<mapsto> b)"
    by (simp add: get_block_def r(3) fun_eq_iff hm_simps)
  then have "get_block st2 = (\<lambda>h. if h \<in> set (take (Suc (Suc i)) ?c) then get_block st h else None)"
    using i b by (auto simp: s1(4) hash take_Suc_conv_app_nth [of "Suc i"] fun_eq_iff)
  then have "loaded E st ?c (Suc i) st2"
    using insert_block_inv [OF s1(1) ins] r(4,5,7) ch l by (simp add: loaded_def hash)
  then show ?thesis using ins by blast
qed

lemma load_rest:
  assumes inv: "store_inv E st" and tip: "bs_head st = Some tip" "get_block st tip = Some t"
    and num: "hd_number (blk_header t) \<noteq> - 1"
    and valid: "\<And>h b. get_block st h = Some b \<Longrightarrow> block_validate E b = Inr ()"
    and reads: "\<And>i. i < length (chain_from st tip) \<Longrightarrow>
      get_block_by_height E (of_nat i) d = Inr (get_block st (chain_from st tip ! i))"
    and step: "\<And>i b st1 out st2. Suc i < length (chain_from st tip) \<Longrightarrow> get_block st (chain_from st tip ! Suc i) = Some b \<Longrightarrow>
      loaded E st (chain_from st tip) i st1 \<Longrightarrow> Q i st1 \<Longrightarrow> insert_block E b st1 = (Inr out, st2) \<Longrightarrow> Q (Suc i) st2"
    and l: "loaded E st (chain_from st tip) i st1" "Q i st1" and i: "i < length (chain_from st tip)"
  shows "\<exists>st2. load_each (load_height E d) (map of_nat [Suc i..<length (chain_from st tip)]) st1 = (Inr (), st2) \<and>
    loaded E st (chain_from st tip) (length (chain_from st tip) - 1) st2 \<and> Q (length (chain_from st tip) - 1) st2"
  using l i
proof (induction "length (chain_from st tip) - Suc i" arbitrary: i st1)
  case 0
  then have "length (chain_from st tip) = Suc i" by simp
  then show ?case using 0 by simp
next
  case (Suc k)
  let ?c = "chain_from st tip"
  have i: "Suc i < length ?c" using Suc.hyps(2) by simp
  obtain b where b: "get_block st (?c ! Suc i) = Some b" using canonical_chain(4) [OF inv tip num i] by blast
  obtain out st2 where ins: "insert_block E b st1 = (Inr out, st2)" and l2: "loaded E st ?c (Suc i) st2"
    using load_next [OF inv tip num valid [OF b] Suc.prems(1) i b] by blast
  have "load_height E d (of_nat (Suc i)) st1 = (Inr (), st2)"
    using reads [OF i] b ins by (simp add: load_height_def del: of_nat_Suc)
  moreover have "[Suc i..<length ?c] = Suc i # [Suc (Suc i)..<length ?c]" using i by (simp add: upt_conv_Cons)
  moreover have "Q (Suc i) st2" by (rule step [OF i b Suc.prems(1,2) ins])
  ultimately show ?case using Suc.hyps(1) [of "Suc i" st2] Suc.hyps(2) l2 i by (simp del: of_nat_Suc)
qed

lemma by_number_snapshots [simp]: "get_block_by_number (st \<lparr> bs_snapshots := m \<rparr>) = get_block_by_number st"
  by (simp add: get_block_by_number_def fun_eq_iff split: option.split)

lemma load_snapshots:
  assumes "\<forall>n \<in> set ns. \<exists>b. get_block_by_number st n = Some b \<and>
      get_snapshot E (block_hash E b) d = Inr (Some (S (block_hash E b)))"
  shows "\<exists>m. load_each (load_snapshot E d) ns st = (Inr (), st \<lparr> bs_snapshots := m \<rparr>) \<and>
    (\<forall>n \<in> set ns. \<forall>b. get_block_by_number st n = Some b \<longrightarrow> hm_get m (block_hash E b) = Some (S (block_hash E b))) \<and>
    (\<forall>h. hm_get (bs_snapshots st) h = Some (S h) \<longrightarrow> hm_get m h = Some (S h))"
  using assms
proof (induction ns arbitrary: st)
  case Nil
  have "st = st \<lparr> bs_snapshots := bs_snapshots st \<rparr>" by simp
  then show ?case by (intro exI [of _ "bs_snapshots st"]) simp
next
  case (Cons n ns)
  obtain b where b: "get_block_by_number st n = Some b" "get_snapshot E (block_hash E b) d = Inr (Some (S (block_hash E b)))"
    using Cons.prems by auto
  let ?st = "record_state (block_hash E b) (S (block_hash E b)) st"
  have same: "get_block_by_number ?st = get_block_by_number st"
    by (simp add: record_state_def)
  obtain m where m: "load_each (load_snapshot E d) ns ?st = (Inr (), ?st \<lparr> bs_snapshots := m \<rparr>)"
    "\<forall>n \<in> set ns. \<forall>b. get_block_by_number st n = Some b \<longrightarrow> hm_get m (block_hash E b) = Some (S (block_hash E b))"
    "\<forall>h. hm_get (bs_snapshots ?st) h = Some (S h) \<longrightarrow> hm_get m h = Some (S h)"
    using Cons.IH [of ?st] Cons.prems same by auto
  have "load_snapshot E d n st = (Inr (), ?st)" using b by (simp add: load_snapshot_def)
  moreover have "?st \<lparr> bs_snapshots := m \<rparr> = st \<lparr> bs_snapshots := m \<rparr>" by (simp add: record_state_def)
  moreover have "hm_get (bs_snapshots ?st) h = (if h = block_hash E b then Some (S h) else hm_get (bs_snapshots st) h)" for h
    by (simp add: record_state_def hm_simps)
  ultimately show ?case using m b(1) by (intro exI [of _ m]) auto
qed

lemma heights_range:
  "heights 0 n = map of_nat [0..<Suc (unat n)]" "heights 1 n = map of_nat [Suc 0..<Suc (unat n)]"
  by (simp_all add: heights_def)

lemma canonical_snapshots:
  assumes inv: "store_inv E st" and tip: "bs_head st = Some tip" "get_block st tip = Some t"
    and num: "hd_number (blk_header t) \<noteq> - 1" and ar: "archive_inv E g s0 st"
    and live: "hm_get (bs_snapshots st) tip = Some live" and i: "i < length (chain_from st tip)"
  shows "hm_get (bs_snapshots st) (chain_from st tip ! i) \<noteq> None"
proof -
  let ?c = "chain_from st tip"
  note c = canonical_chain [OF inv tip num]
  have "k < length ?c \<Longrightarrow> hm_get (bs_snapshots st) (?c ! (length ?c - Suc k)) \<noteq> None" for k
  proof (induction k)
    case 0
    then show ?case using c(1,2) live by simp
  next
    case (Suc k)
    let ?j = "length ?c - Suc (Suc k)"
    have j: "Suc ?j < length ?c" "length ?c - Suc k = Suc ?j" using Suc.prems by simp_all
    obtain b where b: "get_block st (?c ! Suc ?j) = Some b" "hd_number (blk_header b) = of_nat (Suc ?j)"
      using c(4) [OF j(1)] by blast
    have "Suc ?j < 2 ^ 64" using j(1) c(1) unat_lt [of "hd_number (blk_header t)"] by simp
    then have "unat (hd_number (blk_header b)) = Suc ?j" unfolding b(2) by (simp add: unat_of_nat del: of_nat_Suc)
    then have "hd_number (blk_header b) \<noteq> 0" by auto
    then have "hm_get (bs_snapshots st) (hd_parent_hash (blk_header b)) \<noteq> None"
      using ar b(1) Suc.IH Suc.prems j(2) by (simp add: archive_inv_def)
    then show ?case using c(5) [OF j(1) b(1)] by simp
  qed
  from this [of "length ?c - Suc i"] show ?thesis using i by (simp add: Suc_diff_Suc)
qed

lemma loaded_genesis:
  assumes inv: "store_inv E st" and tip: "bs_head st = Some tip" "get_block st tip = Some t"
    and num: "hd_number (blk_header t) \<noteq> - 1" and valid: "block_validate E g = Inr ()"
    and g: "chain_from st tip ! 0 = block_hash E g" "get_block st (block_hash E g) = Some g"
      "hd_number (blk_header g) = 0"
  shows "\<exists>out st1. insert_genesis E g (store_new (bs_consensus st)) = (Inr out, st1) \<and> loaded E st (chain_from st tip) 0 st1"
proof -
  let ?s = "store_new (bs_consensus st)" and ?c = "chain_from st tip"
  have "accepted E (bs_consensus st) (headers (bs_by_hash st)) (blk_header g)"
    using inv g(2) by (auto simp: store_inv_def linked_by_def headers_def get_block_def)
  then have "insert_genesis E g ?s = insert_validated E g ?s"
    using g(3) valid by (simp add: insert_genesis_def accepted_def store_new_def)
  then have "\<exists>out st1. insert_genesis E g ?s = (Inr out, st1)"
    by (simp add: insert_validated_def store_new_def hm_simps Let_def)
  then obtain out st1 where ins: "insert_genesis E g ?s = (Inr out, st1)" by blast
  note i = insert_genesis_Inr [OF ins]
  have "take (Suc 0) ?c = [block_hash E g]"
    using canonical_chain(1) [OF inv tip num] g(1) by (cases ?c) simp_all
  then have "loaded E st ?c 0 st1"
    using i g by (auto simp: loaded_def get_block_def hm_get_def fun_eq_iff)
  then show ?thesis using ins by blast
qed

lemma loaded_indexes:
  assumes inv: "store_inv E st" and tip: "bs_head st = Some tip" "get_block st tip = Some t"
    and num: "hd_number (blk_header t) \<noteq> - 1" and l: "loaded E st (chain_from st tip) (length (chain_from st tip) - 1) st'"
  shows "bs_head st' = Some tip" "get_block_by_number st' = get_block_by_number st"
    "\<And>h. h \<in> set (chain_from st tip) \<Longrightarrow> get_block st' h = get_block st h"
proof -
  let ?c = "chain_from st tip"
  note c = canonical_chain [OF inv tip num]
  show head: "bs_head st' = Some tip" using l c(1,2) by (simp add: loaded_def)
  have blocks: "get_block st' = (\<lambda>h. if h \<in> set ?c then get_block st h else None)"
    using l c(1) by (simp add: loaded_def)
  then show "get_block st' h = get_block st h" if "h \<in> set ?c" for h using that by simp
  have inv': "store_inv E st'" using l by (simp add: loaded_def)
  obtain rank rank' where r:
    "linked_by E (bs_consensus st') (headers (bs_by_hash st')) (length (bs_by_hash st')) rank"
    "linked_by E (bs_consensus st) (headers (bs_by_hash st)) (length (bs_by_hash st)) rank'"
    using inv inv' by (auto simp: store_inv_def)
  have "tip \<in> set ?c" using c(1,2) by (metis lessI nth_mem)
  then have y: "headers (bs_by_hash st') tip = Some (blk_header t)"
    using tip(2) blocks by (simp add: headers_def get_block_def fun_eq_iff)
  have "headers (bs_by_hash st') \<subseteq>\<^sub>m headers (bs_by_hash st)"
    using blocks by (auto simp: headers_def get_block_def fun_eq_iff map_le_def)
  from canonical_index_ext [OF r y this]
  have idx: "canonical_index st' tip = canonical_index st tip" by simp
  have nums: "bs_by_number st' = bs_by_number st" "bs_by_number st = canonical_index st tip"
    using inv inv' tip(1) head idx by (simp_all add: store_inv_def)
  have "get_block st' h = get_block st h" if "hm_get (bs_by_number st) n = Some h" for n h
    using canonical_index_sound [of st tip n h] that nums(2) blocks by (simp add: chain_from_def)
  then show "get_block_by_number st' = get_block_by_number st"
    by (auto simp: get_block_by_number_def nums(1) fun_eq_iff split: option.split)
qed

lemma holds_reads:
  assumes laws: "rocks_laws E view" "disk_codec_laws E" "keccak_laws E" and sinv: "store_inv E st"
    and tip: "bs_head st = Some tip" "get_block st tip = Some t" and num: "hd_number (blk_header t) \<noteq> - 1"
    and holds: "holds_blocks E (view d) st tip"
  shows "i < length (chain_from st tip) \<Longrightarrow> get_block_by_height E (of_nat i) d = Inr (get_block st (chain_from st tip ! i))"
    "db_read E KEY_HEAD d = Inr (Some tip)" "persist_get_block E tip d = Inr (Some t)" "length tip = 32"
proof -
  let ?c = "chain_from st tip"
  note c = canonical_chain [OF sinv tip num]
  have len: "length h = 32" if "get_block st h = Some a" for h a
    using store_inv_hash [OF sinv that] laws(3) by (auto simp: block_hash_def header_hash_def)
  show "get_block_by_height E (of_nat i) d = Inr (get_block st (?c ! i))" if i: "i < length ?c" for i
  proof -
    obtain a where a: "get_block st (?c ! i) = Some a" using c(4) [OF i] by blast
    show ?thesis using read_height [OF laws(1,2) len [OF a]] holds i a by (simp add: holds_blocks_def Let_def)
  qed
  have "view d KEY_HEAD = Some tip" using holds by (simp add: holds_blocks_def)
  then show "db_read E KEY_HEAD d = Inr (Some tip)" by (simp add: db_read_view [OF laws(1)])
  show "persist_get_block E tip d = Inr (Some t)"
    using read_block [OF laws(1,2)] holds c(1,2) tip(2) by (metis holds_blocks_def lessI option.sel)
  show "length tip = 32" by (rule len [OF tip(2)])
qed

lemma load_archive_snapshots:
  assumes laws: "rocks_laws E view" "disk_codec_laws E" and inv: "chain_inv E st live"
    and tip: "bs_head st = Some tip" "get_block st tip = Some t" and num: "hd_number (blk_header t) \<noteq> - 1"
    and arch: "archive_inv E g s0 st" and holds: "holds_chain E (view d) st tip"
    and same: "get_block_by_number st2 = get_block_by_number st"
  shows "\<exists>m. load_each (load_snapshot E d) (heights 0 (hd_number (blk_header t))) st2 =
      (Inr (), st2 \<lparr> bs_snapshots := m \<rparr>) \<and>
    (\<forall>h \<in> set (chain_from st tip). hm_get m h = hm_get (bs_snapshots st) h)"
proof -
  let ?c = "chain_from st tip" and ?S = "\<lambda>h. the (hm_get (bs_snapshots st) h)"
  have sinv: "store_inv E st" and live: "hm_get (bs_snapshots st) tip = Some live"
    using inv tip(1) by (simp_all add: chain_inv_def)
  note c = canonical_chain [OF sinv tip num]
  have snaps: "\<exists>a. get_block_by_number st2 n = Some a \<and> get_snapshot E (block_hash E a) d = Inr (Some (?S (block_hash E a))) \<and>
      block_hash E a = ?c ! unat n \<and> hm_get (bs_snapshots st) (?c ! unat n) = Some (?S (?c ! unat n))"
    if n: "n \<in> set (heights 0 (hd_number (blk_header t)))" for n
  proof -
    have i: "unat n < length ?c" using n c(1) by (simp add: canonical_heights word_le_nat_alt less_Suc_eq_le)
    obtain a where a: "get_block st (?c ! unat n) = Some a" "get_block_by_number st n = Some a" using c(4) [OF i] by auto
    have h: "block_hash E a = ?c ! unat n" by (rule store_inv_hash [OF sinv a(1)])
    obtain s where s: "hm_get (bs_snapshots st) (?c ! unat n) = Some s"
      using canonical_snapshots [OF sinv tip num arch live i] by auto
    have "get_snapshot E (?c ! unat n) d = Inr (Some s)"
      using read_snapshot [OF laws chain_snapshot(1) [OF inv s]] holds i s by (simp add: holds_chain_def Let_def)
    then show ?thesis using a(2) h s same by simp
  qed
  obtain m where m: "load_each (load_snapshot E d) (heights 0 (hd_number (blk_header t))) st2 =
      (Inr (), st2 \<lparr> bs_snapshots := m \<rparr>)"
    "\<forall>n \<in> set (heights 0 (hd_number (blk_header t))). \<forall>a. get_block_by_number st2 n = Some a \<longrightarrow>
       hm_get m (block_hash E a) = Some (?S (block_hash E a))"
    using load_snapshots [of "heights 0 (hd_number (blk_header t))" st2 E d ?S] snaps by blast
  have "hm_get m h = hm_get (bs_snapshots st) h" if h: "h \<in> set ?c" for h
  proof -
    obtain i where i: "i < length ?c" "h = ?c ! i" using h by (auto simp: in_set_conv_nth)
    have "i < 2 ^ 64" using i(1) c(1) unat_lt [of "hd_number (blk_header t)"] by simp
    then have "unat (of_nat i :: u64) = i" by (simp add: unat_of_nat)
    moreover from this have "of_nat i \<in> set (heights 0 (hd_number (blk_header t)))"
      using i(1) c(1) by (simp add: canonical_heights word_le_nat_alt)
    ultimately show ?thesis using snaps [of "of_nat i"] m(2) i(2) by fastforce
  qed
  then show ?thesis using m(1) by blast
qed

section \<open>A sample database\<close>

text \<open>A map as the database, and a digest that never gives the zero hash.\<close>

definition enc_snapshot :: "state_snapshot encoder" where
  "enc_snapshot = enc_pair (enc_list (enc_pair enc_bytes enc_account))
       (enc_pair (enc_list (enc_pair enc_bytes (enc_pair enc_bytes enc_u256))) (enc_list (enc_pair enc_bytes enc_bytes))) \<circ>
     (\<lambda>s. (sn_accounts s, sn_storage s, sn_code s))"

definition dec_snapshot :: "state_snapshot decoder" where
  "dec_snapshot = dec_map (\<lambda>(a, s, c). \<lparr> sn_accounts = a, sn_storage = s, sn_code = c \<rparr>)
     (dec_pair (dec_list (dec_pair dec_bytes dec_account))
       (dec_pair (dec_list (dec_pair dec_bytes (dec_pair dec_bytes dec_u256))) (dec_list (dec_pair dec_bytes dec_bytes))))"

lemma codec_snapshot: "codec enc_snapshot dec_snapshot"
  unfolding enc_snapshot_def dec_snapshot_def
  by (intro codec_iso codec_pair codec_list codec_bytes codec_account codec_u256) simp

definition ref_disk :: "(bytes \<rightharpoonup> bytes) disk_env" where
  "ref_disk = vm_env.extend (ref_vm \<lparr> sha3_keccak256 := \<lambda>bs. take 32 (1 # bs @ replicate 32 0) \<rparr>)
     \<lparr> rocks_get = (\<lambda>k d. Inr (d k)), rocks_put = (\<lambda>k v d. (Inr (), d(k \<mapsto> v))),
       rocks_delete = (\<lambda>k d. (Inr (), d(k := None))), rocks_flush = (\<lambda>d. (Inr (), d)),
       bin_block = enc_block, unbin_block = run_decoder dec_block, unbin_header = run_decoder dec_header,
       bin_snapshot = enc_snapshot, unbin_snapshot = run_decoder dec_snapshot \<rparr>"

lemmas ref_disk_defs = ref_disk_def vm_env.defs ref_vm_def ref_state_def ref_core_def
  prim_env.defs core_env.defs state_env.defs

lemma ref_disk_laws: "rocks_laws ref_disk id" "disk_codec_laws ref_disk" "keccak_laws ref_disk"
  by (auto simp: rocks_laws_def disk_codec_laws_def keccak_laws_def ref_disk_defs
      codec_roundtrip codec_block codec_snapshot codec_header min_def)

lemma ref_disk_ed25519_laws: "ed25519_laws ref_disk"
  using ref_core_ed25519_laws by (simp add: ed25519_laws_def ref_disk_defs)

lemma ref_disk_hash: "block_hash ref_disk b \<noteq> hash_zero 32"
  by (simp add: block_hash_def header_hash_def keccak256_def ref_disk_defs hash_zero_def Cons_replicate_eq)

lemmas demo_disk = demo_start [OF ref_disk_ed25519_laws empty_state_inv]

section \<open>Properties\<close>

text \<open>
  C7: an archive restores the chain. Writing the canonical chain of a reachable archiving node
  to a working database, whatever it held, and loading it into a fresh store with the same
  genesis succeeds and returns the head's height; the new store has the same head, the same
  block at every height, the same snapshot for every canonical block, and the snapshot of the
  head is the live state.
\<close>

theorem archive_reload:
  assumes laws: "rocks_laws E view" "disk_codec_laws E" "keccak_laws E"
    and reach: "chain_reach E True cfg g s0 st live pool" and ar: "cp_archive cp"
    and tip: "bs_head st = Some tip" "get_block st tip = Some t" and num: "hd_number (blk_header t) \<noteq> - 1"
    and zero: "get_block st (hash_zero 32) = None"
  shows "\<exists>d' st'. persist_canonical E cp st b d = (Inr (), d') \<and>
    load_into E d' (store_new cfg) g = (Inr (Some (hd_number (blk_header t))), st') \<and>
    bs_head st' = Some tip \<and> get_block_by_number st' = get_block_by_number st \<and>
    (\<forall>h \<in> set (chain_from st tip). get_block st' h = get_block st h \<and> state_at st' h = state_at st h) \<and>
    state_at st' tip = Some live"
proof -
  let ?c = "chain_from st tip"
  have inv: "chain_inv E st live" using chain_reach_inv [OF reach] ..
  have sinv: "store_inv E st" and live: "hm_get (bs_snapshots st) tip = Some live"
    using inv tip(1) by (simp_all add: chain_inv_def)
  have arch: "archive_inv E g s0 st" by (rule archive_reach [OF reach]) simp
  have cfg: "bs_consensus st = cfg" using genesis_kept [OF reach] ..
  note c = canonical_chain [OF sinv tip num]
  have c0: "?c ! 0 = block_hash E g"
    using live_replay [OF reach tip(1) zero] c(1) by (cases ?c) simp_all
  have valid: "block_validate E a = Inr ()" if "get_block st h = Some a" for h a
    using arch that by (simp add: archive_inv_def)
  obtain d' where d': "persist_canonical E cp st b d = (Inr (), d')" and holds: "holds_chain E (view d') st tip"
    using persisted_archive [OF laws(1) ar inv tip num] by blast
  note reads = holds_reads [OF laws sinv tip num holds_chain_blocks [OF holds]]
  have gen: "get_block_by_height E 0 d' = Inr (Some g)" "get_block st (block_hash E g) = Some g"
    "hd_number (blk_header g) = 0"
    using reads(1) [of 0] c(1) c0 arch by (simp_all add: archive_inv_def)
  obtain out st1 where st1: "insert_genesis E g (store_new cfg) = (Inr out, st1)" "loaded E st ?c 0 st1"
    using loaded_genesis [OF sinv tip num valid [OF gen(2)] c0 gen(2,3)] cfg by auto
  obtain st2 where st2: "load_each (load_height E d') (heights 1 (hd_number (blk_header t))) st1 = (Inr (), st2)"
    "loaded E st ?c (length ?c - 1) st2"
    unfolding heights_range c(1) [symmetric]
    by (rule exE [OF load_rest [where Q = "\<lambda>_ _. True", OF sinv tip num _ reads(1) _ st1(2)]]) (use valid c(1) in auto)
  note ix = loaded_indexes [OF sinv tip num st2(2)]
  obtain m where m: "load_each (load_snapshot E d') (heights 0 (hd_number (blk_header t))) st2 =
      (Inr (), st2 \<lparr> bs_snapshots := m \<rparr>)" "\<forall>h \<in> set ?c. hm_get m h = hm_get (bs_snapshots st) h"
    using load_archive_snapshots [OF laws(1,2) inv tip num arch holds ix(2)] by blast
  have "tip \<in> set ?c" using c(1,2) by (metis lessI nth_mem)
  moreover have "load_into E d' (store_new cfg) g = (Inr (Some (hd_number (blk_header t))), st2 \<lparr> bs_snapshots := m \<rparr>)"
    using reads(2-4) gen(1) st1(1) st2(1) m(1) by (simp add: load_into_def hash_from_slice_def)
  ultimately show ?thesis using d' ix live m(2)
    by (intro exI [of _ d'] exI [of _ "st2 \<lparr> bs_snapshots := m \<rparr>"]) (simp add: state_at_def)
qed

theorem archive_reload_witness:
  "\<exists>d' st'. persist_canonical ref_disk (open_with True 0) (demo_store ref_disk state_new)
      (demo_genesis ref_disk state_new) Map.empty = (Inr (), d') \<and>
    load_into ref_disk d' (store_new (demo_poa ref_disk)) (demo_genesis ref_disk state_new) = (Inr (Some 0), st') \<and>
    state_at st' (block_hash ref_disk (demo_genesis ref_disk state_new)) = Some state_new"
proof -
  have tip: "get_block (demo_store ref_disk state_new) (block_hash ref_disk (demo_genesis ref_disk state_new)) =
      Some (demo_genesis ref_disk state_new)"
    and zero: "get_block (demo_store ref_disk state_new) (hash_zero 32) = None"
    by (simp_all add: get_block_def demo_disk(3) hm_get_def ref_disk_hash [symmetric])
  have "cp_archive (open_with True 0)" by (simp add: open_with_def)
  from archive_reload [OF ref_disk_laws demo_disk(1) this demo_disk(2) tip _ zero, of "demo_genesis ref_disk state_new" Map.empty]
  show ?thesis by (auto simp: demo_fields)
qed

end
