(* ===== verification/Config.thy ===== *)
theory Config
  imports Chain
begin

text \<open>
  Node configuration of \<open>bin/ivory/src/config.rs\<close>: roles, the genesis file with its validator and
  allocations, the genesis block a node derives from it (\<open>node.rs\<close>), and the genesis that
  \<open>ivory init\<close> writes for a new key. Reading and writing the files (serde, toml) is left out.
\<close>

section \<open>Roles and defaults\<close>

datatype server_role = Master | Slave

text \<open>
  \<open>str::trim\<close> on UTF-8 text: the encodings of the characters with the Unicode property
  \<open>White_Space\<close>, taken off the front and, reversed, off the back.
\<close>

definition white_spaces :: "string list" where
  "white_spaces =
     [[CHR 0x09], [CHR 0x0A], [CHR 0x0B], [CHR 0x0C], [CHR 0x0D], [CHR 0x20],
      [CHR 0xC2, CHR 0x85], [CHR 0xC2, CHR 0xA0], [CHR 0xE1, CHR 0x9A, CHR 0x80]] @
     map (\<lambda>c. [CHR 0xE2, CHR 0x80, c])
       [CHR 0x80, CHR 0x81, CHR 0x82, CHR 0x83, CHR 0x84, CHR 0x85, CHR 0x86, CHR 0x87, CHR 0x88, CHR 0x89, CHR 0x8A,
        CHR 0xA8, CHR 0xA9, CHR 0xAF] @
     [[CHR 0xE2, CHR 0x81, CHR 0x9F], [CHR 0xE3, CHR 0x80, CHR 0x80]]"

function trim_front :: "string list \<Rightarrow> string \<Rightarrow> string" where
  "trim_front ws s =
     (case find (\<lambda>w. w \<noteq> [] \<and> take (length w) s = w) ws of
        None \<Rightarrow> s
      | Some w \<Rightarrow> trim_front ws (drop (length w) s))"
  by pat_completeness auto

termination
  by (relation "measure (length \<circ> snd)") (auto simp: find_Some_iff intro!: diff_less)

declare trim_front.simps [simp del]

definition trim_str :: "string \<Rightarrow> string" where
  "trim_str s = rev (trim_front (map rev white_spaces) (rev (trim_front white_spaces s)))"

definition server_role_parse :: "string \<Rightarrow> string + server_role" where
  "server_role_parse s =
     (let t = map ascii_lower (trim_str s)
      in if t \<in> {''master'', ''validator'', ''producer''} then Inr Master
         else if t \<in> {''slave'', ''follower''} then Inr Slave
         else Inl (''unknown role '' @ t @ '' (use master or slave)''))"

definition server_role_as_str :: "server_role \<Rightarrow> string" where
  "server_role_as_str r = (case r of Master \<Rightarrow> ''master'' | Slave \<Rightarrow> ''slave'')"

definition may_produce :: "server_role \<Rightarrow> bool" where
  "may_produce r = (case r of Master \<Rightarrow> True | Slave \<Rightarrow> False)"

record node_file_config =
  nc_chain_id :: u64
  nc_rpc_addr :: string
  nc_p2p_listen :: string
  nc_bootstrap :: "string list"
  nc_block_interval_ms :: u64
  nc_contracts_dir :: string
  nc_role :: server_role
  nc_p2p_allowlist :: "string list"
  nc_archive :: bool
  nc_archive_keep :: u64
  nc_rpc_read_addr :: string

definition node_file_config_default :: node_file_config where
  "node_file_config_default =
     \<lparr> nc_chain_id = 1, nc_rpc_addr = ''127.0.0.1:8545'', nc_p2p_listen = ''/ip4/127.0.0.1/tcp/0'',
       nc_bootstrap = [], nc_block_interval_ms = 2000, nc_contracts_dir = '''', nc_role = Master,
       nc_p2p_allowlist = [], nc_archive = True, nc_archive_keep = 256, nc_rpc_read_addr = '''' \<rparr>"

section \<open>Genesis\<close>

record genesis_validator =
  gv_address :: string
  gv_public_key :: string

record genesis_file =
  gf_timestamp :: u64
  gf_gas_limit :: u64
  gf_validator :: genesis_validator
  gf_extra_data :: string
  gf_alloc :: "(string, string) hmap"

datatype config_error =
    PublicKeyHex primitive_error
  | ValidatorAddress primitive_error
  | AllocAddress primitive_error
  | AllocBalanceHex primitive_error
  | AllocBalanceDecimal
  | GenesisExtraData

definition parse_public_key :: "'z prim_env_scheme \<Rightarrow> string \<Rightarrow> config_error + public_key" where
  "parse_public_key E s = map_sum PublicKeyHex id (hash_from_hex E 32 s)"

lemma strip_prefix_shorter: "strip_prefix p s = Some t \<Longrightarrow> p \<noteq> [] \<Longrightarrow> length t < length s"
  by (cases s) (auto simp: strip_prefix_def split: if_splits)

function trim_start_0x :: "string \<Rightarrow> string" where
  "trim_start_0x s = (case strip_prefix ''0x'' s of None \<Rightarrow> s | Some t \<Rightarrow> trim_start_0x t)"
  by pat_completeness auto
termination
  by (relation "measure length") (auto dest: strip_prefix_shorter)

definition genesis_poa_config :: "'z prim_env_scheme \<Rightarrow> genesis_file \<Rightarrow> config_error + poa_config" where
  "genesis_poa_config E g =
     (case parse_public_key E (gv_public_key (gf_validator g)) of
        Inl e \<Rightarrow> Inl e
      | Inr pk \<Rightarrow>
     (case address_from_hex E (gv_address (gf_validator g)) of
        Inr a \<Rightarrow> Inr (poa_single \<lparr> va_address = a, va_public_key = pk \<rparr>)
      | Inl _ \<Rightarrow>
     (case address_from_hex E (''0x'' @ trim_start_0x (gv_address (gf_validator g))) of
        Inl e \<Rightarrow> Inl (ValidatorAddress e)
      | Inr a \<Rightarrow> Inr (poa_single \<lparr> va_address = a, va_public_key = pk \<rparr>))))"

text \<open>\<open>u128::from_str\<close>: an optional plus sign and at least one decimal digit.\<close>

fun dec_digits_value :: "nat \<Rightarrow> string \<Rightarrow> nat" where
  "dec_digits_value acc [] = acc"
| "dec_digits_value acc (c # cs) = dec_digits_value (10 * acc + (of_char c - 48)) cs"

definition parse_u128 :: "string \<Rightarrow> u128 option" where
  "parse_u128 s =
     (let t = (case s of c # r \<Rightarrow> if c = CHR ''+'' then r else s | [] \<Rightarrow> s)
      in if t = [] \<or> \<not> list_all is_ascii_digit t then None
         else let v = dec_digits_value 0 t in if v < 2 ^ 128 then Some (of_nat v) else None)"

definition parse_u256 :: "'z prim_env_scheme \<Rightarrow> string \<Rightarrow> config_error + u256" where
  "parse_u256 E s =
     (if take 2 s = ''0x'' \<or> take 2 s = ''0X'' then map_sum AllocBalanceHex id (u256_from_hex E s)
      else case parse_u128 s of None \<Rightarrow> Inl AllocBalanceDecimal | Some n \<Rightarrow> Inr (u256_from_u128 n))"

primrec parsed_alloc :: "'z prim_env_scheme \<Rightarrow> (string, string) hmap \<Rightarrow> config_error + (address \<times> u256) list" where
  "parsed_alloc E [] = Inr []"
| "parsed_alloc E (p # ps) =
     (case address_from_hex E (fst p) of
        Inl e \<Rightarrow> Inl (AllocAddress e)
      | Inr a \<Rightarrow>
     (case parse_u256 E (snd p) of
        Inl e \<Rightarrow> Inl e
      | Inr b \<Rightarrow> map_sum id (\<lambda>rest. (a, b) # rest) (parsed_alloc E ps)))"

definition alloc_state :: "'z state_env_scheme \<Rightarrow> (address \<times> u256) list \<Rightarrow> state_db" where
  "alloc_state E allocs =
     fold (\<lambda>(a, b). set_account E a (account_new \<lparr> acc_balance := b \<rparr>)) allocs state_new"

definition alloc_state_root :: "'z state_env_scheme \<Rightarrow> genesis_file \<Rightarrow> config_error + h256" where
  "alloc_state_root E g =
     map_sum id (\<lambda>allocs. fst (root_hash E (alloc_state E allocs))) (parsed_alloc E (gf_alloc g))"

definition decode_extra :: "'z prim_env_scheme \<Rightarrow> string \<Rightarrow> config_error + bytes" where
  "decode_extra E s =
     (case hex_decode E (strip_0x s) of None \<Rightarrow> Inl GenesisExtraData | Some raw \<Rightarrow> Inr raw)"

definition genesis_block :: "'z state_env_scheme \<Rightarrow> genesis_file \<Rightarrow> config_error + block" where
  "genesis_block E g =
     (case address_from_hex E (gv_address (gf_validator g)) of
        Inl e \<Rightarrow> Inl (ValidatorAddress e)
      | Inr miner \<Rightarrow>
     (case decode_extra E (gf_extra_data g) of
        Inl e \<Rightarrow> Inl e
      | Inr extra \<Rightarrow>
     (case alloc_state_root E g of
        Inl e \<Rightarrow> Inl e
      | Inr root \<Rightarrow>
          Inr \<lparr> blk_header =
                  \<lparr> hd_number = 0, hd_parent_hash = hash_zero 32, hd_timestamp = gf_timestamp g,
                    hd_miner = miner, hd_gas_limit = gf_gas_limit g, hd_gas_used = 0,
                    hd_state_root = root, hd_transactions_root = fst (empty_list_roots E),
                    hd_receipts_root = snd (empty_list_roots E), hd_difficulty = U256_ZERO,
                    hd_extra_data = extra \<rparr>,
                blk_transactions = [], blk_receipts = [] \<rparr>)))"

section \<open>Initialisation\<close>

text \<open>The genesis that \<open>init_datadir_with\<close> writes for a fresh key \<open>sk\<close>.\<close>

definition init_header :: "'z state_env_scheme \<Rightarrow> address \<Rightarrow> block_header" where
  "init_header E addr =
     \<lparr> hd_number = 0, hd_parent_hash = hash_zero 32, hd_timestamp = 1, hd_miner = addr,
       hd_gas_limit = 30000000, hd_gas_used = 0,
       hd_state_root = fst (root_hash E
         (set_account E addr (account_new \<lparr> acc_balance := u256_from_u128 1000000000000000000 \<rparr>) state_new)),
       hd_transactions_root = fst (empty_list_roots E), hd_receipts_root = snd (empty_list_roots E),
       hd_difficulty = U256_ZERO, hd_extra_data = [] \<rparr>"

definition init_genesis :: "'z state_env_scheme \<Rightarrow> secret_key \<Rightarrow> consensus_error + genesis_file" where
  "init_genesis E sk =
     (let addr = address_from_secret E sk
      in case poa_from_secret E sk of
           Inl e \<Rightarrow> Inl e
         | Inr poa \<Rightarrow>
        map_sum id (\<lambda>header.
          \<lparr> gf_timestamp = 1, gf_gas_limit = 30000000,
            gf_validator = \<lparr> gv_address = address_to_hex E addr, gv_public_key = hash_to_hex E (public_key_from_secret E sk) \<rparr>,
            gf_extra_data = ''0x'' @ hex_encode E (hd_extra_data header),
            gf_alloc = [(address_to_hex E addr, ''1000000000000000000'')] \<rparr>)
          (poa_seal_header E poa (init_header E addr) addr sk))"

section \<open>What initialisation gives\<close>

lemma role_roundtrip: "server_role_parse (server_role_as_str r) = Inr r"
proof -
  have "trim_str ''master'' = ''master''" "trim_str ''slave'' = ''slave''" by code_simp+
  then show ?thesis by (cases r) (simp_all add: server_role_as_str_def server_role_parse_def ascii_lower_def Let_def)
qed

lemma role_trimmed: "server_role_parse ([CHR 0xC2, CHR 0xA0] @ ''Follower'' @ [CHR 0x20, CHR 0xE3, CHR 0x80, CHR 0x80]) = Inr Slave"
  by code_simp

lemma alloc_inv: "state_inv E (alloc_state E allocs)"
proof -
  have "state_inv E s \<Longrightarrow> state_inv E (fold (\<lambda>(a, b). set_account E a (account_new \<lparr> acc_balance := b \<rparr>)) allocs s)" for s
    by (induction allocs arbitrary: s) (auto simp: state_inv_set_account)
  then show ?thesis by (simp add: alloc_state_def empty_state_inv)
qed

lemma init_funds: "parse_u256 E ''1000000000000000000'' = Inr (u256_from_u128 1000000000000000000)"
  by (simp add: parse_u256_def parse_u128_def is_ascii_digit_def Let_def)

lemma init_genesis_Inr:
  obtains header g where
    "poa_seal_header E (poa_config_from_secret E sk) (init_header E (address_from_secret E sk)) (address_from_secret E sk) sk = Inr header"
    "init_genesis E sk = Inr g" "hd_extra_data header = ed25519_sign E sk (seal_hash E header)"
    "g = \<lparr> gf_timestamp = 1, gf_gas_limit = 30000000,
            gf_validator = \<lparr> gv_address = address_to_hex E (address_from_secret E sk),
              gv_public_key = hash_to_hex E (public_key_from_secret E sk) \<rparr>,
            gf_extra_data = ''0x'' @ hex_encode E (hd_extra_data header),
            gf_alloc = [(address_to_hex E (address_from_secret E sk), ''1000000000000000000'')] \<rparr>"
proof -
  have new: "poa_from_secret E sk = Inr (poa_config_from_secret E sk)"
    by (simp add: poa_from_secret_def poa_new_def poa_config_from_secret_def poa_single_def)
  have "poa_is_validator (poa_config_from_secret E sk) (address_from_secret E sk)"
    by (simp add: poa_is_validator_def poa_config_from_secret_def poa_single_def validator_from_secret_def
        address_from_secret_def public_key_from_secret_def Let_def)
  then obtain header where seal:
    "poa_seal_header E (poa_config_from_secret E sk) (init_header E (address_from_secret E sk)) (address_from_secret E sk) sk = Inr header"
    by (auto simp: poa_seal_header_def encode_signatures_def Let_def)
  show thesis using that [OF seal _ poa_seal_header_Inr(4) [OF seal]] seal new by (simp add: init_genesis_def Let_def)
qed

lemma address_length: "keccak_laws E \<Longrightarrow> length (address_from_secret E sk) = 20"
  by (simp add: address_from_secret_def address_from_public_key_def address_from_h256_def h256_to_h160_def)

text \<open>The file that initialisation writes is read back as the genesis it sealed.\<close>

lemma init_genesis_block:
  assumes laws: "hex_laws E" "keccak_laws E" "length (ed25519_public E sk) = 32"
    and init: "init_genesis E sk = Inr g"
  obtains header where
    "poa_seal_header E (poa_config_from_secret E sk) (init_header E (address_from_secret E sk)) (address_from_secret E sk) sk = Inr header"
    "genesis_poa_config E g = Inr (poa_config_from_secret E sk)"
    "genesis_block E g = Inr \<lparr> blk_header = header, blk_transactions = [], blk_receipts = [] \<rparr>"
    "parsed_alloc E (gf_alloc g) = Inr [(address_from_secret E sk, u256_from_u128 1000000000000000000)]"
    "gf_gas_limit g = 30000000" "address_from_hex E (gv_address (gf_validator g)) = Inr (address_from_secret E sk)"
proof -
  let ?a = "address_from_secret E sk"
  obtain header where seal:
      "poa_seal_header E (poa_config_from_secret E sk) (init_header E ?a) ?a sk = Inr header"
    and g: "g = \<lparr> gf_timestamp = 1, gf_gas_limit = 30000000,
            gf_validator = \<lparr> gv_address = address_to_hex E ?a, gv_public_key = hash_to_hex E (public_key_from_secret E sk) \<rparr>,
            gf_extra_data = ''0x'' @ hex_encode E (hd_extra_data header),
            gf_alloc = [(address_to_hex E ?a, ''1000000000000000000'')] \<rparr>"
    by (rule init_genesis_Inr [of E sk]) (use init in simp)
  have addr: "address_from_hex E (address_to_hex E ?a) = Inr ?a"
    by (simp add: address_from_hex_def address_to_hex_def hash_hex_roundtrip [OF laws(1)] address_length [OF laws(2)])
  have key: "parse_public_key E (hash_to_hex E (public_key_from_secret E sk)) = Inr (ed25519_public E sk)"
    by (simp add: parse_public_key_def public_key_from_secret_def hash_hex_roundtrip [OF laws(1,3)])
  have extra: "decode_extra E (''0x'' @ hex_encode E (hd_extra_data header)) = Inr (hd_extra_data header)"
    by (simp add: decode_extra_def hex_laws_decode_encode [OF laws(1)])
  have alloc: "parsed_alloc E (gf_alloc g) = Inr [(?a, u256_from_u128 1000000000000000000)]"
    by (simp add: g addr init_funds)
  have single: "poa_config_from_secret E sk = poa_single \<lparr> va_address = ?a, va_public_key = ed25519_public E sk \<rparr>"
    by (simp add: poa_config_from_secret_def validator_from_secret_def address_from_secret_def
        public_key_from_secret_def Let_def)
  have poa: "genesis_poa_config E g = Inr (poa_config_from_secret E sk)"
    by (simp add: genesis_poa_config_def g key addr single)
  have block: "genesis_block E g = Inr \<lparr> blk_header = header, blk_transactions = [], blk_receipts = [] \<rparr>"
    using extra alloc
    by (subst poa_seal_header_Inr(5) [OF seal])
      (simp add: genesis_block_def alloc_state_root_def alloc_state_def g addr init_header_def)
  show thesis by (rule that [OF seal poa block alloc]) (simp_all add: g addr)
qed

end
