(* ===== verification/Startup.thy ===== *)
theory Startup
  imports Persist Config
begin

text \<open>
  How \<open>bin/ivory/src/node.rs\<close> obtains its chain: from genesis when the database is empty, and
  otherwise by loading the stored blocks and either taking the stored state of the head or
  executing every block again. The lemmas show that both ways of loading an archive end in
  the same store, which is one that imports could have built.
\<close>

section \<open>Startup\<close>

datatype startup_error =
    StartConfig config_error
  | StartConsensus consensus_error
  | StartPersist persist_error
  | StartChain chain_error
  | ReplayMissing u64
  | ReplayFailed u64 execution_error

primrec replay_chain ::
  "'z vm_env_scheme \<Rightarrow> u64 list \<Rightarrow> state_db \<Rightarrow> block_store \<Rightarrow> startup_error + state_db \<times> block_store" where
  "replay_chain E [] s st = Inr (s, st)"
| "replay_chain E (n # ns) s st =
     (case get_block_by_number st n of
        None \<Rightarrow> Inl (ReplayMissing n)
      | Some b \<Rightarrow>
     (case execute_all E gas_config_default (blk_transactions b)
             (execution_context_new (hd_number (blk_header b)) (hd_timestamp (blk_header b))) s of
        Inl e \<Rightarrow> Inl (ReplayFailed n e)
      | Inr (_, s') \<Rightarrow> replay_chain E ns s' (record_state (block_hash E b) (state_fork s') st)))"

definition start_chain ::
  "('d, 'z) disk_env_scheme \<Rightarrow> chain_persist \<Rightarrow> poa_config \<Rightarrow> block \<Rightarrow> state_db \<Rightarrow> 'd \<Rightarrow>
   (startup_error + block_store \<times> state_db) \<times> 'd" where
  "start_chain E cp poa g s0 d =
     (case load_into E d (store_new poa) g of
        (Inl e, _) \<Rightarrow> (Inl (StartPersist e), d)
      | (Inr None, st) \<Rightarrow>
          (case insert_genesis E g st of
             (Inl e, _) \<Rightarrow> (Inl (StartChain e), d)
           | (Inr _, st1) \<Rightarrow>
               (let st2 = record_state (block_hash E g) (state_fork s0) st1
                in case persist_canonical E cp st2 g d of
                     (Inl e, d') \<Rightarrow> (Inl (StartPersist e), d')
                   | (Inr _, d') \<Rightarrow> (Inr (st2, s0), d')))
      | (Inr (Some head_n), st) \<Rightarrow>
          (case Option.bind (bs_head st) (state_at st) of
             Some snap \<Rightarrow> (Inr (st, state_reset_from s0 snap), d)
           | None \<Rightarrow>
               (case replay_chain E (heights 1 head_n) s0 (record_state (block_hash E g) (state_fork s0) st) of
                  Inl e \<Rightarrow> (Inl e, d)
                | Inr (s, st') \<Rightarrow> (Inr (st', s), d))))"

section \<open>Insertion and snapshots\<close>

text \<open>Inserting a block neither reads nor writes the snapshots.\<close>

lemma store_snapshots_frame [simp]:
  "get_block (st \<lparr> bs_snapshots := m \<rparr>) = get_block st"
  "head_block (st \<lparr> bs_snapshots := m \<rparr>) = head_block st"
  "chain_from (st \<lparr> bs_snapshots := m \<rparr>) = chain_from st"
  by (simp_all add: fun_eq_iff get_block_def head_block_def chain_from_def walk_to_genesis_def split: option.split)

lemma maybe_update_snapshots:
  "maybe_update_canonical h n (st \<lparr> bs_snapshots := m \<rparr>) = (maybe_update_canonical h n st) \<lparr> bs_snapshots := m \<rparr>"
proof -
  have "takes_head h n (st \<lparr> bs_snapshots := m \<rparr>) = takes_head h n st" by (simp add: takes_head_def split: option.split)
  then show ?thesis by (simp add: maybe_update_canonical_def rebuild_canonical_def walk_to_genesis_def)
qed

lemma rebuild_tx_snapshots:
  "rebuild_tx_index E (st \<lparr> bs_snapshots := m \<rparr>) = (rebuild_tx_index E st) \<lparr> bs_snapshots := m \<rparr>"
  by (simp add: rebuild_tx_index_def split: option.split)

lemma insert_validated_snapshots:
  "insert_validated E b (st \<lparr> bs_snapshots := m \<rparr>) =
     (case insert_validated E b st of (r, st') \<Rightarrow> (r, st' \<lparr> bs_snapshots := m \<rparr>))"
proof -
  have "maybe_update_canonical h n (st \<lparr> bs_snapshots := m, bs_by_hash := B \<rparr>) =
      (maybe_update_canonical h n (st \<lparr> bs_by_hash := B \<rparr>)) \<lparr> bs_snapshots := m \<rparr>" for h n B
    by (subst maybe_update_snapshots [symmetric], cases st) simp
  then show ?thesis
    by (simp add: insert_validated_def Let_def rebuild_tx_snapshots common_ancestor_def
        split: option.split)
qed

lemma insert_block_snapshots:
  "insert_block E b (st \<lparr> bs_snapshots := m \<rparr>) =
     (case insert_block E b st of (r, st') \<Rightarrow> (r, st' \<lparr> bs_snapshots := m \<rparr>))"
  by (simp add: insert_block_def insert_genesis_def insert_validated_snapshots Let_def split: option.split sum.split)

section \<open>Extending the head with an empty pool\<close>

lemma remove_from_empty: "snd (pool_remove h pool_new) = pool_new"
  by (simp add: pool_remove_def pool_new_def pool_with_config_def hm_simps)

lemma path_parent:
  assumes inv: "store_inv E st" and b: "get_block st h = Some b" "hd_number (blk_header b) \<noteq> 0"
    and p: "get_block st (hd_parent_hash (blk_header b)) \<noteq> None"
  shows "set (txs_on_path st (hd_parent_hash (blk_header b))) \<subseteq> set (txs_on_path st h)"
proof -
  let ?H = "headers (bs_by_hash st)"
  obtain rank where rank: "linked_by E (bs_consensus st) ?H (length (bs_by_hash st)) rank"
    using inv by (auto simp: store_inv_def)
  have H: "?H h = Some (blk_header b)" using b(1) by (simp add: headers_def get_block_def)
  obtain y where y: "?H (hd_parent_hash (blk_header b)) = Some y" using p by (auto simp: headers_def get_block_def)
  obtain q where q: "walk_to_genesis st h = h # q" "ancestry ?H (hd_parent_hash (blk_header b)) q"
    using walk_linked [OF rank H] H b(2) by (auto elim: ancestryE)
  have "walk_to_genesis st (hd_parent_hash (blk_header b)) = q"
    by (rule ancestry_unique [OF walk_linked [OF rank y] q(2)])
  then show ?thesis by (auto simp: txs_on_path_def chain_from_def q(1))
qed

lemma fold_skip: "(\<And>x. x \<in> set xs \<Longrightarrow> f x p = p) \<Longrightarrow> fold f xs p = p"
  by (induction xs) auto

lemma head_change_empty:
  assumes inv: "store_inv E st" and b: "get_block st h = Some b" "hd_number (blk_header b) \<noteq> 0"
    and p: "get_block st (hd_parent_hash (blk_header b)) \<noteq> None"
    and out: "io_old_head out = Some (hd_parent_hash (blk_header b))" "io_new_head out = h"
    and s: "state_at st h = Some s"
  shows "apply_head_change E st out live pool_new = (s, pool_new)"
proof -
  have sub: "tx_hash E ` set (txs_on_path st (hd_parent_hash (blk_header b))) \<subseteq> tx_hash E ` set (txs_on_path st h)"
    by (rule image_mono [OF path_parent [OF inv b p]])
  have one: "fold (\<lambda>tx p. if tx_hash E tx \<notin> tx_hash E ` set (txs_on_path st h)
      then snd (add_transaction E tx Local p) else p) (txs_on_path st (hd_parent_hash (blk_header b))) pool_new = pool_new"
    by (rule fold_skip) (use sub in auto)
  have two: "fold (\<lambda>tx p. snd (pool_remove (tx_hash E tx) p)) (txs_on_path st h) pool_new = pool_new"
    by (rule fold_skip) (rule remove_from_empty)
  show ?thesis using one two s by (simp add: apply_head_change_def Let_def out)
qed

text \<open>A block on the head, inserted and recorded with its state, is an import into an empty pool.\<close>

lemma import_next:
  assumes reach: "chain_reach E ar cfg g s0 (st \<lparr> bs_snapshots := M \<rparr>) p pool_new"
    and ins: "insert_block E b st = (Inr out, st')" "bs_head st' = Some (block_hash E b)"
    and b: "bs_head st = Some (hd_parent_hash (blk_header b))" "hd_number (blk_header b) \<noteq> 0"
    and p: "hm_get M (hd_parent_hash (blk_header b)) = Some p"
    and run: "run_block E b p = Inr (ctx, s)" "state_inv E s" "fst (root_hash E s) = hd_state_root (blk_header b)"
    and par: "get_block st (hd_parent_hash (blk_header b)) = Some a"
  shows "chain_reach E ar cfg g s0 (st' \<lparr> bs_snapshots := hm_insert (block_hash E b) s M \<rparr>) s pool_new"
proof -
  let ?st = "st \<lparr> bs_snapshots := M \<rparr>" and ?st' = "st' \<lparr> bs_snapshots := M \<rparr>"
  have sinv: "store_inv E ?st" using chain_reach_inv [OF reach] by (simp add: chain_inv_def)
  have ins': "insert_block E b ?st = (Inr out, ?st')" using ins(1) by (simp add: insert_block_snapshots)
  note i = insert_block_Inr [OF sinv ins']
  have fresh: "hd_parent_hash (blk_header b) \<noteq> block_hash E b" using i(2) par by auto
  then have ch: "io_head_changed out" using i(7) ins(2) b(1) by (auto split: if_splits)
  let ?st2 = "record_state (block_hash E b) s ?st'"
  have at: "state_at ?st (hd_parent_hash (blk_header b)) = Some p" using p by (simp add: state_at_def)
  have inv2: "store_inv E ?st2" by (rule record_state_inv [OF insert_block_inv [OF sinv ins']])
  have blocks: "get_block ?st2 = (get_block st)(block_hash E b \<mapsto> b)"
    using i(3) by (simp add: record_state_def get_block_def fun_eq_iff hm_simps)
  have "apply_head_change E ?st2 out p pool_new = (s, pool_new)"
    by (rule head_change_empty [where h = "block_hash E b", OF inv2 _ b(2)])
      (use blocks par fresh i(6,8) ch b(1) in \<open>simp_all add: state_at_def record_state_def hm_simps\<close>)
  then have "import_and_apply E b ?st p pool_new = (Inr out, ?st2, s, pool_new)"
    using at run ins' i(1) ch by (simp add: import_and_apply_def root_hash_inv [OF run(2)] Let_def split: prod.split)
  from cr_import [OF reach this] show ?thesis by (simp add: record_state_def)
qed

section \<open>Archives\<close>

text \<open>
  A reachable archiving chain with head \<open>t\<close> and live state \<open>live\<close>. The two side conditions, a
  height below the largest and no block with the zero hash, are those of the replay theorem.
\<close>

definition archived ::
  "'z vm_env_scheme \<Rightarrow> poa_config \<Rightarrow> block \<Rightarrow> state_db \<Rightarrow> block_store \<Rightarrow> state_db \<Rightarrow> h256 \<Rightarrow> block \<Rightarrow> bool" where
  "archived E cfg g s0 st live tip t \<longleftrightarrow>
     (\<exists>pool. chain_reach E True cfg g s0 st live pool) \<and> bs_head st = Some tip \<and> get_block st tip = Some t \<and>
     hd_number (blk_header t) \<noteq> - 1 \<and> get_block st (hash_zero 32) = None"

definition post_state :: "block_store \<Rightarrow> h256 \<Rightarrow> state_db" where
  "post_state st h = the (hm_get (bs_snapshots st) h)"

text \<open>The snapshots of the first \<open>n\<close> blocks of the chain \<open>c\<close>, in order.\<close>

definition first_snapshots :: "block_store \<Rightarrow> h256 list \<Rightarrow> nat \<Rightarrow> (h256, state_db) hmap" where
  "first_snapshots st c n = map (\<lambda>i. (c ! i, post_state st (c ! i))) [0..<n]"

lemma archivedD:
  assumes "archived E cfg g s0 st live tip t"
  shows "bs_head st = Some tip" "get_block st tip = Some t" "hd_number (blk_header t) \<noteq> - 1"
    "chain_inv E st live" "store_inv E st" "archive_inv E g s0 st" "bs_consensus st = cfg"
    "hm_get (bs_snapshots st) tip = Some live" "chain_from st tip ! 0 = block_hash E g"
    "hd_number (blk_header g) = 0" "get_block st (block_hash E g) = Some g"
    "\<And>h b. get_block st h = Some b \<Longrightarrow> block_validate E b = Inr ()"
    "\<And>h s. hm_get (bs_snapshots st) h = Some s \<Longrightarrow> runs_to E (get_block st) g s0 h s"
proof -
  obtain pool where reach: "chain_reach E True cfg g s0 st live pool" and tip: "bs_head st = Some tip"
    and t: "get_block st tip = Some t" and num: "hd_number (blk_header t) \<noteq> - 1"
    and zero: "get_block st (hash_zero 32) = None"
    using assms by (auto simp: archived_def)
  show "bs_head st = Some tip" "get_block st tip = Some t" "hd_number (blk_header t) \<noteq> - 1" by (rule tip t num)+
  show inv: "chain_inv E st live" using chain_reach_inv [OF reach] ..
  then show sinv: "store_inv E st" and "hm_get (bs_snapshots st) tip = Some live"
    using tip by (simp_all add: chain_inv_def)
  show ar: "archive_inv E g s0 st" by (rule archive_reach [OF reach]) simp
  show "bs_consensus st = cfg" using genesis_kept [OF reach] ..
  show "chain_from st tip ! 0 = block_hash E g"
    using live_replay [OF reach tip zero] canonical_chain(1) [OF sinv tip t num] by (cases "chain_from st tip") simp_all
  show "hd_number (blk_header g) = 0" "get_block st (block_hash E g) = Some g"
    "\<And>h b. get_block st h = Some b \<Longrightarrow> block_validate E b = Inr ()"
    "\<And>h s. hm_get (bs_snapshots st) h = Some s \<Longrightarrow> runs_to E (get_block st) g s0 h s"
    using ar zero by (simp_all add: archive_inv_def)
qed

lemma runs_to_unique:
  "runs_to E B g s0 h s \<Longrightarrow> hd_number (blk_header g) = 0 \<Longrightarrow> runs_to E B g s0 h s' \<Longrightarrow> s' = s"
proof (induction arbitrary: s' rule: runs_to.induct)
  case rt_genesis
  from rt_genesis(3) show ?case by cases (use rt_genesis(1,2) in auto)
next
  case (rt_block h b ps ctx s)
  from rt_block.prems(2) show ?case
  proof cases
    case (rt_block b' ps' ctx')
    then show ?thesis using rt_block.IH rt_block.hyps rt_block.prems(1) by auto
  qed (use rt_block in auto)
qed

lemma archived_post:
  assumes ar: "archived E cfg g s0 st live tip t" and i: "i < length (chain_from st tip)"
  shows "hm_get (bs_snapshots st) (chain_from st tip ! i) = Some (post_state st (chain_from st tip ! i))"
  using canonical_snapshots [OF archivedD(5,1-3,6,8) [OF ar] i]
  by (auto simp: post_state_def)

lemma archived_ends:
  assumes ar: "archived E cfg g s0 st live tip t"
  shows "post_state st (block_hash E g) = s0" "post_state st tip = live"
proof -
  have "0 < length (chain_from st tip)" using canonical_chain(1) [OF archivedD(5,1-3) [OF ar]] by simp
  from archived_post [OF ar this] have "runs_to E (get_block st) g s0 (block_hash E g) (post_state st (block_hash E g))"
    using archivedD(9,13) [OF ar] by simp
  from runs_to_unique [OF this archivedD(10) [OF ar] rt_genesis [where B = "get_block st", OF archivedD(11) [OF ar]]]
  show "post_state st (block_hash E g) = s0" by simp
  show "post_state st tip = live" using archivedD(8) [OF ar] by (simp add: post_state_def)
qed

text \<open>Each canonical block takes the state of its parent to its own.\<close>

lemma archived_run:
  assumes ar: "archived E cfg g s0 st live tip t" and i: "Suc i < length (chain_from st tip)"
    and b: "get_block st (chain_from st tip ! Suc i) = Some b"
  shows "\<exists>ctx. run_block E b (post_state st (chain_from st tip ! i)) = Inr (ctx, post_state st (chain_from st tip ! Suc i))"
    "state_inv E (post_state st (chain_from st tip ! Suc i))"
    "fst (root_hash E (post_state st (chain_from st tip ! Suc i))) = hd_state_root (blk_header b)"
    "hd_number (blk_header b) \<noteq> 0" "hd_number (blk_header b) = of_nat (Suc i)"
proof -
  let ?c = "chain_from st tip"
  note snap = archived_post [OF ar i] and D = archivedD [OF ar]
  show "state_inv E (post_state st (?c ! Suc i))"
    "fst (root_hash E (post_state st (?c ! Suc i))) = hd_state_root (blk_header b)"
    using chain_snapshot [OF D(4) snap] b by auto
  show n: "hd_number (blk_header b) = of_nat (Suc i)" using canonical_chain(4) [OF archivedD(5,1-3) [OF ar] i] b by auto
  have "Suc i < 2 ^ 64" using i canonical_chain(1) [OF archivedD(5,1-3) [OF ar]] unat_lt [of "hd_number (blk_header t)"] by simp
  then have "unat (hd_number (blk_header b)) = Suc i" unfolding n by (simp add: unat_of_nat del: of_nat_Suc)
  then show pos: "hd_number (blk_header b) \<noteq> 0" by auto
  have par: "hd_parent_hash (blk_header b) = ?c ! i" by (rule canonical_chain(5) [OF archivedD(5,1-3) [OF ar] i b])
  have up: "runs_to E (get_block st) g s0 (?c ! i) (post_state st (?c ! i))"
    using D(13) archived_post [OF ar, of i] i by simp
  from D(13) [OF snap] show "\<exists>ctx. run_block E b (post_state st (?c ! i)) = Inr (ctx, post_state st (?c ! Suc i))"
  proof cases
    case (rt_block b' ps ctx)
    then have "b' = b" using b by simp
    moreover have "ps = post_state st (?c ! i)"
      using runs_to_unique [OF up D(10)] rt_block(3) par \<open>b' = b\<close> by simp
    ultimately show ?thesis using rt_block(4) by blast
  qed (use b pos D(10,11) in auto)
qed

lemma first_snapshots_Suc:
  assumes "distinct c" "n < length c"
  shows "hm_insert (c ! n) (post_state st (c ! n)) (first_snapshots st c n) = first_snapshots st c (Suc n)"
proof -
  have "hm_get (first_snapshots st c n) (c ! n) = None"
    using assms by (auto simp: first_snapshots_def hm_get_def map_of_eq_None_iff nth_eq_iff_index_eq)
  then show ?thesis by (simp add: hm_insert_fresh first_snapshots_def)
qed

lemma first_snapshots_get:
  assumes "distinct c" "i < n" "n \<le> length c"
  shows "hm_get (first_snapshots st c n) (c ! i) = Some (post_state st (c ! i))"
proof -
  have "distinct (map fst (first_snapshots st c n))"
    using assms by (auto simp: first_snapshots_def comp_def distinct_map inj_on_def nth_eq_iff_index_eq)
  then show ?thesis using assms by (auto simp: first_snapshots_def hm_get_def)
qed

section \<open>Loading the blocks\<close>

text \<open>
  After the first blocks are loaded, the store together with their snapshots is one that
  imports into an empty pool have built.
\<close>

definition rebuilt ::
  "'z vm_env_scheme \<Rightarrow> poa_config \<Rightarrow> block \<Rightarrow> state_db \<Rightarrow> block_store \<Rightarrow> h256 list \<Rightarrow> nat \<Rightarrow> block_store \<Rightarrow> bool" where
  "rebuilt E cfg g s0 st c i st1 \<longleftrightarrow>
     chain_reach E True cfg g s0 (st1 \<lparr> bs_snapshots := first_snapshots st c (Suc i) \<rparr>) (post_state st (c ! i)) pool_new"

lemma rebuilt_genesis:
  assumes ar: "archived E cfg g s0 st live tip t" and ins: "insert_genesis E g (store_new cfg) = (Inr out, st1)"
  shows "rebuilt E cfg g s0 st (chain_from st tip) 0 st1"
proof -
  have snap: "hm_get (bs_snapshots st) (block_hash E g) = Some s0"
    using archived_post [OF ar, of 0] canonical_chain(1) [OF archivedD(5,1-3) [OF ar]] archived_ends(1) [OF ar] archivedD(9) [OF ar] by simp
  have "state_inv E s0" "fst (root_hash E s0) = hd_state_root (blk_header g)"
    using chain_snapshot [OF archivedD(4) [OF ar] snap] archivedD(11) [OF ar] by auto
  from cr_start [where archive = True, OF ins this] show ?thesis
    using archived_ends(1) [OF ar] archivedD(9) [OF ar] insert_genesis_Inr(3) [OF ins]
    by (simp add: rebuilt_def first_snapshots_def record_state_def hm_insert_def)
qed

lemma rebuilt_next:
  assumes ar: "archived E cfg g s0 st live tip t" and i: "Suc i < length (chain_from st tip)"
    and b: "get_block st (chain_from st tip ! Suc i) = Some b"
    and l: "loaded E st (chain_from st tip) i st1" "rebuilt E cfg g s0 st (chain_from st tip) i st1"
    and ins: "insert_block E b st1 = (Inr out, st2)"
  shows "rebuilt E cfg g s0 st (chain_from st tip) (Suc i) st2"
proof -
  let ?c = "chain_from st tip"
  note run = archived_run [OF ar i b] and D = archivedD [OF ar]
  obtain ctx where ctx: "run_block E b (post_state st (?c ! i)) = Inr (ctx, post_state st (?c ! Suc i))" using run(1) by blast
  have par: "hd_parent_hash (blk_header b) = ?c ! i" by (rule canonical_chain(5) [OF archivedD(5,1-3) [OF ar] i b])
  have h: "block_hash E b = ?c ! Suc i" by (rule store_inv_hash [OF D(5) b])
  obtain a where a: "get_block st (?c ! i) = Some a" using canonical_chain(4) [OF archivedD(5,1-3) [OF ar], of i] i by auto
  have "?c ! i \<in> set (take (Suc i) ?c)" using i by (auto simp: in_set_conv_nth)
  then have st1: "get_block st1 (?c ! i) = Some a" "bs_head st1 = Some (?c ! i)" using l(1) a by (simp_all add: loaded_def)
  have "loaded E st ?c (Suc i) st2"
    using load_next [OF D(5,1-3) D(12) [OF b] l(1) i b] ins by auto
  then have st2: "bs_head st2 = Some (block_hash E b)" by (simp add: loaded_def h)
  have d: "distinct ?c" by (rule canonical_chain(3) [OF archivedD(5,1-3) [OF ar]])
  from import_next [OF l(2) [unfolded rebuilt_def] ins st2 _ run(4) _ ctx run(2,3)]
  show ?thesis using st1 par h d i
    by (simp add: rebuilt_def first_snapshots_get first_snapshots_Suc)
qed

text \<open>What loading ends in: the canonical chain's blocks and no snapshot yet.\<close>

lemma load_archive:
  assumes laws: "rocks_laws E view" "disk_codec_laws E" "keccak_laws E"
    and ar: "archived E cfg g s0 st live tip t" and holds: "holds_blocks E (view d) st tip"
  shows "\<exists>st2. load_into E d (store_new cfg) g =
      (case load_each (load_snapshot E d) (heights 0 (hd_number (blk_header t))) st2 of
         (Inl e, st3) \<Rightarrow> (Inl e, st3) | (Inr _, st3) \<Rightarrow> (Inr (Some (hd_number (blk_header t))), st3)) \<and>
    loaded E st (chain_from st tip) (length (chain_from st tip) - 1) st2 \<and>
    rebuilt E cfg g s0 st (chain_from st tip) (length (chain_from st tip) - 1) st2"
proof -
  let ?c = "chain_from st tip"
  note D = archivedD [OF ar]
  note reads = holds_reads [OF laws D(5,1-3) holds] and len = canonical_chain(1) [OF archivedD(5,1-3) [OF ar]]
  have gen: "get_block_by_height E 0 d = Inr (Some g)" using reads(1) [of 0] len D(9,11) by simp
  obtain out st1 where st1: "insert_genesis E g (store_new cfg) = (Inr out, st1)" "loaded E st ?c 0 st1"
    using loaded_genesis [OF D(5,1-3) D(12) [OF D(11)] D(9) D(11,10)] D(7) by auto
  obtain st2 where st2: "load_each (load_height E d) (heights 1 (hd_number (blk_header t))) st1 = (Inr (), st2)"
    "loaded E st ?c (length ?c - 1) st2" "rebuilt E cfg g s0 st ?c (length ?c - 1) st2"
    unfolding heights_range len [symmetric]
    by (rule exE [OF load_rest [where Q = "rebuilt E cfg g s0 st ?c", OF D(5,1-3) D(12) reads(1) rebuilt_next [OF ar]
          st1(2) rebuilt_genesis [OF ar st1(1)]]]) (use len in auto)
  have "load_into E d (store_new cfg) g =
      (case load_each (load_snapshot E d) (heights 0 (hd_number (blk_header t))) st2 of
         (Inl e, st3) \<Rightarrow> (Inl e, st3) | (Inr _, st3) \<Rightarrow> (Inr (Some (hd_number (blk_header t))), st3))"
    using reads(2-4) gen st1(1) st2(1) by (simp add: load_into_def hash_from_slice_def split: prod.split sum.split)
  then show ?thesis using st2(2,3) by blast
qed

section \<open>Loading the states\<close>

lemma record_snapshots:
  "record_state h s (st \<lparr> bs_snapshots := m \<rparr>) = st \<lparr> bs_snapshots := hm_insert h s m \<rparr>"
  by (simp add: record_state_def)

text \<open>Stored snapshots are taken over one by one, in the order of the chain.\<close>

lemma load_snapshots_order:
  assumes c: "distinct c" "n \<le> length c" "k \<le> n"
    and reads: "\<And>i. i < length c \<Longrightarrow> \<exists>b. get_block_by_number st2 (of_nat i) = Some b \<and> block_hash E b = c ! i \<and>
      get_snapshot E (c ! i) d = Inr (Some (post_state st (c ! i)))"
  shows "load_each (load_snapshot E d) (map of_nat [k..<n]) (st2 \<lparr> bs_snapshots := first_snapshots st c k \<rparr>) =
    (Inr (), st2 \<lparr> bs_snapshots := first_snapshots st c n \<rparr>)"
  using c(3)
proof (induction "n - k" arbitrary: k)
  case (Suc j)
  then have k: "k < n" "[k..<n] = k # [Suc k..<n]" by (simp_all add: upt_conv_Cons)
  obtain b where b: "get_block_by_number st2 (of_nat k) = Some b" "block_hash E b = c ! k"
    "get_snapshot E (c ! k) d = Inr (Some (post_state st (c ! k)))" using reads [of k] k c(2) by auto
  have "load_snapshot E d (of_nat k) (st2 \<lparr> bs_snapshots := first_snapshots st c k \<rparr>) =
      (Inr (), st2 \<lparr> bs_snapshots := first_snapshots st c (Suc k) \<rparr>)"
    using b c k by (simp add: load_snapshot_def record_snapshots first_snapshots_Suc)
  then show ?case using Suc.hyps(1) [of "Suc k"] Suc.hyps(2) k by simp
qed simp

lemma load_snapshots_none:
  "(\<And>n b. get_block_by_number st2 n = Some b \<Longrightarrow> get_snapshot E (block_hash E b) d = Inr None) \<Longrightarrow>
   load_each (load_snapshot E d) ns st2 = (Inr (), st2)"
  by (induction ns) (auto simp: load_snapshot_def split: option.split)

text \<open>Executing the blocks again records the same states.\<close>

lemma replay_order:
  assumes ar: "archived E cfg g s0 st live tip t" and k: "k < length (chain_from st tip)"
    and same: "get_block_by_number st2 = get_block_by_number st"
  shows "replay_chain E (map of_nat [Suc k..<length (chain_from st tip)]) (post_state st (chain_from st tip ! k))
      (st2 \<lparr> bs_snapshots := first_snapshots st (chain_from st tip) (Suc k) \<rparr>) =
    Inr (live, st2 \<lparr> bs_snapshots := first_snapshots st (chain_from st tip) (length (chain_from st tip)) \<rparr>)"
  using k
proof (induction "length (chain_from st tip) - Suc k" arbitrary: k)
  case 0
  then have "length (chain_from st tip) = Suc k" by simp
  moreover from this have "chain_from st tip ! k = tip" using canonical_chain(1,2) [OF archivedD(5,1-3) [OF ar]] by simp
  ultimately show ?case using archived_ends(2) [OF ar] by simp
next
  case (Suc j)
  let ?c = "chain_from st tip"
  have k: "Suc k < length ?c" "[Suc k..<length ?c] = Suc k # [Suc (Suc k)..<length ?c]"
    using Suc by (simp_all add: upt_conv_Cons)
  obtain b where b: "get_block st (?c ! Suc k) = Some b" "get_block_by_number st (of_nat (Suc k)) = Some b"
    using canonical_chain(4) [OF archivedD(5,1-3) [OF ar] k(1)] by blast
  have h: "block_hash E b = ?c ! Suc k" by (rule store_inv_hash [OF archivedD(5) [OF ar] b(1)])
  obtain ctx where "run_block E b (post_state st (?c ! k)) = Inr (ctx, post_state st (?c ! Suc k))"
    using archived_run(1) [OF ar k(1) b(1)] by blast
  then show ?case using Suc.hyps(1) [of "Suc k"] Suc.hyps(2) k b(2) same h
      first_snapshots_Suc [OF canonical_chain(3) [OF archivedD(5,1-3) [OF ar]] k(1)]
    by (simp add: record_snapshots del: of_nat_Suc)
qed

section \<open>Restarting\<close>

text \<open>A database whose snapshots were lost, for example one written before they were stored.\<close>

definition without_snapshots :: "(bytes \<rightharpoonup> bytes) \<Rightarrow> bytes \<rightharpoonup> bytes" where
  "without_snapshots m k = (if k = snapshot_key (tl k) then None else m k)"

lemma without_snapshots_keys:
  "without_snapshots m KEY_HEAD = m KEY_HEAD" "without_snapshots m (height_key n) = m (height_key n)"
  "without_snapshots m (block_key h) = m (block_key h)" "without_snapshots m (snapshot_key h) = None"
  by (simp_all add: without_snapshots_def key_simps key_neqs) (simp add: snapshot_key_def)

text \<open>
  What the database of a running archive holds: the canonical chain with its snapshots, or,
  after a start without snapshots and before the next import, the chain and no snapshot.
\<close>

definition holds_archive ::
  "('d, 'z) disk_env_scheme \<Rightarrow> (bytes \<rightharpoonup> bytes) \<Rightarrow> block_store \<Rightarrow> h256 \<Rightarrow> bool" where
  "holds_archive E m st tip \<longleftrightarrow>
     holds_chain E m st tip \<or> holds_blocks E m st tip \<and> (\<forall>h. m (snapshot_key h) = None)"

lemma holds_without: "holds_archive E m st tip \<Longrightarrow> holds_archive E (without_snapshots m) st tip"
  using holds_chain_blocks [of E m st tip]
  by (auto simp: holds_archive_def holds_blocks_def Let_def without_snapshots_keys)

lemma holds_archive_same:
  assumes "chain_from st' tip = chain_from st tip"
    "\<forall>h \<in> set (chain_from st tip). get_block st' h = get_block st h \<and> hm_get (bs_snapshots st') h = hm_get (bs_snapshots st) h"
  shows "holds_archive E m st' tip \<longleftrightarrow> holds_archive E m st tip"
  using assms by (simp add: holds_archive_def holds_chain_def holds_blocks_def Let_def cong: conj_cong)

text \<open>Both ways in which \<open>start_chain\<close> obtains the states, after the blocks are loaded.\<close>

lemma start_from_snapshots:
  assumes laws: "rocks_laws E view" "disk_codec_laws E" and ar: "archived E cfg g s0 st live tip t"
    and holds: "holds_chain E (view d) st tip"
    and l: "loaded E st (chain_from st tip) (length (chain_from st tip) - 1) st2"
  shows "load_each (load_snapshot E d) (heights 0 (hd_number (blk_header t))) st2 =
    (Inr (), st2 \<lparr> bs_snapshots := first_snapshots st (chain_from st tip) (length (chain_from st tip)) \<rparr>)"
proof -
  let ?c = "chain_from st tip"
  note D = archivedD [OF ar]
  note C = canonical_chain [OF D(5,1-3)]
  have "\<exists>b. get_block_by_number st2 (of_nat i) = Some b \<and> block_hash E b = ?c ! i \<and>
      get_snapshot E (?c ! i) d = Inr (Some (post_state st (?c ! i)))" if i: "i < length ?c" for i
  proof -
    obtain b where b: "get_block st (?c ! i) = Some b" "get_block_by_number st (of_nat i) = Some b" using C(4) [OF i] by blast
    have "get_snapshot E (?c ! i) d = Inr (Some (post_state st (?c ! i)))"
      using read_snapshot [OF laws chain_snapshot(1) [OF D(4) archived_post [OF ar i]]] holds i archived_post [OF ar i]
      by (simp add: holds_chain_def Let_def)
    then show ?thesis using b store_inv_hash [OF D(5) b(1)] loaded_indexes(2) [OF D(5,1-3) l] by simp
  qed
  from load_snapshots_order [OF C(3) order.refl le0 this]
  have "load_each (load_snapshot E d) (map of_nat [0..<length ?c]) (st2 \<lparr> bs_snapshots := first_snapshots st ?c 0 \<rparr>) =
      (Inr (), st2 \<lparr> bs_snapshots := first_snapshots st ?c (length ?c) \<rparr>)" by blast
  moreover have "st2 \<lparr> bs_snapshots := first_snapshots st ?c 0 \<rparr> = st2"
    using l by (cases st2) (simp add: first_snapshots_def loaded_def)
  ultimately show ?thesis by (simp only: heights_range C(1))
qed

lemma start_by_replay:
  assumes ar: "archived E cfg g s0 st live tip t"
    and l: "loaded E st (chain_from st tip) (length (chain_from st tip) - 1) st2"
  shows "replay_chain E (heights 1 (hd_number (blk_header t))) s0 (record_state (block_hash E g) s0 st2) =
    Inr (live, st2 \<lparr> bs_snapshots := first_snapshots st (chain_from st tip) (length (chain_from st tip)) \<rparr>)"
proof -
  let ?c = "chain_from st tip"
  note D = archivedD [OF ar]
  have len: "length ?c = Suc (unat (hd_number (blk_header t)))" by (rule canonical_chain(1) [OF D(5,1-3)])
  have "record_state (block_hash E g) s0 st2 = st2 \<lparr> bs_snapshots := first_snapshots st ?c (Suc 0) \<rparr>"
    using l D(9) archived_ends(1) [OF ar] by (simp add: record_state_def first_snapshots_def loaded_def hm_insert_def)
  then show ?thesis
    using replay_order [OF ar _ loaded_indexes(2) [OF D(5,1-3) l], of 0] len D(9) archived_ends(1) [OF ar]
    by (simp add: heights_range)
qed

lemma loaded_chain:
  assumes ar: "archived E cfg g s0 st live tip t"
    and l: "loaded E st (chain_from st tip) (length (chain_from st tip) - 1) st2"
  shows "chain_from st2 tip = chain_from st tip" "get_block st2 (hash_zero 32) = None" "get_block st2 tip = Some t"
proof -
  note D = archivedD [OF ar]
  note C = canonical_chain [OF D(5,1-3)]
  note ix = loaded_indexes [OF D(5,1-3) l]
  have sinv: "store_inv E st2" using l by (simp add: loaded_def)
  have "tip \<in> set (chain_from st tip)" using C(1,2) by (metis lessI nth_mem)
  then show t: "get_block st2 tip = Some t" using ix(3) D(2) by simp
  show "get_block st2 (hash_zero 32) = None" using l ar by (simp add: loaded_def archived_def)
  note C2 = canonical_chain [OF sinv ix(1) t D(3)]
  show "chain_from st2 tip = chain_from st tip"
  proof (rule nth_equalityI)
    show "length (chain_from st2 tip) = length (chain_from st tip)" using C(1) C2(1) by simp
    fix i assume i: "i < length (chain_from st2 tip)"
    then have i': "i < length (chain_from st tip)" using C(1) C2(1) by simp
    obtain b b' where "get_block st2 (chain_from st2 tip ! i) = Some b" "get_block_by_number st2 (of_nat i) = Some b"
      "get_block st (chain_from st tip ! i) = Some b'" "get_block_by_number st (of_nat i) = Some b'"
      using C2(4) [OF i] C(4) [OF i'] by blast
    then show "chain_from st2 tip ! i = chain_from st tip ! i"
      using ix(2) store_inv_hash [OF sinv] store_inv_hash [OF D(5)] by (metis option.inject)
  qed
qed

lemma start_restores:
  assumes laws: "rocks_laws E view" "disk_codec_laws E" "keccak_laws E"
    and ar: "archived E cfg g s0 st live tip t" and holds: "holds_archive E (view d) st tip"
  shows "\<exists>st'. start_chain E cp cfg g s0 d = (Inr (st', live), d) \<and> bs_head st' = Some tip \<and>
    chain_reach E True cfg g s0 st' live pool_new \<and> get_block_by_number st' = get_block_by_number st \<and>
    get_block st' (hash_zero 32) = None \<and> chain_from st' tip = chain_from st tip \<and>
    (\<forall>h \<in> set (chain_from st tip). get_block st' h = get_block st h \<and> hm_get (bs_snapshots st') h = hm_get (bs_snapshots st) h)"
proof -
  let ?c = "chain_from st tip" and ?n = "hd_number (blk_header t)"
  note D = archivedD [OF ar]
  note C = canonical_chain [OF D(5,1-3)]
  have blocks: "holds_blocks E (view d) st tip"
    using holds holds_chain_blocks by (auto simp: holds_archive_def)
  obtain st2 where load: "load_into E d (store_new cfg) g =
      (case load_each (load_snapshot E d) (heights 0 ?n) st2 of
         (Inl e, st3) \<Rightarrow> (Inl e, st3) | (Inr _, st3) \<Rightarrow> (Inr (Some ?n), st3))"
    and l: "loaded E st ?c (length ?c - 1) st2" and r: "rebuilt E cfg g s0 st ?c (length ?c - 1) st2"
    using load_archive [OF laws ar blocks] by blast
  note ix = loaded_indexes [OF D(5,1-3) l]
  define st' where "st' = st2 \<lparr> bs_snapshots := first_snapshots st ?c (length ?c) \<rparr>"
  have snaps: "hm_get (bs_snapshots st') h = hm_get (bs_snapshots st) h" if "h \<in> set ?c" for h
    using that first_snapshots_get [OF C(3) _ order.refl] archived_post [OF ar] by (auto simp: st'_def in_set_conv_nth)
  have tip: "tip \<in> set ?c" using C(1,2) by (metis lessI nth_mem)
  have start: "start_chain E cp cfg g s0 d = (Inr (st', live), d)"
    using holds [unfolded holds_archive_def]
  proof
    assume "holds_chain E (view d) st tip"
    then have "load_into E d (store_new cfg) g = (Inr (Some ?n), st')"
      using load start_from_snapshots [OF laws(1,2) ar _ l] by (simp add: st'_def)
    moreover have "Option.bind (bs_head st') (state_at st') = Some live"
      using ix(1) snaps [OF tip] D(8) by (simp add: st'_def state_at_def)
    ultimately show ?thesis by (simp add: start_chain_def)
  next
    assume v: "holds_blocks E (view d) st tip \<and> (\<forall>h. view d (snapshot_key h) = None)"
    have "load_into E d (store_new cfg) g = (Inr (Some ?n), st2)"
      using load load_snapshots_none [of st2 E d] v
      by (simp add: get_snapshot_def db_read_view [OF laws(1)])
    moreover have "Option.bind (bs_head st2) (state_at st2) = None"
      using ix(1) l by (simp add: loaded_def state_at_def hm_simps)
    ultimately show ?thesis using start_by_replay [OF ar l] by (simp add: start_chain_def st'_def)
  qed
  have "chain_reach E True cfg g s0 st' live pool_new"
    using r C(1,2) archived_ends(2) [OF ar] by (simp add: rebuilt_def st'_def)
  then show ?thesis using start ix loaded_chain [OF ar l] snaps
    by (intro exI [of _ st']) (simp add: st'_def)
qed

end
