(* ===== verification/Node.thy ===== *)
theory Node
  imports Startup
begin

text \<open>
  The node of \<open>bin/ivory/src/node.rs\<close>: its start over the chain that \<open>Startup\<close> obtains, the import loop with
  its orphans, the handling of network events, and the producer's tick. Commands to the
  network and events to RPC subscribers are collected in order; metrics, sockets, tasks and
  shutdown are left out. \<open>import_block\<close> recurses into waiting children, so it takes fuel.
\<close>

section \<open>State\<close>

datatype rpc_event =
    NewHead u64 h256 h256 address u64 h256 u64 u64
  | NewPendingTx h256
  | NewLogs "log list" u64 h256

definition new_head_event :: "'z core_env_scheme \<Rightarrow> block \<Rightarrow> rpc_event" where
  "new_head_event E b =
     (let h = blk_header b
      in NewHead (hd_number h) (block_hash E b) (hd_parent_hash h) (hd_miner h) (hd_timestamp h)
           (hd_state_root h) (hd_gas_limit h) (hd_gas_used h))"

definition new_logs_event :: "'z core_env_scheme \<Rightarrow> block \<Rightarrow> rpc_event" where
  "new_logs_event E b =
     NewLogs (concat (map rc_logs (blk_receipts b))) (hd_number (blk_header b)) (block_hash E b)"

definition emit_logs :: "'z core_env_scheme \<Rightarrow> block \<Rightarrow> rpc_event list" where
  "emit_logs E b =
     (let logs = concat (map rc_logs (blk_receipts b))
      in if logs = [] then [] else [NewLogs logs (hd_number (blk_header b)) (block_hash E b)])"

record 'd node =
  nd_store :: block_store
  nd_live :: state_db
  nd_pool :: transaction_pool
  nd_orphans :: "(h256, block) hmap"
  nd_db :: 'd
  nd_commands :: "command list"
  nd_events :: "rpc_event list"

definition send_command :: "command \<Rightarrow> 'd node \<Rightarrow> 'd node" where
  "send_command c nd = nd \<lparr> nd_commands := nd_commands nd @ [c] \<rparr>"

definition send_events :: "rpc_event list \<Rightarrow> 'd node \<Rightarrow> 'd node" where
  "send_events es nd = nd \<lparr> nd_events := nd_events nd @ es \<rparr>"

section \<open>Import\<close>

definition prune_store :: "'z core_env_scheme \<Rightarrow> chain_persist \<Rightarrow> block_store \<Rightarrow> block_store" where
  "prune_store E cp st =
     (if cp_archive cp then prune_snapshots st else prune_snapshots_keep E (cp_archive_keep cp) st)"

text \<open>
  Persisting after an import: failures are logged and ignored, so only what reached the
  database counts. Listing the live trie's nodes refreshes the live state's storage roots.
\<close>

definition persist_import ::
  "('d, 'z) disk_env_scheme \<Rightarrow> chain_persist \<Rightarrow> block \<Rightarrow> 'd node \<Rightarrow> 'd node" where
  "persist_import E cp b nd =
     (let d1 = snd (persist_canonical E cp (nd_store nd) b (nd_db nd));
          (nodes, live') = trie_nodes E (nd_live nd);
          d2 = snd (persist_trie_nodes E nodes d1)
      in nd \<lparr> nd_live := live', nd_db := d2, nd_store := prune_store E cp (nd_store nd) \<rparr>)"

definition accept_block ::
  "('d, 'z) disk_env_scheme \<Rightarrow> chain_persist \<Rightarrow> block \<Rightarrow> insert_outcome \<Rightarrow> 'd node \<Rightarrow> 'd node" where
  "accept_block E cp b outcome nd =
     persist_import E cp b
       (if io_head_changed outcome then send_events (new_head_event E b # emit_logs E b) nd else nd)"

definition waiting_children :: "h256 \<Rightarrow> (h256, block) hmap \<Rightarrow> block list" where
  "waiting_children hash orphans = filter (\<lambda>c. hd_parent_hash (blk_header c) = hash) (map snd orphans)"

primrec import_block ::
  "('d, 'z) disk_env_scheme \<Rightarrow> chain_persist \<Rightarrow> nat \<Rightarrow> block \<Rightarrow> 'd node \<Rightarrow> 'd node option" where
  "import_block E cp 0 b nd = None"
| "import_block E cp (Suc n) b nd =
     (case import_and_apply E b (nd_store nd) (nd_live nd) (nd_pool nd) of
        (r, st, live, pool) \<Rightarrow>
          (let nd1 = nd \<lparr> nd_store := st, nd_live := live, nd_pool := pool \<rparr>
           in case r of
                Inr outcome \<Rightarrow>
                  (let nd2 = accept_block E cp b outcome nd1
                   in fold (\<lambda>child acc. Option.bind acc (\<lambda>nd'.
                        import_block E cp n child
                          (nd' \<lparr> nd_orphans := hm_remove (block_hash E child) (nd_orphans nd') \<rparr>)))
                        (waiting_children (block_hash E b) (nd_orphans nd2)) (Some nd2))
              | Inl e \<Rightarrow>
                  (if e = UnknownParent \<or> e = UnknownParentState
                   then Some (send_command (RequestBlock (hd_parent_hash (blk_header b)))
                          (nd1 \<lparr> nd_orphans := hm_insert (block_hash E b) b (nd_orphans nd1) \<rparr>))
                   else Some nd1)))"

text \<open>Two levels more than there are orphans are enough, as shown below.\<close>

definition import_fuel :: "'d node \<Rightarrow> nat" where
  "import_fuel nd = Suc (Suc (length (nd_orphans nd)))"

definition node_import ::
  "('d, 'z) disk_env_scheme \<Rightarrow> chain_persist \<Rightarrow> block \<Rightarrow> 'd node \<Rightarrow> 'd node" where
  "node_import E cp b nd = the (import_block E cp (import_fuel nd) b nd)"

section \<open>Events\<close>

fun handle_event ::
  "('d, 'z) disk_env_scheme \<Rightarrow> chain_persist \<Rightarrow> network_event \<Rightarrow> 'd node \<Rightarrow> 'd node" where
  "handle_event E cp (TxReceived tx) nd =
     (case add_transaction E tx Remote (nd_pool nd) of
        (Inl _, pool) \<Rightarrow> nd \<lparr> nd_pool := pool \<rparr>
      | (Inr hash, pool) \<Rightarrow> send_events [NewPendingTx hash] (nd \<lparr> nd_pool := pool \<rparr>))"
| "handle_event E cp (BlockReceived b) nd = node_import E cp b nd"
| "handle_event E cp (BlockRequest hash) nd =
     (case get_block (nd_store nd) hash of
        None \<Rightarrow> nd
      | Some b \<Rightarrow> send_command (BroadcastBlock b) nd)"
| "handle_event E cp (HeaderReceived h) nd =
     (if get_block (nd_store nd) (header_hash E h) = None
      then send_command (RequestBlock (header_hash E h)) nd else nd)"
| "handle_event E cp (HeaderRequest hash) nd =
     (case get_block (nd_store nd) hash of
        None \<Rightarrow> nd
      | Some b \<Rightarrow> send_command (BroadcastHeader (blk_header b)) nd)"
| "handle_event E cp (PeerConnected p) nd = nd"
| "handle_event E cp (PeerDisconnected p) nd = nd"
| "handle_event E cp (ListenAddr a) nd = nd"

text \<open>
  A transaction submitted at this node: once admitted it is handed to the gossip callback,
  which broadcasts it, and announced to subscribers.
\<close>

definition submit_local :: "'z core_env_scheme \<Rightarrow> transaction \<Rightarrow> 'd node \<Rightarrow> 'd node" where
  "submit_local E tx nd =
     (case add_transaction E tx Local (nd_pool nd) of
        (Inl _, pool) \<Rightarrow> nd \<lparr> nd_pool := pool \<rparr>
      | (Inr hash, pool) \<Rightarrow>
          send_events [NewPendingTx hash] (send_command (BroadcastTx tx) (nd \<lparr> nd_pool := pool \<rparr>)))"

section \<open>Production\<close>

record producer =
  pd_gas_limit :: u64
  pd_consensus :: poa_config
  pd_miner :: address
  pd_key :: secret_key

definition tick_params :: "producer \<Rightarrow> block \<Rightarrow> transaction_pool \<Rightarrow> produce_params" where
  "tick_params pd parent pool =
     \<lparr> pp_parent = parent, pp_pool = pool, pp_consensus = pd_consensus pd, pp_miner = pd_miner pd,
       pp_miner_key = pd_key pd, pp_timestamp = saturating_add_w (hd_timestamp (blk_header parent)) 1,
       pp_max_txs = 128 \<rparr>"

definition producer_tick ::
  "('d, 'z) disk_env_scheme \<Rightarrow> chain_persist \<Rightarrow> producer \<Rightarrow> 'd node \<Rightarrow> 'd node" where
  "producer_tick E cp pd nd =
     (if pending_count (nd_pool nd) = 0 then nd
      else case head_block (nd_store nd) of
        None \<Rightarrow> nd
      | Some parent \<Rightarrow>
     (case state_at (nd_store nd) (block_hash E parent) of
        None \<Rightarrow> nd
      | Some parent_state \<Rightarrow>
     (case produce_block E (pd_gas_limit pd) (tick_params pd parent (nd_pool nd)) gas_config_default parent_state of
        (Inl _, _) \<Rightarrow> nd
      | (Inr b, _) \<Rightarrow>
     (case import_and_apply E b (nd_store nd) (nd_live nd) (nd_pool nd) of
        (Inl _, st, live, pool) \<Rightarrow> nd \<lparr> nd_store := st, nd_live := live, nd_pool := pool \<rparr>
      | (Inr outcome, st, live, pool) \<Rightarrow>
          (let nd1 = nd \<lparr> nd_store := st, nd_live := live, nd_pool := pool \<rparr>;
               nd2 = (if io_head_changed outcome
                      then send_events [new_head_event E b, new_logs_event E b] nd1 else nd1)
           in send_command (BroadcastBlock b) (persist_import E cp b nd2))))))"

section \<open>Startup\<close>

text \<open>The running node and, when this key is the genesis validator's and may produce, its producer.\<close>

definition run_node ::
  "('d, 'z) disk_env_scheme \<Rightarrow> node_file_config \<Rightarrow> genesis_file \<Rightarrow> secret_key \<Rightarrow> 'd \<Rightarrow>
   (startup_error + 'd node \<times> producer option) \<times> 'd" where
  "run_node E cfg genesis key d =
     (case genesis_poa_config E genesis of
        Inl e \<Rightarrow> (Inl (StartConfig e), d)
      | Inr config \<Rightarrow>
     (case poa_new config of
        Inl e \<Rightarrow> (Inl (StartConsensus e), d)
      | Inr poa \<Rightarrow>
     (case address_from_hex E (gv_address (gf_validator genesis)) of
        Inl e \<Rightarrow> (Inl (StartConfig (ValidatorAddress e)), d)
      | Inr validator_addr \<Rightarrow>
     (case parsed_alloc E (gf_alloc genesis) of
        Inl e \<Rightarrow> (Inl (StartConfig e), d)
      | Inr allocs \<Rightarrow>
     (case genesis_block E genesis of
        Inl e \<Rightarrow> (Inl (StartConfig e), d)
      | Inr g \<Rightarrow>
          (let local_addr = address_from_secret E key;
               is_producer = (may_produce (nc_role cfg) \<and> local_addr = validator_addr \<and> poa_is_validator poa local_addr);
               cp = open_with (nc_archive cfg) (nc_archive_keep cfg)
           in case start_chain E cp poa g (alloc_state E allocs) d of
                (Inl e, d') \<Rightarrow> (Inl e, d')
              | (Inr (st, live), d') \<Rightarrow>
                  (Inr (\<lparr> nd_store = st, nd_live = live, nd_pool = pool_new, nd_orphans = [], nd_db = d',
                          nd_commands = [], nd_events = [] \<rparr>,
                        if is_producer
                        then Some \<lparr> pd_gas_limit = gf_gas_limit genesis, pd_consensus = poa,
                                    pd_miner = local_addr, pd_key = key \<rparr>
                        else None), d')))))))"

section \<open>Importing ends\<close>

text \<open>
  Orphans are filed under their hash. An import recurses only after a block was stored that
  was not stored before, and every block it turns to is an orphan, so the number of hashes
  among the orphans (and the block itself) that are not stored bounds the depth.
\<close>

definition orphans_keyed :: "'z core_env_scheme \<Rightarrow> (h256, block) hmap \<Rightarrow> bool" where
  "orphans_keyed E m \<longleftrightarrow> hm_wf m \<and> (\<forall>k c. hm_get m k = Some c \<longrightarrow> block_hash E c = k)"

definition unstored :: "block_store \<Rightarrow> h256 set \<Rightarrow> h256 set" where
  "unstored st K = {k \<in> K. get_block st k = None}"

definition orphan_keys :: "'d node \<Rightarrow> h256 set" where
  "orphan_keys nd = fst ` set (nd_orphans nd)"

lemma keyed_insert: "orphans_keyed E m \<Longrightarrow> orphans_keyed E (hm_insert (block_hash E b) b m)"
  by (simp add: orphans_keyed_def hm_simps)

lemma keyed_remove: "orphans_keyed E m \<Longrightarrow> orphans_keyed E (hm_remove k m)"
  by (simp add: orphans_keyed_def hm_simps)

lemma keys_insert: "fst ` set (hm_insert k v m) = insert k (fst ` set m)"
  by (simp add: hm_insert_def dom_update)

lemma keys_remove: "fst ` set (hm_remove k m) = fst ` set m - {k}"
  by (auto simp: hm_remove_def AList.delete_eq)

lemma waiting_keyed:
  "orphans_keyed E m \<Longrightarrow> c \<in> set (waiting_children h m) \<Longrightarrow> block_hash E c \<in> fst ` set m"
proof -
  assume m: "orphans_keyed E m" and "c \<in> set (waiting_children h m)"
  then obtain k where k: "(k, c) \<in> set m" by (auto simp: waiting_children_def)
  then have "hm_get m k = Some c" using m by (simp add: orphans_keyed_def hm_get_in)
  then show ?thesis using m image_eqI [OF _ k, of "block_hash E c" fst] by (simp add: orphans_keyed_def)
qed

lemma prune_blocks:
  "get_block (prune_snapshots st) = get_block st"
  "get_block (prune_store E cp st) h = None \<longleftrightarrow> get_block st h = None"
proof -
  show p: "get_block (prune_snapshots st) = get_block st"
    by (simp add: prune_snapshots_def Let_def split: option.split)
  have "get_block (prune_snapshots_keep E k st) h = None \<longleftrightarrow> get_block (prune_snapshots st) h = None" for k
    by (simp add: prune_snapshots_keep_def Let_def split: option.split)
      (simp add: get_block_def drop_bodies_below_def get_drop)
  then show "get_block (prune_store E cp st) h = None \<longleftrightarrow> get_block st h = None"
    by (simp add: prune_store_def p)
qed

lemma insert_block_blocks:
  assumes "insert_block E b st = (Inr out, st')"
  shows "get_block st (block_hash E b) = None" "get_block st' = (get_block st)(block_hash E b \<mapsto> b)"
proof -
  have v: "insert_validated E b st = (Inr out, st')" using assms by (auto elim: insert_block_cases)
  show fresh: "get_block st (block_hash E b) = None"
  proof (rule ccontr)
    assume "get_block st (block_hash E b) \<noteq> None"
    then show False using v by (simp add: insert_validated_def get_block_def Let_def)
  qed
  have "bs_by_hash (snd (insert_validated E b st)) = hm_insert (block_hash E b) b (bs_by_hash st)"
    using fresh by (simp add: insert_validated_def get_block_def Let_def)
  then show "get_block st' = (get_block st)(block_hash E b \<mapsto> b)"
    using v by (simp add: get_block_def fun_eq_iff hm_simps)
qed

lemma import_blocks:
  assumes "import_and_apply E b st live pool = (r, st', live', pool')"
  shows "case r of Inl e \<Rightarrow> st' = st
    | Inr out \<Rightarrow> get_block st (block_hash E b) = None \<and> get_block st' = (get_block st)(block_hash E b \<mapsto> b)"
  using assms
proof (cases rule: import_cases)
  case (imported out ps ctx trial st1)
  note i = insert_block_blocks [OF imported(5)]
  have "get_block st' = get_block st1" by (simp add: imported(6) record_state_def)
  then show ?thesis using i imported(1) by simp
qed simp

lemma accept_frame [simp]:
  "nd_orphans (accept_block E cp b out nd) = nd_orphans nd"
  "nd_store (accept_block E cp b out nd) = prune_store E cp (nd_store nd)"
  "nd_pool (accept_block E cp b out nd) = nd_pool nd"
  "nd_live (accept_block E cp b out nd) = snd (trie_nodes E (nd_live nd))"
  "nd_orphans (persist_import E cp b nd) = nd_orphans nd"
  by (simp_all add: accept_block_def persist_import_def send_events_def case_prod_beta Let_def)

text \<open>One round of an import: refused, parked, or accepted with the children to try next.\<close>

definition adopt :: "'z core_env_scheme \<Rightarrow> block \<Rightarrow> 'd node \<Rightarrow> 'd node" where
  "adopt E c nd = nd \<lparr> nd_orphans := hm_remove (block_hash E c) (nd_orphans nd) \<rparr>"

lemma import_accepted:
  assumes "import_and_apply E b (nd_store nd) (nd_live nd) (nd_pool nd) = (Inr out, st, live, pool)"
  shows "import_block E cp (Suc n) b nd =
    fold (\<lambda>c acc. Option.bind acc (\<lambda>nd'. import_block E cp n c (adopt E c nd')))
      (waiting_children (block_hash E b) (nd_orphans nd))
      (Some (accept_block E cp b out (nd \<lparr> nd_store := st, nd_live := live, nd_pool := pool \<rparr>)))"
  using assms by (simp add: adopt_def Let_def)

lemma import_refused:
  assumes "import_and_apply E b (nd_store nd) (nd_live nd) (nd_pool nd) = (Inl e, st, live, pool)"
  shows "import_block E cp (Suc n) b nd = import_block E cp (Suc m) b nd"
  using assms by simp

lemma import_round:
  assumes imp: "import_and_apply E b (nd_store nd) (nd_live nd) (nd_pool nd) = (r, st, live, pool)"
  obtains (refused) e where "r = Inl e" "import_block E cp (Suc n) b nd = Some nd"
  | (parked) "r = Inl UnknownParent \<or> r = Inl UnknownParentState"
      "import_block E cp (Suc n) b nd =
         Some (send_command (RequestBlock (hd_parent_hash (blk_header b)))
                (nd \<lparr> nd_orphans := hm_insert (block_hash E b) b (nd_orphans nd) \<rparr>))"
  | (accepted) out nd2 where "r = Inr out"
      "nd2 = accept_block E cp b out (nd \<lparr> nd_store := st, nd_live := live, nd_pool := pool \<rparr>)"
      "import_block E cp (Suc n) b nd =
         fold (\<lambda>c acc. Option.bind acc (\<lambda>nd'. import_block E cp n c (adopt E c nd')))
           (waiting_children (block_hash E b) (nd_orphans nd)) (Some nd2)"
proof (cases r)
  case (Inl e)
  then have same: "nd \<lparr> nd_store := st, nd_live := live, nd_pool := pool \<rparr> = nd"
    using imp by (auto elim: import_cases)
  show thesis
  proof (cases "e = UnknownParent \<or> e = UnknownParentState")
    case True
    then show thesis using parked Inl imp same by auto
  next
    case False
    then show thesis using refused Inl imp same by auto
  qed
next
  case (Inr out)
  then show thesis using accepted [OF Inr refl] imp import_accepted by blast
qed

lemma fold_bind_all:
  assumes "\<And>c x. c \<in> set cs \<Longrightarrow> P x \<Longrightarrow> \<exists>y. f c x = Some y \<and> P y" "P x"
  shows "\<exists>y. fold (\<lambda>c acc. Option.bind acc (f c)) cs (Some x) = Some y \<and> P y"
  using assms
proof (induction cs arbitrary: x)
  case (Cons c cs)
  obtain y where "f c x = Some y" "P y" using Cons.prems by fastforce
  then show ?case using Cons.IH [of y] Cons.prems(1) by simp
qed simp

lemma fold_bind_None: "fold (\<lambda>c acc. Option.bind acc (f c)) cs None = None"
  by (induction cs) auto

lemma fold_bind_inv:
  assumes "fold (\<lambda>c acc. Option.bind acc (f c)) cs (Some x) = Some y"
    and "\<And>c x y. c \<in> set cs \<Longrightarrow> f c x = Some y \<Longrightarrow> P x \<Longrightarrow> P y" "P x"
  shows "P y"
  using assms
proof (induction cs arbitrary: x)
  case (Cons c cs)
  then obtain z where z: "f c x = Some z" by (cases "f c x") (auto simp: fold_bind_None)
  have "P z" by (rule Cons.prems(2) [OF _ z Cons.prems(3)]) simp
  then show ?case
    by (intro Cons.IH [of z]) (use Cons.prems(1) z in \<open>auto intro: Cons.prems(2)\<close>)
qed simp

lemma fold_bind_mono:
  assumes "fold (\<lambda>c acc. Option.bind acc (f c)) cs (Some x) = Some y"
    and "\<And>c x y. f c x = Some y \<Longrightarrow> g c x = Some y"
  shows "fold (\<lambda>c acc. Option.bind acc (g c)) cs (Some x) = Some y"
  using assms(1)
proof (induction cs arbitrary: x)
  case (Cons c cs)
  then obtain z where z: "f c x = Some z" by (cases "f c x") (auto simp: fold_bind_None)
  then show ?case using Cons.IH [of z] Cons.prems assms(2) [OF z] by simp
qed simp

declare import_block.simps(2) [simp del]

lemma import_fuel_mono: "import_block E cp n b nd = Some nd' \<Longrightarrow> import_block E cp (Suc n) b nd = Some nd'"
proof (induction n arbitrary: b nd nd')
  case (Suc n)
  obtain r st live pool where imp: "import_and_apply E b (nd_store nd) (nd_live nd) (nd_pool nd) = (r, st, live, pool)"
    by (metis prod_cases4)
  from imp show ?case
  proof (cases rule: import_round [where cp = cp and n = n])
    case (accepted out nd2)
    have "fold (\<lambda>c acc. Option.bind acc (\<lambda>nd'. import_block E cp (Suc n) c (adopt E c nd')))
        (waiting_children (block_hash E b) (nd_orphans nd)) (Some nd2) = Some nd'"
      using Suc.prems unfolding accepted(3) by (rule fold_bind_mono) (rule Suc.IH)
    then show ?thesis using import_accepted [OF imp [unfolded accepted(1)], of cp "Suc n"] accepted(2) by simp
  next
    case (refused e)
    then show ?thesis using Suc.prems import_refused [OF imp [unfolded refused(1)], of cp "Suc n" n] by simp
  next
    case parked
    then obtain e where "r = Inl e" by auto
    then show ?thesis using Suc.prems import_refused [of E b nd e _ _ _ cp "Suc n" n] imp by simp
  qed
qed simp

lemma import_fuel_enough: "import_block E cp n b nd = Some nd' \<Longrightarrow> n \<le> m \<Longrightarrow> import_block E cp m b nd = Some nd'"
  by (induction m) (auto simp: le_Suc_eq simp del: import_block.simps intro: import_fuel_mono)

definition grows :: "block_store \<Rightarrow> block_store \<Rightarrow> bool" where
  "grows st st' \<longleftrightarrow> (\<forall>h. get_block st h \<noteq> None \<longrightarrow> get_block st' h \<noteq> None)"

lemma unstored_card:
  assumes "grows st st'" "finite K" "K' \<subseteq> K" "h \<in> unstored st K" "get_block st' h \<noteq> None"
  shows "card (unstored st' K') < card (unstored st K)"
proof (rule psubset_card_mono)
  show "finite (unstored st K)" using assms(2) by (simp add: unstored_def)
  have "unstored st' K' \<subseteq> unstored st K" using assms(1,3) by (auto simp: unstored_def grows_def)
  moreover have "h \<notin> unstored st' K'" using assms(5) by (simp add: unstored_def)
  ultimately show "unstored st' K' \<subset> unstored st K" using assms(4) by blast
qed

lemma import_ends:
  assumes "orphans_keyed E (nd_orphans nd)"
    "card (unstored (nd_store nd) (insert (block_hash E b) (orphan_keys nd))) < n"
  shows "\<exists>nd'. import_block E cp n b nd = Some nd' \<and> orphans_keyed E (nd_orphans nd') \<and>
    orphan_keys nd' \<subseteq> insert (block_hash E b) (orphan_keys nd) \<and> grows (nd_store nd) (nd_store nd')"
  using assms
proof (induction n arbitrary: b nd)
  case (Suc n)
  obtain r st live pool where imp: "import_and_apply E b (nd_store nd) (nd_live nd) (nd_pool nd) = (r, st, live, pool)"
    by (metis prod_cases4)
  from imp show ?case
  proof (cases rule: import_round [where cp = cp and n = n])
    case (refused e)
    then show ?thesis using Suc.prems(1) by (auto simp: grows_def)
  next
    case parked
    then show ?thesis using keyed_insert [OF Suc.prems(1), of b]
      by (auto simp: grows_def send_command_def orphan_keys_def keys_insert)
  next
    case (accepted out nd2)
    let ?K = "insert (block_hash E b) (orphan_keys nd)"
    have st: "get_block (nd_store nd) (block_hash E b) = None"
      "get_block st = (get_block (nd_store nd))(block_hash E b \<mapsto> b)"
      using import_blocks [OF imp] accepted(1) by simp_all
    have nd2: "nd_orphans nd2 = nd_orphans nd" "nd_store nd2 = prune_store E cp st" by (simp_all add: accepted(2))
    have g2: "grows (nd_store nd) (nd_store nd2)" "get_block (nd_store nd2) (block_hash E b) \<noteq> None"
      using st by (auto simp: grows_def nd2 prune_blocks)
    let ?P = "\<lambda>nd'. orphans_keyed E (nd_orphans nd') \<and> orphan_keys nd' \<subseteq> orphan_keys nd \<and> grows (nd_store nd2) (nd_store nd')"
    have step: "\<exists>nd''. import_block E cp n c (adopt E c nd') = Some nd'' \<and> ?P nd''"
      if c: "c \<in> set (waiting_children (block_hash E b) (nd_orphans nd))" and P: "?P nd'" for c nd'
    proof -
      have mem: "block_hash E c \<in> orphan_keys nd"
        using waiting_keyed [OF Suc.prems(1) c] by (simp add: orphan_keys_def)
      have keys: "insert (block_hash E c) (orphan_keys (adopt E c nd')) \<subseteq> orphan_keys nd"
        using P mem by (auto simp: adopt_def orphan_keys_def keys_remove)
      have same: "nd_store (adopt E c nd') = nd_store nd'" by (simp add: adopt_def)
      have "card (unstored (nd_store nd') (insert (block_hash E c) (orphan_keys (adopt E c nd')))) < card (unstored (nd_store nd) ?K)"
      proof (rule unstored_card)
        show "grows (nd_store nd) (nd_store nd')" "get_block (nd_store nd') (block_hash E b) \<noteq> None"
          using g2 P by (auto simp: grows_def)
        show "block_hash E b \<in> unstored (nd_store nd) ?K" using st(1) by (simp add: unstored_def)
        show "finite ?K" by (simp add: orphan_keys_def)
      qed (use keys in auto)
      then have "card (unstored (nd_store (adopt E c nd')) (insert (block_hash E c) (orphan_keys (adopt E c nd')))) < n"
        using Suc.prems(2) same by simp
      moreover have "orphans_keyed E (nd_orphans (adopt E c nd'))" using P by (simp add: adopt_def keyed_remove)
      ultimately obtain nd'' where "import_block E cp n c (adopt E c nd') = Some nd''" "orphans_keyed E (nd_orphans nd'')"
        "orphan_keys nd'' \<subseteq> insert (block_hash E c) (orphan_keys (adopt E c nd'))" "grows (nd_store nd') (nd_store nd'')"
        using Suc.IH [of "adopt E c nd'" c] same by auto
      then show ?thesis using keys P by (auto simp: grows_def)
    qed
    have "\<exists>nd'. import_block E cp (Suc n) b nd = Some nd' \<and> ?P nd'"
      unfolding accepted(3)
      by (rule fold_bind_all [where P = ?P], erule (1) step)
        (use Suc.prems(1) in \<open>simp add: nd2(1) orphan_keys_def grows_def\<close>)
    then show ?thesis using g2(1) by (auto simp: grows_def)
  qed
qed simp

lemma import_fuel_bound:
  "card (unstored (nd_store nd) (insert (block_hash E b) (orphan_keys nd))) < import_fuel nd"
proof -
  have "card (unstored (nd_store nd) (insert (block_hash E b) (orphan_keys nd))) \<le> card (insert (block_hash E b) (orphan_keys nd))"
    by (rule card_mono) (auto simp: unstored_def orphan_keys_def)
  also have "\<dots> \<le> Suc (card (orphan_keys nd))" by (rule card_insert_le_m1) simp_all
  also have "card (orphan_keys nd) \<le> length (nd_orphans nd)"
    unfolding orphan_keys_def by (metis card_image_le card_length le_trans List.finite_set)
  finally show ?thesis by (simp add: import_fuel_def)
qed

section \<open>A node runs a chain\<close>

abbreviation on_chain ::
  "('d, 'z) disk_env_scheme \<Rightarrow> chain_persist \<Rightarrow> poa_config \<Rightarrow> block \<Rightarrow> state_db \<Rightarrow> 'd node \<Rightarrow> bool" where
  "on_chain E cp cfg g s0 nd \<equiv> chain_reach E (cp_archive cp) cfg g s0 (nd_store nd) (nd_live nd) (nd_pool nd)"

lemma prune_reach:
  "chain_reach E (cp_archive cp) cfg g s0 st live pool \<Longrightarrow>
   chain_reach E (cp_archive cp) cfg g s0 (prune_store E cp st) live pool"
  by (auto simp: prune_store_def dest: cr_prune cr_prune_keep)

lemma reach_live: "chain_reach E archive cfg g s0 st live pool \<Longrightarrow> snd (trie_nodes E live) = live"
proof -
  assume r: "chain_reach E archive cfg g s0 st live pool"
  have inv: "chain_inv E st live" using chain_reach_inv [OF r] ..
  have "bs_by_hash st \<noteq> []" using genesis_kept [OF r] by (auto simp: headers_def hm_simps)
  then obtain tip where "bs_head st = Some tip" using inv by (auto simp: chain_inv_def store_inv_def split: option.splits)
  then have "hm_get (bs_snapshots st) tip = Some live" using inv by (simp add: chain_inv_def)
  then show "snd (trie_nodes E live) = live" by (rule trie_nodes_inv [OF chain_snapshot(1) [OF inv]])
qed

lemma accept_reach:
  assumes "on_chain E cp cfg g s0 nd"
  shows "on_chain E cp cfg g s0 (accept_block E cp b out nd)" "on_chain E cp cfg g s0 (persist_import E cp b nd)"
  using prune_reach [OF assms] reach_live [OF assms]
  by (simp_all add: persist_import_def case_prod_beta Let_def)

text \<open>
  On a working database, the entries of an archiving node are those of its canonical chain,
  as long as the height is below the largest.
\<close>

definition synced :: "('d, 'z) disk_env_scheme \<Rightarrow> chain_persist \<Rightarrow> 'd node \<Rightarrow> bool" where
  "synced E cp nd \<longleftrightarrow> (\<forall>view tip t. rocks_laws E view \<longrightarrow> cp_archive cp \<longrightarrow> bs_head (nd_store nd) = Some tip \<longrightarrow>
     get_block (nd_store nd) tip = Some t \<longrightarrow> hd_number (blk_header t) \<noteq> - 1 \<longrightarrow>
     holds_archive E (view (nd_db nd)) (nd_store nd) tip)"

lemma synced_frame [simp]:
  "synced E cp (nd \<lparr> nd_pool := p \<rparr>) = synced E cp nd" "synced E cp (nd \<lparr> nd_orphans := m \<rparr>) = synced E cp nd"
  "synced E cp (nd \<lparr> nd_commands := cs \<rparr>) = synced E cp nd" "synced E cp (nd \<lparr> nd_events := es \<rparr>) = synced E cp nd"
  by (simp_all add: synced_def)

lemma holds_chain_pruned:
  assumes "hm_wf (bs_snapshots st)" "holds_chain E m st tip" "\<And>k. (\<forall>h. k \<noteq> trie_key h) \<Longrightarrow> m' k = m k"
  shows "holds_chain E m' (prune_snapshots st) tip"
proof -
  have "chain_from (prune_snapshots st) = chain_from st"
    by (simp add: prune_snapshots_def Let_def split: option.split)
  moreover have "hm_get (bs_snapshots (prune_snapshots st)) h = Some s \<Longrightarrow> hm_get (bs_snapshots st) h = Some s" for h s
    by (auto simp: prune_snapshots_def Let_def hm_retain_get [OF assms(1)] split: option.splits if_splits)
  moreover have "m' KEY_HEAD = m KEY_HEAD" "m' (height_key n) = m (height_key n)" "m' (block_key h) = m (block_key h)"
    "m' (snapshot_key h) = m (snapshot_key h)" for n h
    by (rule assms(3); simp add: key_simps key_neqs)+
  ultimately show ?thesis using assms(2) by (simp add: holds_chain_def Let_def prune_blocks(1))
qed

lemma persist_synced:
  assumes chain: "on_chain E cp cfg g s0 nd"
  shows "synced E cp (persist_import E cp b nd)"
  unfolding synced_def
proof (intro allI impI)
  fix view tip t
  let ?st = "nd_store nd" and ?nd = "persist_import E cp b nd"
  assume laws: "rocks_laws E view" and ar: "cp_archive cp" and tip: "bs_head (nd_store ?nd) = Some tip"
    and t: "get_block (nd_store ?nd) tip = Some t" and num: "hd_number (blk_header t) \<noteq> - 1"
  have st: "nd_store ?nd = prune_snapshots ?st"
    using ar by (simp add: persist_import_def prune_store_def case_prod_beta Let_def)
  have inv: "chain_inv E ?st (nd_live nd)" using chain_reach_inv [OF chain] ..
  have tip': "bs_head ?st = Some tip" "get_block ?st tip = Some t"
    using tip t by (simp_all add: st prune_blocks(1)) (simp add: prune_snapshots_def Let_def split: option.splits)
  obtain d1 where d1: "persist_canonical E cp ?st b (nd_db nd) = (Inr (), d1)" "holds_chain E (view d1) ?st tip"
    using persisted_archive [OF laws ar inv tip' num] by blast
  let ?ws = "map (\<lambda>(k, v). (trie_key k, Some v)) (fst (trie_nodes E (nd_live nd)))"
  obtain d2 where d2: "persist_trie_nodes E (fst (trie_nodes E (nd_live nd))) d1 = (Inr (), d2)" "view d2 = fold set_key ?ws (view d1)"
    using performs_nodes [OF laws, of "fst (trie_nodes E (nd_live nd))"] unfolding performs_def by blast
  have "nd_db ?nd = d2" using d1(1) d2(1) by (simp add: persist_import_def case_prod_beta Let_def)
  then have "view (nd_db ?nd) = fold set_key ?ws (view d1)" by (simp add: d2(2))
  moreover have "k \<notin> fst ` set ?ws" if "\<forall>h. k \<noteq> trie_key h" for k using that by auto
  ultimately have "view (nd_db ?nd) k = view d1 k" if "\<forall>h. k \<noteq> trie_key h" for k
    using that fold_write_other by simp
  moreover have "hm_wf (bs_snapshots ?st)" using inv by (auto simp: chain_inv_def intro: store_inv_wf)
  ultimately show "holds_archive E (view (nd_db ?nd)) (nd_store ?nd) tip"
    using holds_chain_pruned [OF _ d1(2)] by (simp add: holds_archive_def st)
qed

abbreviation keeps_chain ::
  "('d, 'z) disk_env_scheme \<Rightarrow> chain_persist \<Rightarrow> poa_config \<Rightarrow> block \<Rightarrow> state_db \<Rightarrow> 'd node \<Rightarrow> bool" where
  "keeps_chain E cp cfg g s0 nd \<equiv> on_chain E cp cfg g s0 nd \<and> synced E cp nd"

lemma accept_keeps:
  assumes "on_chain E cp cfg g s0 nd"
  shows "keeps_chain E cp cfg g s0 (accept_block E cp b out nd)" "keeps_chain E cp cfg g s0 (persist_import E cp b nd)"
proof -
  show "keeps_chain E cp cfg g s0 (persist_import E cp b nd)" using accept_reach(2) persist_synced assms by blast
  have "on_chain E cp cfg g s0 (send_events es nd)" for es using assms by (simp add: send_events_def)
  then have "synced E cp (accept_block E cp b out nd)"
    unfolding accept_block_def using assms by (auto intro: persist_synced)
  then show "keeps_chain E cp cfg g s0 (accept_block E cp b out nd)" using accept_reach(1) assms by blast
qed

lemma import_reach:
  "import_block E cp n b nd = Some nd' \<Longrightarrow> keeps_chain E cp cfg g s0 nd \<Longrightarrow> keeps_chain E cp cfg g s0 nd'"
proof (induction n arbitrary: b nd nd')
  case (Suc n)
  obtain r st live pool where imp: "import_and_apply E b (nd_store nd) (nd_live nd) (nd_pool nd) = (r, st, live, pool)"
    by (metis prod_cases4)
  from imp show ?case
  proof (cases rule: import_round [where cp = cp and n = n])
    case (refused e)
    then show ?thesis using Suc.prems by simp
  next
    case parked
    then show ?thesis using Suc.prems by (auto simp: send_command_def)
  next
    case (accepted out nd2)
    have "keeps_chain E cp cfg g s0 nd2"
      unfolding accepted(2) by (rule accept_keeps) (use cr_import [OF conjunct1 [OF Suc.prems(2)] imp] in simp)
    then show ?thesis
      by (rule fold_bind_inv [OF Suc.prems(1) [unfolded accepted(3)], rotated]) (erule Suc.IH, simp add: adopt_def)
  qed
qed simp

lemma node_import_keyed:
  assumes "orphans_keyed E (nd_orphans nd)"
  obtains nd' where "import_block E cp (import_fuel nd) b nd = Some nd'" "node_import E cp b nd = nd'"
    "orphans_keyed E (nd_orphans nd')" "orphan_keys nd' \<subseteq> insert (block_hash E b) (orphan_keys nd)"
    "grows (nd_store nd) (nd_store nd')"
  using import_ends [OF assms import_fuel_bound] that by (auto simp: node_import_def)

lemma event_reach:
  assumes keyed: "orphans_keyed E (nd_orphans nd)" and chain: "keeps_chain E cp cfg g s0 nd"
  shows "orphans_keyed E (nd_orphans (handle_event E cp ev nd)) \<and> keeps_chain E cp cfg g s0 (handle_event E cp ev nd)"
proof (cases ev)
  case (BlockReceived b)
  obtain nd' where "import_block E cp (import_fuel nd) b nd = Some nd'" "node_import E cp b nd = nd'" "orphans_keyed E (nd_orphans nd')"
    by (rule node_import_keyed [OF keyed])
  then show ?thesis using BlockReceived import_reach [OF _ chain] by simp
next
  case (TxReceived tx)
  obtain r pool where add: "add_transaction E tx Remote (nd_pool nd) = (r, pool)" by fastforce
  have "pool_op E (nd_pool nd) pool" using pool_op_add [of E "nd_pool nd" tx Remote] add by simp
  from cr_pool [OF conjunct1 [OF chain] this] show ?thesis
    using TxReceived keyed add chain by (cases r) (simp_all add: send_events_def)
qed (use keyed chain in \<open>auto simp: send_command_def split: option.split\<close>)

lemma submit_reach:
  assumes keyed: "orphans_keyed E (nd_orphans nd)" and chain: "keeps_chain E cp cfg g s0 nd"
  shows "orphans_keyed E (nd_orphans (submit_local E tx nd)) \<and> keeps_chain E cp cfg g s0 (submit_local E tx nd)"
proof -
  obtain r pool where add: "add_transaction E tx Local (nd_pool nd) = (r, pool)" by fastforce
  have "pool_op E (nd_pool nd) pool" using pool_op_add [of E "nd_pool nd" tx Local] add by simp
  from cr_pool [OF conjunct1 [OF chain] this] show ?thesis
    using keyed add chain by (cases r) (simp_all add: submit_local_def send_events_def send_command_def)
qed

lemma tick_reach:
  assumes keyed: "orphans_keyed E (nd_orphans nd)" and chain: "keeps_chain E cp cfg g s0 nd"
  shows "orphans_keyed E (nd_orphans (producer_tick E cp pd nd)) \<and> keeps_chain E cp cfg g s0 (producer_tick E cp pd nd)"
proof -
  have "orphans_keyed E (nd_orphans nd') \<and> keeps_chain E cp cfg g s0 nd'"
    if nd': "nd' = (case import_and_apply E b (nd_store nd) (nd_live nd) (nd_pool nd) of
        (Inl _, st, live, pool) \<Rightarrow> nd \<lparr> nd_store := st, nd_live := live, nd_pool := pool \<rparr>
      | (Inr outcome, st, live, pool) \<Rightarrow>
          (let nd1 = nd \<lparr> nd_store := st, nd_live := live, nd_pool := pool \<rparr>;
               nd2 = (if io_head_changed outcome
                      then send_events [new_head_event E b, new_logs_event E b] nd1 else nd1)
           in send_command (BroadcastBlock b) (persist_import E cp b nd2)))" for b nd'
  proof -
    obtain r st live pool where imp: "import_and_apply E b (nd_store nd) (nd_live nd) (nd_pool nd) = (r, st, live, pool)"
      by (metis prod_cases4)
    note c = cr_import [OF conjunct1 [OF chain] imp]
    show ?thesis
    proof (cases r)
      case (Inl e)
      then have "st = nd_store nd" using import_blocks [OF imp] by simp
      then show ?thesis using nd' imp c keyed chain Inl by (simp add: synced_def)
    next
      case (Inr out)
      define nd2 where "nd2 = (if io_head_changed out
        then send_events [new_head_event E b, new_logs_event E b] (nd \<lparr> nd_store := st, nd_live := live, nd_pool := pool \<rparr>)
        else nd \<lparr> nd_store := st, nd_live := live, nd_pool := pool \<rparr>)"
      have "on_chain E cp cfg g s0 nd2" "nd_orphans nd2 = nd_orphans nd" using c by (simp_all add: nd2_def send_events_def)
      moreover have "nd' = send_command (BroadcastBlock b) (persist_import E cp b nd2)"
        using nd' imp Inr by (simp add: nd2_def Let_def)
      ultimately show ?thesis using keyed accept_keeps(2) [of E cp cfg g s0 nd2 b] by (simp add: send_command_def)
    qed
  qed
  then show ?thesis using keyed chain unfolding producer_tick_def
    by (simp split: option.split sum.split prod.split)
qed

section \<open>Reachable nodes\<close>

text \<open>
  A node starts from a database without a head entry, and then handles network events, local
  submissions and, if it produces, ticks. An archiving node may stop between any two of these
  and start again on what its database holds, or on that without the snapshots.
\<close>

definition restart_image :: "('d, 'z) disk_env_scheme \<Rightarrow> node_file_config \<Rightarrow> 'd node \<Rightarrow> 'd \<Rightarrow> bool" where
  "restart_image E cfg nd d \<longleftrightarrow>
     nc_archive cfg \<and> disk_codec_laws E \<and> keccak_laws E \<and> get_block (nd_store nd) (hash_zero 32) = None \<and>
     (\<forall>t. head_block (nd_store nd) = Some t \<longrightarrow> hd_number (blk_header t) \<noteq> - 1) \<and>
     (\<exists>view. rocks_laws E view \<and>
        (view d = view (nd_db nd) \<or> view d = without_snapshots (view (nd_db nd))))"

definition chain_of :: "node_file_config \<Rightarrow> chain_persist" where
  "chain_of cfg = open_with (nc_archive cfg) (nc_archive_keep cfg)"

inductive node_reach ::
  "('d, 'z) disk_env_scheme \<Rightarrow> node_file_config \<Rightarrow> genesis_file \<Rightarrow> secret_key \<Rightarrow> 'd node \<Rightarrow> producer option \<Rightarrow> bool"
  for E cfg gen key where
  nr_start: "db_read E KEY_HEAD d = Inr None \<Longrightarrow> run_node E cfg gen key d = (Inr (nd, pd), d') \<Longrightarrow>
     node_reach E cfg gen key nd pd"
| nr_event: "node_reach E cfg gen key nd pd \<Longrightarrow> node_reach E cfg gen key (handle_event E (chain_of cfg) ev nd) pd"
| nr_submit: "node_reach E cfg gen key nd pd \<Longrightarrow> node_reach E cfg gen key (submit_local E tx nd) pd"
| nr_tick: "node_reach E cfg gen key nd (Some pd) \<Longrightarrow>
     node_reach E cfg gen key (producer_tick E (chain_of cfg) pd nd) (Some pd)"
| nr_restart: "node_reach E cfg gen key nd pd \<Longrightarrow> restart_image E cfg nd d \<Longrightarrow>
     run_node E cfg gen key d = (Inr (nd', pd'), d') \<Longrightarrow> node_reach E cfg gen key nd' pd'"

text \<open>What a successful start has read from the genesis file.\<close>

lemma run_node_Inr:
  assumes "run_node E cfg gen key d = (Inr (nd, pd), d')"
  obtains poa allocs g st live where "genesis_poa_config E gen = Inr poa" "parsed_alloc E (gf_alloc gen) = Inr allocs"
    "genesis_block E gen = Inr g" "start_chain E (chain_of cfg) poa g (alloc_state E allocs) d = (Inr (st, live), d')"
    "nd = \<lparr> nd_store = st, nd_live = live, nd_pool = pool_new, nd_orphans = [], nd_db = d', nd_commands = [], nd_events = [] \<rparr>"
proof -
  obtain config poa va allocs g where r: "genesis_poa_config E gen = Inr config" "poa_new config = Inr poa"
    "address_from_hex E (gv_address (gf_validator gen)) = Inr va" "parsed_alloc E (gf_alloc gen) = Inr allocs"
    "genesis_block E gen = Inr g"
    using assms unfolding run_node_def by (simp split: sum.splits)
  have "config = poa" using r(2) by (simp add: poa_new_def split: if_splits)
  then show thesis using assms r that [of poa allocs g]
    by (auto simp: run_node_def chain_of_def Let_def split: sum.splits prod.splits)
qed

lemma genesis_root:
  "genesis_block E gen = Inr g \<Longrightarrow> parsed_alloc E (gf_alloc gen) = Inr allocs \<Longrightarrow>
   hd_state_root (blk_header g) = fst (root_hash E (alloc_state E allocs))"
  by (auto simp: genesis_block_def alloc_state_root_def split: sum.splits)

lemma start_fresh:
  assumes fresh: "db_read E KEY_HEAD d = Inr None"
    and start: "start_chain E cp poa g s0 d = (Inr (st, live), d')"
    and s0: "state_inv E s0" "fst (root_hash E s0) = hd_state_root (blk_header g)"
  shows "chain_reach E archive poa g s0 st live pool_new"
proof -
  have load: "load_into E d (store_new poa) g = (Inr None, store_new poa)" using fresh by (simp add: load_into_def)
  obtain r st1 where ins: "insert_genesis E g (store_new poa) = (r, st1)" by fastforce
  obtain out where r: "r = Inr out" using start load ins by (cases r) (simp_all add: start_chain_def)
  have "st = record_state (block_hash E g) s0 st1 \<and> live = s0"
    using start load ins r by (auto simp: start_chain_def Let_def split: prod.splits sum.splits)
  then show ?thesis using cr_start [OF ins [unfolded r] s0] by simp
qed

lemma start_fresh_synced:
  assumes fresh: "db_read E KEY_HEAD d = Inr None"
    and start: "start_chain E cp poa g s0 d = (Inr (st, live), d')"
    and reach: "chain_reach E ar poa g s0 st live pool" and nd: "nd_store nd = st" "nd_db nd = d'"
  shows "synced E cp nd"
  unfolding synced_def nd
proof (intro allI impI)
  fix view tip t
  assume a: "rocks_laws E view" "cp_archive cp" "bs_head st = Some tip" "get_block st tip = Some t" "hd_number (blk_header t) \<noteq> - 1"
  have load: "load_into E d (store_new poa) g = (Inr None, store_new poa)" using fresh by (simp add: load_into_def)
  have "persist_canonical E cp st g d = (Inr (), d')"
    using start load by (auto simp: start_chain_def Let_def split: prod.splits sum.splits)
  moreover have "chain_inv E st live" using chain_reach_inv [OF reach] ..
  ultimately show "holds_archive E (view d') st tip"
    using persisted_archive [OF a(1,2) _ a(3-5), of live g d] by (auto simp: holds_archive_def)
qed

text \<open>A restarted node has the chain it had, from either kind of database.\<close>

lemma view_unique: "rocks_laws E view \<Longrightarrow> rocks_laws E view' \<Longrightarrow> view' = view"
  using db_read_view [of E view] db_read_view [of E view'] by (simp add: fun_eq_iff)

lemma reach_head:
  assumes "chain_reach E archive cfg g s0 st live pool"
  obtains tip t where "bs_head st = Some tip" "get_block st tip = Some t"
proof -
  have inv: "chain_inv E st live" using chain_reach_inv [OF assms] ..
  have "bs_by_hash st \<noteq> []" using genesis_kept [OF assms] by (auto simp: headers_def hm_simps)
  then obtain tip where tip: "bs_head st = Some tip" using inv by (auto simp: chain_inv_def store_inv_def split: option.splits)
  then have "hm_get (bs_snapshots st) tip = Some live" using inv by (simp add: chain_inv_def)
  then show thesis using that [OF tip] chain_snapshot(2) [OF inv] by blast
qed

lemma restart_restores:
  assumes keep: "keeps_chain E (chain_of cfg) poa g s0 nd" and image: "restart_image E cfg nd d"
  shows "\<exists>st. start_chain E (chain_of cfg) poa g s0 d = (Inr (st, nd_live nd), d) \<and>
    chain_reach E True poa g s0 st (nd_live nd) pool_new \<and> bs_head st = bs_head (nd_store nd) \<and>
    get_block_by_number st = get_block_by_number (nd_store nd) \<and>
    (\<forall>nd'. nd_store nd' = st \<longrightarrow> nd_db nd' = d \<longrightarrow> synced E (chain_of cfg) nd')"
proof -
  have arch: "cp_archive (chain_of cfg)" using image by (simp add: restart_image_def chain_of_def open_with_def)
  have reach: "chain_reach E True poa g s0 (nd_store nd) (nd_live nd) (nd_pool nd)" using keep arch by simp
  obtain tip t where tip: "bs_head (nd_store nd) = Some tip" "get_block (nd_store nd) tip = Some t"
    by (rule reach_head [OF reach])
  obtain view where view: "rocks_laws E view" "view d = view (nd_db nd) \<or> view d = without_snapshots (view (nd_db nd))"
    using image by (auto simp: restart_image_def)
  have im: "disk_codec_laws E" "keccak_laws E" "get_block (nd_store nd) (hash_zero 32) = None" "hd_number (blk_header t) \<noteq> - 1"
    using image tip by (auto simp: restart_image_def head_block_def)
  have ar: "archived E poa g s0 (nd_store nd) (nd_live nd) tip t" using reach tip im by (auto simp: archived_def)
  have "holds_archive E (view (nd_db nd)) (nd_store nd) tip"
    using keep view(1) arch tip im(4) by (simp add: synced_def)
  then have holds: "holds_archive E (view d) (nd_store nd) tip" using view(2) holds_without by auto
  from start_restores [OF view(1) im(1,2) ar holds, of "chain_of cfg"] obtain st where
    st: "start_chain E (chain_of cfg) poa g s0 d = (Inr (st, nd_live nd), d)" "bs_head st = Some tip"
      "chain_reach E True poa g s0 st (nd_live nd) pool_new" "get_block_by_number st = get_block_by_number (nd_store nd)"
      "chain_from st tip = chain_from (nd_store nd) tip"
    and same: "\<forall>h \<in> set (chain_from (nd_store nd) tip). get_block st h = get_block (nd_store nd) h \<and>
      hm_get (bs_snapshots st) h = hm_get (bs_snapshots (nd_store nd)) h" by blast
  have "synced E (chain_of cfg) nd'" if "nd_store nd' = st" "nd_db nd' = d" for nd'
    using holds holds_archive_same [OF st(5) same] st(2) view_unique [OF view(1)] that by (auto simp: synced_def)
  then show ?thesis using st tip(1) by (intro exI [of _ st]) simp
qed

lemma node_reach_keeps:
  assumes "node_reach E cfg gen key nd pd"
  shows "\<exists>poa allocs g. genesis_poa_config E gen = Inr poa \<and> parsed_alloc E (gf_alloc gen) = Inr allocs \<and>
    genesis_block E gen = Inr g \<and> orphans_keyed E (nd_orphans nd) \<and>
    keeps_chain E (chain_of cfg) poa g (alloc_state E allocs) nd"
  using assms
proof (induction rule: node_reach.induct)
  case (nr_start d nd pd d')
  from nr_start(2) show ?case
  proof (rule run_node_Inr)
    fix poa allocs g st live
    assume a: "genesis_poa_config E gen = Inr poa" "parsed_alloc E (gf_alloc gen) = Inr allocs" "genesis_block E gen = Inr g"
      "start_chain E (chain_of cfg) poa g (alloc_state E allocs) d = (Inr (st, live), d')"
      "nd = \<lparr> nd_store = st, nd_live = live, nd_pool = pool_new, nd_orphans = [], nd_db = d', nd_commands = [], nd_events = [] \<rparr>"
    note reach = start_fresh [OF nr_start(1) a(4) alloc_inv genesis_root [OF a(3,2), symmetric]]
    have "synced E (chain_of cfg) nd" by (rule start_fresh_synced [OF nr_start(1) a(4) reach]) (simp_all add: a(5))
    then show ?thesis using a(1,2,3,5) reach by (simp add: orphans_keyed_def hm_simps)
  qed
next
  case (nr_restart nd pd d nd' pd' d')
  obtain poa allocs g where a: "genesis_poa_config E gen = Inr poa" "parsed_alloc E (gf_alloc gen) = Inr allocs"
    "genesis_block E gen = Inr g" "keeps_chain E (chain_of cfg) poa g (alloc_state E allocs) nd"
    using nr_restart.IH by blast
  obtain st where st: "start_chain E (chain_of cfg) poa g (alloc_state E allocs) d = (Inr (st, nd_live nd), d)"
    "chain_reach E True poa g (alloc_state E allocs) st (nd_live nd) pool_new"
    "\<forall>nd'. nd_store nd' = st \<longrightarrow> nd_db nd' = d \<longrightarrow> synced E (chain_of cfg) nd'"
    using restart_restores [OF a(4) nr_restart.hyps(2)] by blast
  have arch: "cp_archive (chain_of cfg)" using nr_restart.hyps(2) by (simp add: restart_image_def chain_of_def open_with_def)
  have "nd' = \<lparr> nd_store = st, nd_live = nd_live nd, nd_pool = pool_new, nd_orphans = [], nd_db = d, nd_commands = [], nd_events = [] \<rparr>"
    by (rule run_node_Inr [OF nr_restart.hyps(3)]) (use a st(1) in simp)
  then show ?case using a(1-3) st(2,3) arch by (simp add: orphans_keyed_def hm_simps)
next
  case (nr_event nd pd ev)
  then show ?case using event_reach by meson
next
  case (nr_submit nd pd tx)
  then show ?case using submit_reach by meson
next
  case (nr_tick nd pd)
  then show ?case using tick_reach by meson
qed

lemma node_reach_chain:
  assumes "node_reach E cfg gen key nd pd"
  shows "\<exists>poa allocs g. genesis_poa_config E gen = Inr poa \<and> parsed_alloc E (gf_alloc gen) = Inr allocs \<and>
    genesis_block E gen = Inr g \<and> on_chain E (chain_of cfg) poa g (alloc_state E allocs) nd \<and>
    orphans_keyed E (nd_orphans nd)"
  using node_reach_keeps [OF assms] by blast

text \<open>The producer is fixed when the node starts.\<close>

lemma node_started:
  "node_reach E cfg gen key nd pd \<Longrightarrow> \<exists>d nd0 d'. run_node E cfg gen key d = (Inr (nd0, pd), d')"
  by (induction rule: node_reach.induct) blast+

lemma run_node_again:
  assumes "run_node E cfg gen key d = (Inr (nd, pd), d')"
    and "genesis_poa_config E gen = Inr poa" "parsed_alloc E (gf_alloc gen) = Inr allocs" "genesis_block E gen = Inr g"
    and "start_chain E (chain_of cfg) poa g (alloc_state E allocs) e = (Inr (st, live), e')"
  shows "run_node E cfg gen key e =
    (Inr (\<lparr> nd_store = st, nd_live = live, nd_pool = pool_new, nd_orphans = [], nd_db = e', nd_commands = [], nd_events = [] \<rparr>, pd), e')"
proof -
  obtain poa' va where r: "poa_new poa = Inr poa'" "address_from_hex E (gv_address (gf_validator gen)) = Inr va"
    using assms(1-4) unfolding run_node_def by (simp split: sum.splits)
  have "poa' = poa" using r(1) by (simp add: poa_new_def split: if_splits)
  then show ?thesis using assms r
    by (auto simp: run_node_def chain_of_def Let_def split: sum.splits prod.splits if_splits)
qed

section \<open>Ticks\<close>

lemma remove_gone: "hm_get (tp_pending p) h = None \<Longrightarrow> hm_get (tp_pending (snd (pool_remove k p))) h = None"
  "hm_get (tp_pending (snd (pool_remove h p))) h = None"
  by (auto simp: pool_remove_def Let_def hm_get_def hm_remove_def delete_conv' split: option.split)

lemma removed_all:
  assumes "tx \<in> set txs"
  shows "\<not> pool_contains (fold (\<lambda>tx p. snd (pool_remove (tx_hash E tx) p)) txs p) (tx_hash E tx)"
proof -
  have keep: "hm_get (tp_pending p) h = None \<Longrightarrow>
      hm_get (tp_pending (fold (\<lambda>tx p. snd (pool_remove (tx_hash E tx) p)) txs p)) h = None" for h txs p
    by (induction txs arbitrary: p) (auto simp: remove_gone)
  obtain us vs where "txs = us @ tx # vs" using assms by (meson split_list)
  then show ?thesis by (simp add: pool_contains_def keep remove_gone)
qed

text \<open>An import that moves the head leaves none of the new chain's transactions pending.\<close>

lemma import_clears:
  assumes inv: "chain_inv E st live" and imp: "import_and_apply E b st live pool = (Inr out, st', live', pool')"
    and ch: "io_head_changed out" and tx: "tx \<in> set (blk_transactions b)"
  shows "\<not> pool_contains pool' (tx_hash E tx)"
  using imp
proof (cases rule: import_cases)
  case (imported out' ps ctx trial st1)
  have out: "out' = out" using imported(1) by simp
  have sinv: "store_inv E st" using inv by (simp add: chain_inv_def)
  note ins = insert_block_Inr [OF sinv imported(5)]
  have st': "store_inv E st'" using imported(6) record_state_inv [OF insert_block_inv [OF sinv imported(5)]] by simp
  have head: "bs_head st' = Some (block_hash E b)" "io_new_head out = block_hash E b"
    using ins(7,8) ch out imported(6) by (simp_all add: record_state_def)
  have "get_block st' (block_hash E b) = Some b"
    by (simp add: imported(6) record_state_def get_block_def ins(3) hm_simps)
  then have "tx \<in> set (txs_on_path st' (io_new_head out))"
    using tip_on_chain [OF st' head(1)] tx head(2) by (auto simp: txs_on_path_def intro!: bexI [of _ "block_hash E b"])
  then show ?thesis using removed_all imported(7) ch out
    by (auto simp: apply_head_change_def Let_def)
qed simp

lemma node_producer:
  assumes "node_reach E cfg gen key nd pd'" "pd' = Some pd" "genesis_poa_config E gen = Inr poa"
  shows "pd = \<lparr> pd_gas_limit = gf_gas_limit gen, pd_consensus = poa, pd_miner = address_from_secret E key, pd_key = key \<rparr>"
    "address_from_hex E (gv_address (gf_validator gen)) = Inr (address_from_secret E key)"
proof -
  obtain d nd0 d' where run: "run_node E cfg gen key d = (Inr (nd0, Some pd), d')"
    using node_started [OF assms(1)] assms(2) by blast
  obtain poa' va allocs g where r: "poa_new poa = Inr poa'"
    "address_from_hex E (gv_address (gf_validator gen)) = Inr va" "parsed_alloc E (gf_alloc gen) = Inr allocs"
    "genesis_block E gen = Inr g"
    using run assms(3) unfolding run_node_def by (simp split: sum.splits)
  have "poa' = poa" using r(1) by (simp add: poa_new_def split: if_splits)
  then show "pd = \<lparr> pd_gas_limit = gf_gas_limit gen, pd_consensus = poa, pd_miner = address_from_secret E key, pd_key = key \<rparr>"
    "address_from_hex E (gv_address (gf_validator gen)) = Inr (address_from_secret E key)"
    using run assms(3) r by (auto simp: run_node_def Let_def split: sum.splits prod.splits if_splits)
qed

lemma genesis_validators:
  assumes "genesis_poa_config E gen = Inr poa" "address_from_hex E (gv_address (gf_validator gen)) = Inr a"
    "parse_public_key E (gv_public_key (gf_validator gen)) = Inr pk"
  shows "poa = poa_single \<lparr> va_address = a, va_public_key = pk \<rparr>"
  using assms by (simp add: genesis_poa_config_def)

lemma tick_imports:
  assumes "pending_count (nd_pool nd) \<noteq> 0" "head_block (nd_store nd) = Some parent"
    "state_at (nd_store nd) (block_hash E parent) = Some s"
    "produce_block E (pd_gas_limit pd) (tick_params pd parent (nd_pool nd)) gas_config_default s = (Inr b, s')"
    "import_and_apply E b (nd_store nd) (nd_live nd) (nd_pool nd) = (Inr out, st, live, pool)"
  shows "nd_store (producer_tick E cp pd nd) = prune_store E cp st"
    "nd_live (producer_tick E cp pd nd) = snd (trie_nodes E live)" "nd_pool (producer_tick E cp pd nd) = pool"
    "nd_commands (producer_tick E cp pd nd) = nd_commands nd @ [BroadcastBlock b]"
  using assms
  by (simp_all add: producer_tick_def persist_import_def send_events_def send_command_def case_prod_beta Let_def)

lemma prune_head: "bs_head (prune_store E cp st) = bs_head st"
  by (simp add: prune_store_def prune_snapshots_def prune_snapshots_keep_def drop_bodies_below_def Let_def split: option.split)

section \<open>A new chain starts\<close>

lemma init_starts:
  assumes laws: "hex_laws E" "keccak_laws E" "ed25519_laws E" "rocks_laws E view" "length (ed25519_public E key) = 32"
    and fresh: "view d KEY_HEAD = None"
  obtains gen nd d' where "init_genesis E key = Inr gen"
    "run_node E cfg gen key d = (Inr (nd, if may_produce (nc_role cfg)
       then Some \<lparr> pd_gas_limit = 30000000, pd_consensus = poa_config_from_secret E key,
                   pd_miner = address_from_secret E key, pd_key = key \<rparr> else None), d')"
    "genesis_poa_config E gen = Inr (poa_config_from_secret E key)" "gf_gas_limit gen = 30000000"
    "\<exists>g. head_block (nd_store nd) = Some g \<and> bs_by_hash (nd_store nd) = [(block_hash E g, g)] \<and>
       hd_number (blk_header g) = 0 \<and> blk_transactions g = [] \<and> hd_timestamp (blk_header g) = 1"
    "nd_live nd = alloc_state E [(address_from_secret E key, u256_from_u128 1000000000000000000)]"
    "nd_pool nd = pool_new" "nd_orphans nd = []" "nd_commands nd = []" "db_read E KEY_HEAD d = Inr None"
proof -
  let ?a = "address_from_secret E key" and ?poa = "poa_config_from_secret E key"
  let ?s0 = "alloc_state E [(?a, u256_from_u128 1000000000000000000)]"
  obtain header0 gen where gen: "init_genesis E key = Inr gen" by (rule init_genesis_Inr [of E key])
  obtain header where h: "poa_seal_header E ?poa (init_header E ?a) ?a key = Inr header"
    and poa: "genesis_poa_config E gen = Inr ?poa"
    and blk: "genesis_block E gen = Inr \<lparr> blk_header = header, blk_transactions = [], blk_receipts = [] \<rparr>"
    and alloc: "parsed_alloc E (gf_alloc gen) = Inr [(?a, u256_from_u128 1000000000000000000)]"
    and gas: "gf_gas_limit gen = 30000000" and addr: "address_from_hex E (gv_address (gf_validator gen)) = Inr ?a"
    by (rule init_genesis_block [OF laws(1,2,5) gen])
  let ?g = "\<lparr> blk_header = header, blk_transactions = [], blk_receipts = [] \<rparr>"
  have vals: "poa_validators ?poa = [\<lparr> va_address = ?a, va_public_key = ed25519_public E key \<rparr>]" "poa_required_signatures ?poa = 1"
    by (simp_all add: poa_config_from_secret_def poa_single_def validator_from_secret_def address_from_secret_def
        public_key_from_secret_def Let_def)
  note f = sealed_fields [OF h]
  have "poa_validate_header E ?poa header None = Inr ()"
    by (rule sealed_header_validates [OF laws(3) vals(2) h]) (simp_all add: vals)
  moreover have "block_validate E ?g = Inr ()"
    using f by (simp add: block_validate_def init_header_def empty_list_roots_def)
  ultimately have "insert_genesis E ?g (store_new ?poa) = insert_validated E ?g (store_new ?poa)"
    using f by (simp add: insert_genesis_def init_header_def store_new_def)
  then have "\<exists>out st1. insert_genesis E ?g (store_new ?poa) = (Inr out, st1)"
    by (simp add: insert_validated_def store_new_def hm_simps Let_def)
  then obtain out st1 where ins: "insert_genesis E ?g (store_new ?poa) = (Inr out, st1)" by blast
  note i = insert_genesis_Inr [OF ins]
  let ?st = "record_state (block_hash E ?g) ?s0 st1"
  have head: "head_block ?st = Some ?g" "bs_by_hash ?st = [(block_hash E ?g, ?g)]"
    by (simp_all add: head_block_def record_state_def i get_block_def hm_get_def)
  obtain d' where d': "persist_canonical E (chain_of cfg) ?st ?g d = (Inr (), d')"
    using performs_canonical [OF laws(4) head(1), of "chain_of cfg" ?g] unfolding performs_def by blast
  have read: "db_read E KEY_HEAD d = Inr None" by (simp add: db_read_view [OF laws(4)] fresh)
  then have "load_into E d (store_new ?poa) ?g = (Inr None, store_new ?poa)" by (simp add: load_into_def)
  then have start: "start_chain E (chain_of cfg) ?poa ?g ?s0 d = (Inr (?st, ?s0), d')"
    using ins d' by (simp add: start_chain_def Let_def)
  have "poa_new ?poa = Inr ?poa" "poa_is_validator ?poa ?a" using vals by (simp_all add: poa_new_def poa_is_validator_def)
  then have "run_node E cfg gen key d = (Inr (\<lparr> nd_store = ?st, nd_live = ?s0, nd_pool = pool_new, nd_orphans = [], nd_db = d',
      nd_commands = [], nd_events = [] \<rparr>, if may_produce (nc_role cfg)
       then Some \<lparr> pd_gas_limit = 30000000, pd_consensus = ?poa, pd_miner = ?a, pd_key = key \<rparr> else None), d')"
    using poa addr alloc blk start gas by (simp add: run_node_def chain_of_def Let_def)
  then show thesis
    by (rule that [OF gen _ poa gas]) (use head f read in \<open>auto simp: init_header_def\<close>)
qed

section \<open>A contract failure changes the root\<close>

lemma contract_failure_root:
  assumes laws: "node_laws E" and inv: "state_inv E s" and tot: "total_balance s < 2 ^ 256"
    and run: "execute_transaction E gc tx ctx s = (Inl (VmFailed msg), ctx', s')"
    and inj: "inj_on (keccak256 E) (trie_node_set E (collect_account_pairs E s) \<union> trie_node_set E (collect_account_pairs E s'))"
  shows "fst (root_hash E s) \<noteq> fst (root_hash E s')"
proof
  assume eq: "fst (root_hash E s) = fst (root_hash E s')"
  have inv': "state_inv E s'" by (rule execute_transaction_inv [OF run inv])
  have entry: "account_entry E (get_account s a) = account_entry E (get_account s' a)" for a
    using root_binding [OF laws inj, of a] eq inv inv'
    by (simp add: root_hash_inv account_pairs_lookup state_inv_def state_wf_def)
  from tot run obtain m acc s2 where p: "purchase gc tx ctx s m acc"
    and v: "apply_value E tx (set_account E (tx_from tx) acc s) = Inr s2"
    and c: "execute_call E (call_input_from_tx tx) s2 (gm_remaining m) = (Inl (VmFailed msg), s')"
    by (rule failed_transaction) auto
  have "nonce_of s' (tx_from tx) = tx_nonce tx + 1" using paid_balances(2) [OF p v c] by simp
  moreover have "nonce_of s (tx_from tx) = tx_nonce tx" using p by (simp add: purchase_def)
  ultimately have diff: "nonce_of s' (tx_from tx) \<noteq> nonce_of s (tx_from tx)" by simp
  have "nonce_of t a = (case account_entry E (get_account t a) of
      Some x \<Rightarrow> acc_nonce (the (unbin_account E x)) | None \<Rightarrow> 0)" for t a
    using laws by (auto simp: nonce_of_def account_entry_def node_laws_def account_is_empty_def split: option.split)
  then show False using diff entry [of "tx_from tx"] by simp
qed

lemma tick_stuck:
  assumes head: "head_block (nd_store nd) = Some parent" "state_at (nd_store nd) (block_hash E parent) = Some s"
    and prod: "produce_txs E gas_config_default (produce_order (tick_params pd parent (nd_pool nd)))
      (produce_context (tick_params pd parent (nd_pool nd))) s = ([], ctx, s')"
    and inv: "state_inv E s" and root: "fst (root_hash E s) \<noteq> fst (root_hash E s')"
  shows "producer_tick E cp pd nd = nd"
proof -
  let ?pp = "tick_params pd parent (nd_pool nd)"
  obtain r s2 where p: "produce_block E (pd_gas_limit pd) ?pp gas_config_default s = (r, s2)" by fastforce
  show ?thesis
  proof (cases r)
    case (Inl e)
    then show ?thesis using head p by (simp add: producer_tick_def)
  next
    case (Inr b)
    from p [unfolded Inr] inv obtain inc ctx2 where sh:
        "produce_txs E gas_config_default (produce_order ?pp) (produce_context ?pp) s = (inc, ctx2, s2)"
        "blk_transactions b = map fst inc" "hd_parent_hash (blk_header b) = block_hash E parent"
        "hd_state_root (blk_header b) = fst (root_hash E s2)"
      by (rule produced_shape) (simp add: tick_params_def)
    then have "blk_transactions b = []" "hd_state_root (blk_header b) = fst (root_hash E s')" using prod by simp_all
    then have "import_and_apply E b (nd_store nd) (nd_live nd) (nd_pool nd) =
        (Inl InvalidStateRoot, nd_store nd, nd_live nd, nd_pool nd)"
      using head(2) root sh(3) by (simp add: import_and_apply_def case_prod_beta Let_def)
    then show ?thesis using head p Inr by (simp add: producer_tick_def)
  qed
qed

lemma saturating_succ_le: "n \<le> saturating_add_w n (1 :: u64)"
  using unat_lt [of n] by (simp add: word_le_nat_alt saturating_add_w_val)

lemma producer_seals:
  assumes "poa_is_validator (pp_consensus pp) (pp_miner pp)" "address_from_secret E (pp_miner_key pp) = pp_miner pp"
  obtains b s' where "produce_block E gas_limit pp gc s = (Inr b, s')"
proof -
  have "\<exists>x. poa_seal_header E (pp_consensus pp) h (pp_miner pp) (pp_miner_key pp) = Inr x" for h
    using assms by (simp add: poa_seal_header_def encode_signatures_def Let_def)
  then have "\<exists>b s'. produce_block E gas_limit pp gc s = (Inr b, s')"
    by (simp add: produce_block_def Let_def split: prod.split sum.split) (metis sum.distinct(1))
  then show thesis using that by blast
qed

lemma head_live:
  assumes inv: "chain_inv E st live" and head: "head_block st = Some parent"
  shows "state_at st (block_hash E parent) = Some live" "state_inv E live"
proof -
  obtain tip where tip: "bs_head st = Some tip" "get_block st tip = Some parent"
    using head by (auto simp: head_block_def split: option.splits)
  have "block_hash E parent = tip" by (rule store_inv_hash [OF _ tip(2)]) (use inv in \<open>simp add: chain_inv_def\<close>)
  then show "state_at st (block_hash E parent) = Some live" using inv tip(1) by (simp add: chain_inv_def state_at_def)
  show "state_inv E live" using chain_snapshot(1) [OF inv] inv tip(1) by (auto simp: chain_inv_def)
qed

section \<open>A first transaction\<close>

lemma first_tx:
  assumes "recover_sender E tx = Inr a" "21000 \<le> tx_gas tx" "tx_nonce tx = 0"
  obtains p where "add_transaction E tx origin pool_new = (Inr (tx_hash E tx), p)" "\<And>n. 0 < n \<Longrightarrow> get_pending n p = [tx]"
    "pending_count p = 1"
proof -
  have "\<not> tx_gas tx < 21000" using assms(2) by simp
  then have "fst (add_transaction E tx origin pool_new) = Inr (tx_hash E tx)"
    "tp_pending (snd (add_transaction E tx origin pool_new)) =
      [(tx_hash E tx, \<lparr> pt_hash = tx_hash E tx, pt_tx = tx, pt_origin = origin, pt_added_at_ms = 0 \<rparr>)]"
    using assms(1,3)
    by (simp_all add: add_transaction_def add_transaction_at_def Let_def pool_new_def pool_with_config_def
        pool_config_default_def pool_contains_def sender_count_def expected_nonce_def hm_simps hm_insert_def)
  then show thesis
    by (intro that [of "snd (add_transaction E tx origin pool_new)"])
      (simp_all add: prod_eq_iff get_pending_def get_pending_entries_def pending_count_def take_Cons')
qed

lemma codeless_clean:
  assumes "total_balance s < 2 ^ 256" "tx_to tx = Some a" "get_code s a = []"
  shows "vm_clean E gc [tx] ctx s"
proof -
  obtain r ctx' s' where ex: "execute_transaction E gc tx ctx s = (r, ctx', s')" by (metis prod_cases3)
  have "e \<noteq> VmFailed msg" if "r = Inl e" for e msg
    using assms(1) ex [unfolded that]
  proof (cases rule: failed_transaction)
    case (contract msg' m acc s2)
    have "get_code s2 a = []"
      using contract(4) assms(2,3) by (auto simp: apply_value_def Let_def split: option.splits)
    then show ?thesis using contract(5) assms(2)
      by (simp add: execute_call_def call_input_from_tx_def call_kind_from_tx_def tx_is_create_def)
  qed simp
  then show ?thesis using ex by (simp split: sum.split)
qed

section \<open>A sample node\<close>

lemma ref_disk_hex_laws: "hex_laws ref_disk"
proof -
  have eq: "hex_encode ref_disk = hex_encode ref_prim" "hex_decode ref_disk = hex_decode ref_prim"
    by (simp_all add: ref_disk_defs ref_prim_def)
  show ?thesis unfolding hex_laws_def eq by (rule ref_prim_hex_laws [unfolded hex_laws_def])
qed

lemma ref_disk_number:
  assumes "block_hash ref_disk a = block_hash ref_disk b"
  shows "hd_number (blk_header a) = hd_number (blk_header b)"
proof -
  have len: "length (enc_word n) = 8" for n :: u64 by (simp add: enc_word_def)
  have "block_hash ref_disk c = take 32 (1 # enc_header (blk_header c) @ replicate 32 0)" for c
    by (simp add: block_hash_def header_hash_def keccak256_def ref_disk_defs)
  then have "take 8 (drop 1 (block_hash ref_disk c)) = enc_word (hd_number (blk_header c))" for c
    by (simp add: enc_header_def len take_Cons')
  then have "enc_word (hd_number (blk_header a)) = enc_word (hd_number (blk_header b))" using assms by metis
  then show ?thesis using codec_roundtrip [OF codec_u64] by (metis option.inject)
qed

lemma alloc_state_single:
  "total_balance (alloc_state E [(a, x)]) = uval x" "get_code (alloc_state E [(a, x)]) b = []"
  "balance_of (alloc_state E [(a, x)]) a = uval x"
  using total_set_account [of E a "account_new \<lparr> acc_balance := x \<rparr>" state_new]
  by (simp_all add: alloc_state_def ledger.bal_put)

lemma sample_node:
  obtains gen nd g where "init_genesis ref_disk sample_key = Inr gen" "gf_gas_limit gen = 30000000"
    "parse_public_key ref_disk (gv_public_key (gf_validator gen)) = Inr (ed25519_public ref_disk sample_key)"
    "node_reach ref_disk node_file_config_default gen sample_key nd
      (Some \<lparr> pd_gas_limit = 30000000, pd_consensus = poa_config_from_secret ref_disk sample_key,
              pd_miner = address_from_secret ref_disk sample_key, pd_key = sample_key \<rparr>)"
    "head_block (nd_store nd) = Some g" "bs_by_hash (nd_store nd) = [(block_hash ref_disk g, g)]"
    "hd_number (blk_header g) = 0"
    "nd_live nd = alloc_state ref_disk [(address_from_secret ref_disk sample_key, u256_from_u128 1000000000000000000)]"
    "nd_pool nd = pool_new" "nd_orphans nd = []"
proof -
  have len: "length (ed25519_public ref_disk sample_key) = 32" by (simp add: ref_disk_defs sample_key_def)
  have fresh: "id (Map.empty :: bytes \<rightharpoonup> bytes) KEY_HEAD = None" by simp
  have master: "may_produce (nc_role node_file_config_default)" by (simp add: node_file_config_default_def may_produce_def)
  obtain gen nd d' where gen: "init_genesis ref_disk sample_key = Inr gen"
    and run: "run_node ref_disk node_file_config_default gen sample_key Map.empty = (Inr (nd,
       if may_produce (nc_role node_file_config_default)
       then Some \<lparr> pd_gas_limit = 30000000, pd_consensus = poa_config_from_secret ref_disk sample_key,
                   pd_miner = address_from_secret ref_disk sample_key, pd_key = sample_key \<rparr> else None), d')"
    and poa: "genesis_poa_config ref_disk gen = Inr (poa_config_from_secret ref_disk sample_key)"
    and gas: "gf_gas_limit gen = 30000000"
    and g: "\<exists>g. head_block (nd_store nd) = Some g \<and> bs_by_hash (nd_store nd) = [(block_hash ref_disk g, g)] \<and>
       hd_number (blk_header g) = 0 \<and> blk_transactions g = [] \<and> hd_timestamp (blk_header g) = 1"
    and rest: "nd_live nd = alloc_state ref_disk [(address_from_secret ref_disk sample_key, u256_from_u128 1000000000000000000)]"
      "nd_pool nd = pool_new" "nd_orphans nd = []" and db: "db_read ref_disk KEY_HEAD Map.empty = Inr None"
    by (rule init_starts [where view = id and d = Map.empty and cfg = node_file_config_default,
        OF ref_disk_hex_laws ref_disk_laws(3) ref_disk_ed25519_laws ref_disk_laws(1) len fresh])
  note reach = nr_start [OF db run [unfolded if_P [OF master]]]
  have "parse_public_key ref_disk (gv_public_key (gf_validator gen)) = Inr (ed25519_public ref_disk sample_key)"
    using poa by (auto simp: genesis_poa_config_def poa_config_from_secret_def validator_from_secret_def
        public_key_from_secret_def poa_single_def Let_def split: sum.splits)
  with g show thesis using that [OF gen gas _ reach _ _ _ rest] by blast
qed

text \<open>A funded account, a contract that traps, and a digest without collisions.\<close>

definition plain_disk :: "(bytes \<rightharpoonup> bytes) disk_env" where
  "plain_disk = ref_disk \<lparr> sha3_keccak256 := \<lambda>bs. bs \<rparr>"

definition stall_sender :: address where
  "stall_sender = address_from_secret plain_disk sample_key"

definition stall_state :: state_db where
  "stall_state = set_code [4] [2]
     (set_account plain_disk stall_sender (account_new \<lparr> acc_balance := U256 1000000 0 0 0 \<rparr>) state_new)"

definition stall_tx :: transaction where
  "stall_tx = signed_tx plain_disk sample_key (Some [4]) 0 (U256 5 0 0 0) 30000 (U256 1 0 0 0) []"

lemma plain_disk_laws: "node_laws plain_disk" "ed25519_laws plain_disk" "inj_on (keccak256 plain_disk) X"
  using ref_state_node_laws ref_core_ed25519_laws
  by (simp_all add: plain_disk_def node_laws_def ed25519_laws_def ref_disk_defs keccak256_def inj_on_def)

lemma stall_fields:
  "tx_from stall_tx = stall_sender" "tx_to stall_tx = Some [4]" "tx_value stall_tx = U256 5 0 0 0" "tx_gas stall_tx = 30000"
  "tx_gas_price stall_tx = U256 1 0 0 0" "tx_nonce stall_tx = 0" "tx_data stall_tx = []"
  "recover_sender plain_disk stall_tx = Inr stall_sender"
  by (simp_all add: stall_tx_def stall_sender_def signed_tx_def sign_transaction_recovers plain_disk_laws)

lemma stall_contract: "stall_sender \<noteq> [4]" "wasmi_module plain_disk = wasmi_module ref_vm"
  by (simp_all add: stall_sender_def address_from_secret_def address_from_public_key_def address_from_h256_def h256_to_h160_def
      public_key_from_secret_def keccak256_def sample_key_def plain_disk_def ref_disk_def vm_env.defs numeral_eq_Suc)
    (simp_all add: ref_vm_def ref_state_def ref_core_def state_env.defs core_env.defs prim_env.defs numeral_eq_Suc)

lemma stall_run:
  assumes "ec_gas_used ctx = 0"
  shows "\<exists>ctx' s'. execute_transaction plain_disk gas_config_default stall_tx ctx stall_state =
    (Inl (VmFailed ''trap: unreachable''), ctx', s')"
  using assms
  by (simp add: stall_state_def gas_config_default_def stall_fields stall_contract exec_simps vm_run_simps uval_def)

section \<open>Properties\<close>

text \<open>
  C1: a node is a chain. Whatever a node started on an empty database receives, takes in
  and produces, in whatever order and with whatever restarts of an archiving node in between,
  its store, live state and pool are those of a reachable chain over its genesis block and
  allocation, with pruning as configured, and every waiting orphan is filed under its own hash.
  A restart on the node's database, or on that database without its snapshots, succeeds: the
  node has the same producer, head, blocks by height and live state, whether the state was read
  back or every block executed again, and leaves the database as it was. A restart is covered
  when the node archives, its database, encodings and digest obey their laws, no block has the
  zero hash and the height is below the largest.
\<close>

theorem node_runs_chain:
  assumes "node_reach E cfg gen key nd pd"
  shows "\<exists>poa allocs g. genesis_poa_config E gen = Inr poa \<and> parsed_alloc E (gf_alloc gen) = Inr allocs \<and>
    genesis_block E gen = Inr g \<and>
    chain_reach E (nc_archive cfg) poa g (alloc_state E allocs) (nd_store nd) (nd_live nd) (nd_pool nd) \<and>
    (\<forall>k c. hm_get (nd_orphans nd) k = Some c \<longrightarrow> block_hash E c = k) \<and>
    (\<forall>d. restart_image E cfg nd d \<longrightarrow>
      (\<exists>nd'. run_node E cfg gen key d = (Inr (nd', pd), d) \<and> nd_live nd' = nd_live nd \<and>
        bs_head (nd_store nd') = bs_head (nd_store nd) \<and>
        get_block_by_number (nd_store nd') = get_block_by_number (nd_store nd)))"
proof -
  obtain poa allocs g where a: "genesis_poa_config E gen = Inr poa" "parsed_alloc E (gf_alloc gen) = Inr allocs"
    "genesis_block E gen = Inr g" "orphans_keyed E (nd_orphans nd)" and keep: "keeps_chain E (chain_of cfg) poa g (alloc_state E allocs) nd"
    using node_reach_keeps [OF assms] by blast
  obtain d0 nd0 d1 where run: "run_node E cfg gen key d0 = (Inr (nd0, pd), d1)" using node_started [OF assms] by blast
  have "\<exists>nd'. run_node E cfg gen key d = (Inr (nd', pd), d) \<and> nd_live nd' = nd_live nd \<and>
      bs_head (nd_store nd') = bs_head (nd_store nd) \<and> get_block_by_number (nd_store nd') = get_block_by_number (nd_store nd)"
    if image: "restart_image E cfg nd d" for d
  proof -
    obtain st where st: "start_chain E (chain_of cfg) poa g (alloc_state E allocs) d = (Inr (st, nd_live nd), d)"
      "bs_head st = bs_head (nd_store nd)" "get_block_by_number st = get_block_by_number (nd_store nd)"
      using restart_restores [OF keep image] by blast
    from run_node_again [OF run a(1-3) st(1)] show ?thesis using st(2,3) by simp
  qed
  then show ?thesis using a keep
    by (intro exI [of _ poa] exI [of _ allocs] exI [of _ g]) (simp add: orphans_keyed_def chain_of_def open_with_def)
qed

theorem node_runs_chain_witness:
  "\<exists>gen nd nd1 nd2 pd poa g s0. node_reach ref_disk node_file_config_default gen sample_key nd pd \<and>
     genesis_block ref_disk gen = Inr g \<and>
     chain_reach ref_disk True poa g s0 (nd_store nd) (nd_live nd) (nd_pool nd) \<and>
     run_node ref_disk node_file_config_default gen sample_key (nd_db nd) = (Inr (nd1, pd), nd_db nd) \<and>
     nd_live nd1 = nd_live nd \<and>
     run_node ref_disk node_file_config_default gen sample_key (without_snapshots (nd_db nd)) =
       (Inr (nd2, pd), without_snapshots (nd_db nd)) \<and> nd_live nd2 = nd_live nd"
proof -
  obtain gen nd pd g where reach: "node_reach ref_disk node_file_config_default gen sample_key nd (Some pd)"
    and g: "head_block (nd_store nd) = Some g" "bs_by_hash (nd_store nd) = [(block_hash ref_disk g, g)]"
      "hd_number (blk_header g) = 0"
    by (rule sample_node)
  have arch: "nc_archive node_file_config_default" by (simp add: node_file_config_default_def)
  have "get_block (nd_store nd) (hash_zero 32) = None" by (simp add: get_block_def g(2) hm_get_def ref_disk_hash [symmetric])
  then have image: "restart_image ref_disk node_file_config_default nd d"
    if "d = nd_db nd \<or> d = without_snapshots (nd_db nd)" for d
    using that ref_disk_laws arch g(1,3) unfolding restart_image_def by (auto intro!: exI [of _ id])
  obtain poa allocs g' where n: "genesis_block ref_disk gen = Inr g'"
    "chain_reach ref_disk True poa g' (alloc_state ref_disk allocs) (nd_store nd) (nd_live nd) (nd_pool nd)"
    and again: "\<And>d. restart_image ref_disk node_file_config_default nd d \<Longrightarrow>
      \<exists>nd'. run_node ref_disk node_file_config_default gen sample_key d = (Inr (nd', Some pd), d) \<and> nd_live nd' = nd_live nd"
    using node_runs_chain [OF reach] arch by (metis (full_types))
  obtain nd1 nd2 where
    "run_node ref_disk node_file_config_default gen sample_key (nd_db nd) = (Inr (nd1, Some pd), nd_db nd)" "nd_live nd1 = nd_live nd"
    "run_node ref_disk node_file_config_default gen sample_key (without_snapshots (nd_db nd)) =
       (Inr (nd2, Some pd), without_snapshots (nd_db nd))" "nd_live nd2 = nd_live nd"
    using again [OF image, of "nd_db nd"] again [OF image, of "without_snapshots (nd_db nd)"] by auto
  then show ?thesis using reach n by metis
qed

text \<open>
  C15: importing a block ends. For every reachable node and every received block, two levels of
  recursion more than there are orphans are enough, any larger bound gives the same node, no
  stored block is lost, and the orphans left are former orphans or the block itself.
\<close>

theorem import_block_ends:
  assumes "node_reach E cfg gen key nd pd"
  shows "\<exists>nd'. (\<forall>n \<ge> Suc (Suc (length (nd_orphans nd))). import_block E (chain_of cfg) n b nd = Some nd') \<and>
    handle_event E (chain_of cfg) (BlockReceived b) nd = nd' \<and>
    (\<forall>h. get_block (nd_store nd) h \<noteq> None \<longrightarrow> get_block (nd_store nd') h \<noteq> None) \<and>
    (\<forall>k c. hm_get (nd_orphans nd') k = Some c \<longrightarrow> k = block_hash E b \<or> hm_get (nd_orphans nd) k \<noteq> None)"
proof -
  have keyed: "orphans_keyed E (nd_orphans nd)" using node_reach_chain [OF assms] by blast
  obtain nd' where nd': "import_block E (chain_of cfg) (import_fuel nd) b nd = Some nd'" "node_import E (chain_of cfg) b nd = nd'"
    "orphan_keys nd' \<subseteq> insert (block_hash E b) (orphan_keys nd)" "grows (nd_store nd) (nd_store nd')"
    by (rule node_import_keyed [OF keyed])
  have key: "k \<in> orphan_keys x \<longleftrightarrow> hm_get (nd_orphans x) k \<noteq> None" for k and x :: "'a node"
    by (simp add: orphan_keys_def hm_get_def map_of_eq_None_iff)
  have "k = block_hash E b \<or> hm_get (nd_orphans nd) k \<noteq> None" if "hm_get (nd_orphans nd') k = Some c" for k c
    using that nd'(3) key [of k nd] key [of k nd'] by auto
  then show ?thesis using nd' import_fuel_enough [OF nd'(1)] by (auto simp: import_fuel_def grows_def)
qed

theorem import_block_ends_witness:
  "\<exists>gen nd pd nd'. node_reach ref_disk node_file_config_default gen sample_key nd pd \<and>
     import_block ref_disk (chain_of node_file_config_default) 2 sample_block nd = Some nd' \<and>
     handle_event ref_disk (chain_of node_file_config_default) (BlockReceived sample_block) nd = nd'"
proof -
  obtain gen nd pd where reach: "node_reach ref_disk node_file_config_default gen sample_key nd (Some pd)"
    and none: "nd_orphans nd = []"
    by (rule sample_node)
  from import_block_ends [OF reach, of sample_block] obtain nd' where
      "import_block ref_disk (chain_of node_file_config_default) 2 sample_block nd = Some nd'"
      "handle_event ref_disk (chain_of node_file_config_default) (BlockReceived sample_block) nd = nd'"
    by (auto simp: none numeral_2_eq_2)
  then show ?thesis using reach by blast
qed

text \<open>
  C6: production makes progress. On a reachable producing node whose key is the genesis
  validator's, with something pending, a gas limit of at least the executor's cap, supply below
  \<open>2^256\<close> and no contract failure among the pending transactions, one tick moves the head to
  the sealed block on top of the old head, makes its state the live state, broadcasts it and
  clears its transactions from the pool.
\<close>

theorem tick_advances:
  assumes laws: "ed25519_laws E" and reach: "node_reach E cfg gen key nd (Some pd)"
    and key: "parse_public_key E (gv_public_key (gf_validator gen)) = Inr (ed25519_public E key)"
    and gas: "30000000 \<le> gf_gas_limit gen"
    and head: "head_block (nd_store nd) = Some parent" "hd_number (blk_header parent) \<noteq> - 1"
    and pend: "pending_count (nd_pool nd) \<noteq> 0" and tot: "total_balance (nd_live nd) < 2 ^ 256"
    and clean: "vm_clean E gas_config_default (produce_order (tick_params pd parent (nd_pool nd)))
      (produce_context (tick_params pd parent (nd_pool nd))) (nd_live nd)"
  shows "\<exists>b s'. produce_block E (pd_gas_limit pd) (tick_params pd parent (nd_pool nd)) gas_config_default (nd_live nd) = (Inr b, s') \<and>
    hd_parent_hash (blk_header b) = block_hash E parent \<and>
    unat (hd_number (blk_header b)) = unat (hd_number (blk_header parent)) + 1 \<and>
    (get_block (nd_store nd) (block_hash E b) = None \<longrightarrow>
      (let nd' = producer_tick E (chain_of cfg) pd nd in
       bs_head (nd_store nd') = Some (block_hash E b) \<and> nd_live nd' = s' \<and>
       nd_commands nd' = nd_commands nd @ [BroadcastBlock b] \<and>
       (\<forall>tx \<in> set (blk_transactions b). \<not> pool_contains (nd_pool nd') (tx_hash E tx))))"
proof -
  obtain poa allocs g where poa: "genesis_poa_config E gen = Inr poa"
    and chain: "on_chain E (chain_of cfg) poa g (alloc_state E allocs) nd"
    using node_reach_chain [OF reach] by blast
  note pd = node_producer [OF reach refl poa]
  note single = genesis_validators [OF poa pd(2) key]
  have inv: "chain_inv E (nd_store nd) (nd_live nd)" using chain_reach_inv [OF chain] ..
  have cons: "bs_consensus (nd_store nd) = poa" using genesis_kept [OF chain] ..
  let ?pp = "tick_params pd parent (nd_pool nd)"
  have "poa_is_validator (pp_consensus ?pp) (pp_miner ?pp)" "address_from_secret E (pp_miner_key ?pp) = pp_miner ?pp"
    using pd(1) single by (simp_all add: tick_params_def poa_single_def poa_is_validator_def)
  then obtain b s' where prod: "produce_block E (pd_gas_limit pd) ?pp gas_config_default (nd_live nd) = (Inr b, s')"
    by (rule producer_seals)
  note at = head_live [OF inv head(1)]
  from prod at(2) have shape: "hd_parent_hash (blk_header b) = block_hash E parent"
    "hd_number (blk_header b) = saturating_add_w (hd_number (blk_header parent)) 1" "state_inv E s'"
    by (rule produced_shape, simp add: tick_params_def)+
  have "bs_head (nd_store (producer_tick E (chain_of cfg) pd nd)) = Some (block_hash E b) \<and>
      nd_live (producer_tick E (chain_of cfg) pd nd) = s' \<and>
      nd_commands (producer_tick E (chain_of cfg) pd nd) = nd_commands nd @ [BroadcastBlock b] \<and>
      (\<forall>tx \<in> set (blk_transactions b). \<not> pool_contains (nd_pool (producer_tick E (chain_of cfg) pd nd)) (tx_hash E tx))"
    if fresh: "get_block (nd_store nd) (block_hash E b) = None"
  proof -
    obtain out st' pool' where imp: "import_and_apply E b (nd_store nd) (nd_live nd) (nd_pool nd) = (Inr out, st', s', pool')"
      and h: "bs_head st' = Some (block_hash E b)" and ch: "io_head_changed out"
    proof (rule produced_imports [OF laws inv _ _ _ _ _ _ _ tot clean prod fresh])
      show "hd_timestamp (blk_header (pp_parent ?pp)) \<le> pp_timestamp ?pp" by (simp add: tick_params_def saturating_succ_le)
    qed (use head cons single pd(1) gas in \<open>simp_all add: tick_params_def poa_single_def gas_config_default_def\<close>)
    show ?thesis
      using tick_imports [OF pend head(1) at(1) prod imp, of "chain_of cfg"] h import_clears [OF inv imp ch]
        trie_nodes_inv [OF shape(3)] by (simp add: prune_head)
  qed
  then show ?thesis
    using prod shape sat_succ [OF head(2)] by (intro exI [of _ b] exI [of _ s']) (auto simp: Let_def)
qed

theorem tick_advances_witness:
  "\<exists>gen nd pd b. init_genesis ref_disk sample_key = Inr gen \<and>
     node_reach ref_disk node_file_config_default gen sample_key nd (Some pd) \<and>
     bs_head (nd_store (producer_tick ref_disk (chain_of node_file_config_default) pd nd)) = Some (block_hash ref_disk b) \<and>
     hd_number (blk_header b) = 1"
proof -
  let ?E = ref_disk and ?cfg = node_file_config_default
  let ?tx = "signed_transfer ?E sample_key [2] 0 U256_ONE 21000"
  obtain gen nd g where gen: "init_genesis ?E sample_key = Inr gen" "gf_gas_limit gen = 30000000"
    "parse_public_key ?E (gv_public_key (gf_validator gen)) = Inr (ed25519_public ?E sample_key)"
    and reach: "node_reach ?E ?cfg gen sample_key nd
      (Some \<lparr> pd_gas_limit = 30000000, pd_consensus = poa_config_from_secret ?E sample_key,
              pd_miner = address_from_secret ?E sample_key, pd_key = sample_key \<rparr>)" (is "node_reach _ _ _ _ _ (Some ?pd)")
    and g: "head_block (nd_store nd) = Some g" "bs_by_hash (nd_store nd) = [(block_hash ?E g, g)]"
    "hd_number (blk_header g) = 0"
    and live: "nd_live nd = alloc_state ?E [(address_from_secret ?E sample_key, u256_from_u128 1000000000000000000)]"
    and pool: "nd_pool nd = pool_new"
    by (rule sample_node)
  have tx: "recover_sender ?E ?tx = Inr (address_from_secret ?E sample_key)" "tx_gas ?tx = 21000" "tx_nonce ?tx = 0"
    "tx_to ?tx = Some [2]"
    by (simp_all add: signed_transfer_def signed_tx_def sign_transaction_recovers ref_disk_ed25519_laws)
  obtain p where p: "add_transaction ?E ?tx Remote pool_new = (Inr (tx_hash ?E ?tx), p)"
    "\<And>n. 0 < n \<Longrightarrow> get_pending n p = [?tx]" "pending_count p = 1"
    using first_tx [OF tx(1) eq_refl [OF tx(2) [symmetric]] tx(3), of Remote] by blast
  define nd1 where "nd1 = handle_event ?E (chain_of ?cfg) (TxReceived ?tx) nd"
  have nd1: "nd_store nd1 = nd_store nd" "nd_live nd1 = nd_live nd" "nd_pool nd1 = p"
    using p(1) pool by (simp_all add: nd1_def send_events_def)
  have reach1: "node_reach ?E ?cfg gen sample_key nd1 (Some ?pd)" unfolding nd1_def by (rule nr_event [OF reach])
  have tot: "total_balance (nd_live nd1) < 2 ^ 256" unfolding nd1 live alloc_state_single by (rule uval_lt)
  have order: "produce_order (tick_params ?pd g (nd_pool nd1)) = [?tx]" by (simp add: p(2) produce_order_def tick_params_def nd1)
  have codeless: "get_code (nd_live nd1) [2] = []" by (simp add: nd1 live alloc_state_single)
  have "vm_clean ?E gas_config_default (produce_order (tick_params ?pd g (nd_pool nd1)))
      (produce_context (tick_params ?pd g (nd_pool nd1))) (nd_live nd1)"
    unfolding order by (rule codeless_clean [OF tot tx(4) codeless])
  note adv = tick_advances [OF ref_disk_ed25519_laws reach1 gen(3) _ _ _ _ tot this]
  obtain b where num: "unat (hd_number (blk_header b)) = 1"
    and head: "get_block (nd_store nd) (block_hash ?E b) = None \<longrightarrow>
        bs_head (nd_store (producer_tick ?E (chain_of ?cfg) ?pd nd1)) = Some (block_hash ?E b)"
    using adv gen(2) g p(3) by (auto simp: nd1 Let_def)
  have "hd_number (blk_header b) = 1" using num by (simp add: word_unat_eq_iff)
  moreover from this have "block_hash ?E b \<noteq> block_hash ?E g" using ref_disk_number [of b g] g(3) by auto
  then have "get_block (nd_store nd) (block_hash ?E b) = None" by (simp add: get_block_def g(2) hm_get_def)
  ultimately show ?thesis
    by (intro exI [of _ gen] exI [of _ nd1] exI [of _ ?pd] exI [of _ b] conjI gen(1) reach1 head [rule_format])
qed

text \<open>
  C17: a failing contract call halts production. When the only pending transaction calls a
  contract that fails, and the two states have no colliding trie nodes, the producer's own
  block is refused, because the failed call has charged its sender in the state behind the
  sealed root while the block does not list it. The transaction stays pending, so every later
  tick leaves the node exactly as it is.
\<close>

theorem failing_call_stalls:
  assumes laws: "node_laws E" and chain: "chain_reach E archive poa g s0 (nd_store nd) (nd_live nd) (nd_pool nd)"
    and head: "head_block (nd_store nd) = Some parent"
    and pend: "get_pending 128 (nd_pool nd) = [tx]" and tot: "total_balance (nd_live nd) < 2 ^ 256"
    and run: "execute_transaction E gas_config_default tx (produce_context (tick_params pd parent (nd_pool nd))) (nd_live nd)
      = (Inl (VmFailed msg), ctx', s')"
    and inj: "inj_on (keccak256 E) (trie_node_set E (collect_account_pairs E (nd_live nd)) \<union> trie_node_set E (collect_account_pairs E s'))"
  shows "(producer_tick E cp pd ^^ n) nd = nd"
proof -
  note live = head_live [OF chain_reach_inv [OF chain, THEN conjunct1] head]
  have "produce_order (tick_params pd parent (nd_pool nd)) = [tx]" by (simp add: produce_order_def tick_params_def pend)
  then have "produce_txs E gas_config_default (produce_order (tick_params pd parent (nd_pool nd)))
      (produce_context (tick_params pd parent (nd_pool nd))) (nd_live nd) = ([], ctx', s')"
    using run by simp
  then have "producer_tick E cp pd nd = nd"
    by (rule tick_stuck [OF head live(1) _ live(2) contract_failure_root [OF laws live(2) tot run inj]])
  then show ?thesis by (induction n) simp_all
qed

theorem failing_call_stalls_witness:
  "\<exists>nd pd. pending_count (nd_pool nd) = 1 \<and> nd_live nd = stall_state \<and>
     (\<forall>n. (producer_tick plain_disk (open_with True 0) pd ^^ n) nd = nd)"
proof -
  let ?E = plain_disk and ?g = "demo_genesis plain_disk stall_state"
  have inv: "state_inv ?E stall_state"
    by (simp add: stall_state_def state_inv_set_code state_inv_set_account empty_state_inv)
  note demo = demo_start [OF plain_disk_laws(2) inv]
  obtain p where p: "add_transaction ?E stall_tx Remote pool_new = (Inr (tx_hash ?E stall_tx), p)"
    "\<And>n. 0 < n \<Longrightarrow> get_pending n p = [stall_tx]" "pending_count p = 1"
    using first_tx [OF stall_fields(8), of Remote] by (auto simp: stall_fields)
  define nd :: "(bytes \<rightharpoonup> bytes) node" where
    "nd = \<lparr> nd_store = demo_store ?E stall_state, nd_live = stall_state, nd_pool = p, nd_orphans = [], nd_db = Map.empty,
      nd_commands = [], nd_events = [] \<rparr>"
  define pd where "pd = \<lparr> pd_gas_limit = 30000000, pd_consensus = demo_poa ?E, pd_miner = stall_sender, pd_key = sample_key \<rparr>"
  have head: "head_block (nd_store nd) = Some ?g"
    by (simp add: nd_def head_block_def demo(2) get_block_def demo(3) hm_get_def)
  have chain: "chain_reach ?E True (demo_poa ?E) ?g stall_state (nd_store nd) (nd_live nd) (nd_pool nd)"
    using cr_pool [OF demo(1) pool_op_add [of _ _ stall_tx Remote]] p(1) by (simp add: nd_def)
  have tot: "total_balance (nd_live nd) < 2 ^ 256"
    using total_set_account [of ?E stall_sender "account_new \<lparr> acc_balance := U256 1000000 0 0 0 \<rparr>" state_new]
    by (simp add: nd_def stall_state_def account_new_def uval_def)
  obtain ctx' s' where run: "execute_transaction ?E gas_config_default stall_tx (produce_context (tick_params pd ?g (nd_pool nd))) (nd_live nd) =
      (Inl (VmFailed ''trap: unreachable''), ctx', s')"
    using stall_run [of "produce_context (tick_params pd ?g (nd_pool nd))"]
    by (auto simp: nd_def produce_context_def execution_context_new_def)
  have "(producer_tick ?E (open_with True 0) pd ^^ n) nd = nd" for n
    by (rule failing_call_stalls [OF plain_disk_laws(1) chain head _ tot run plain_disk_laws(3)]) (simp add: nd_def p(2))
  then show ?thesis using p(3) by (intro exI [of _ nd] exI [of _ pd]) (simp add: nd_def)
qed

text \<open>
  C31: what \<open>init\<close> writes, \<open>run\<close> starts. The genesis written for a new key loads on an empty
  database, whatever the other settings: the head is a block of height zero, the key's account
  holds the whole supply of \<open>10^18\<close>, nothing is pending, and a producer with that key runs
  exactly in the producing role.
\<close>

theorem init_runs:
  assumes "hex_laws E" "keccak_laws E" "ed25519_laws E" "rocks_laws E view" "length (ed25519_public E key) = 32"
    and "view d KEY_HEAD = None"
  shows "\<exists>gen nd pd d' g. init_genesis E key = Inr gen \<and> run_node E cfg gen key d = (Inr (nd, pd), d') \<and>
    head_block (nd_store nd) = Some g \<and> hd_number (blk_header g) = 0 \<and>
    balance_of (nd_live nd) (address_from_secret E key) = 10 ^ 18 \<and> total_balance (nd_live nd) = 10 ^ 18 \<and>
    pending_count (nd_pool nd) = 0 \<and> map_option pd_key pd = (if may_produce (nc_role cfg) then Some key else None)"
proof -
  let ?pd = "if may_produce (nc_role cfg) then Some \<lparr> pd_gas_limit = 30000000, pd_consensus = poa_config_from_secret E key,
      pd_miner = address_from_secret E key, pd_key = key \<rparr> else None"
  obtain gen nd d' where i: "init_genesis E key = Inr gen" "run_node E cfg gen key d = (Inr (nd, ?pd), d')"
    and g: "\<exists>g. head_block (nd_store nd) = Some g \<and> bs_by_hash (nd_store nd) = [(block_hash E g, g)] \<and>
       hd_number (blk_header g) = 0 \<and> blk_transactions g = [] \<and> hd_timestamp (blk_header g) = 1"
    and s: "nd_live nd = alloc_state E [(address_from_secret E key, u256_from_u128 1000000000000000000)]" "nd_pool nd = pool_new"
    by (rule init_starts [OF assms, of cfg])
  have "unat (1000000000000000000 :: 128 word) = 10 ^ 18" by simp
  then have "balance_of (nd_live nd) (address_from_secret E key) = 10 ^ 18" "total_balance (nd_live nd) = 10 ^ 18"
    by (simp_all only: s alloc_state_single uval_from_u128)
  moreover have "pending_count (nd_pool nd) = 0" "map_option pd_key ?pd = (if may_produce (nc_role cfg) then Some key else None)"
    by (simp_all add: s pending_count_def pool_new_def pool_with_config_def)
  ultimately show ?thesis using i g by blast
qed

theorem init_runs_witness:
  "\<exists>gen nd pd d'. init_genesis ref_disk sample_key = Inr gen \<and>
     run_node ref_disk node_file_config_default gen sample_key Map.empty = (Inr (nd, pd), d') \<and>
     total_balance (nd_live nd) = 10 ^ 18 \<and> map_option pd_key pd = Some sample_key"
proof -
  have len: "length (ed25519_public ref_disk sample_key) = 32" by (simp add: ref_disk_defs sample_key_def)
  have fresh: "id (Map.empty :: bytes \<rightharpoonup> bytes) KEY_HEAD = None" by simp
  have master: "may_produce (nc_role node_file_config_default)" by (simp add: node_file_config_default_def may_produce_def)
  from init_runs [where view = id and d = Map.empty and cfg = node_file_config_default,
      OF ref_disk_hex_laws ref_disk_laws(3) ref_disk_ed25519_laws ref_disk_laws(1) len fresh] master
  show ?thesis by auto
qed

end
