(* ===== verification/Rpc.thy ===== *)
theory Rpc
  imports Node
begin

text \<open>
  The JSON-RPC interface, \<open>crates/ivory-rpc/src\<close>: JSON values and parameter parsing, the errors
  and their codes, the handler's methods against the shared store, pool and state
  (\<open>handler.rs\<close>, \<open>context.rs\<close>, \<open>types.rs\<close>, \<open>error.rs\<close>, \<open>jsonrpc.rs\<close>), the HTTP entry point and
  its token check (\<open>server.rs\<close>), and the WebSocket subscriptions (\<open>websocket.rs\<close>).
\<close>

section \<open>JSON values\<close>

text \<open>
  \<open>serde_json::Value\<close>; a float is its 64 bits, an object is its list of members.
\<close>

datatype json_number = PosInt u64 | NegInt int | Float u64

datatype json =
    JNull
  | JBool bool
  | JNumber json_number
  | JString string
  | JArray "json list"
  | JObject "(string \<times> json) list"

definition as_str :: "json \<Rightarrow> string option" where
  "as_str v = (case v of JString s \<Rightarrow> Some s | _ \<Rightarrow> None)"

definition as_array :: "json \<Rightarrow> json list option" where
  "as_array v = (case v of JArray xs \<Rightarrow> Some xs | _ \<Rightarrow> None)"

definition as_object :: "json \<Rightarrow> (string \<times> json) list option" where
  "as_object v = (case v of JObject ms \<Rightarrow> Some ms | _ \<Rightarrow> None)"

definition as_u64 :: "json \<Rightarrow> u64 option" where
  "as_u64 v = (case v of JNumber (PosInt n) \<Rightarrow> Some n | _ \<Rightarrow> None)"

definition json_get :: "string \<Rightarrow> json \<Rightarrow> json option" where
  "json_get key v = Option.bind (as_object v) (\<lambda>ms. map_of ms key)"

definition json_opt :: "string option \<Rightarrow> json" where
  "json_opt s = (case s of None \<Rightarrow> JNull | Some t \<Rightarrow> JString t)"

definition json_nat :: "nat \<Rightarrow> json" where
  "json_nat n = JNumber (PosInt (of_nat n))"

definition nth_opt :: "'a list \<Rightarrow> nat \<Rightarrow> 'a option" where
  "nth_opt xs i = (if i < length xs then Some (xs ! i) else None)"

text \<open>Numerals as the standard library formats and parses them.\<close>

fun hex_string :: "nat \<Rightarrow> string" where
  "hex_string n = (if n < 16 then [hex_digit n] else hex_string (n div 16) @ [hex_digit (n mod 16)])"

declare hex_string.simps [simp del]

fun dec_string :: "nat \<Rightarrow> string" where
  "dec_string n = (if n < 10 then [char_of (n + 48)] else dec_string (n div 10) @ [char_of (n mod 10 + 48)])"

declare dec_string.simps [simp del]

fun hex_digits_value :: "nat \<Rightarrow> string \<Rightarrow> nat option" where
  "hex_digits_value acc [] = Some acc"
| "hex_digits_value acc (c # cs) =
     (case hex_value c of None \<Rightarrow> None | Some d \<Rightarrow> hex_digits_value (16 * acc + d) cs)"

definition u64_from_hex_digits :: "string \<Rightarrow> u64 option" where
  "u64_from_hex_digits s =
     (let t = (case s of c # r \<Rightarrow> if c = CHR ''+'' \<and> r \<noteq> [] then r else s | [] \<Rightarrow> s)
      in if t = [] then None
         else case hex_digits_value 0 t of
                None \<Rightarrow> None
              | Some v \<Rightarrow> if v < 2 ^ 64 then Some (of_nat v) else None)"

text \<open>The question mark operator on results, and a result from an option.\<close>

definition try_then :: "'e + 'a \<Rightarrow> ('a \<Rightarrow> 'e + 'b) \<Rightarrow> 'e + 'b" where
  "try_then r f = (case r of Inl e \<Rightarrow> Inl e | Inr x \<Rightarrow> f x)"

definition ok_or :: "'a option \<Rightarrow> 'e \<Rightarrow> 'e + 'a" where
  "ok_or x e = (case x of None \<Rightarrow> Inl e | Some y \<Rightarrow> Inr y)"

primrec collect_results :: "('e + 'a) list \<Rightarrow> 'e + 'a list" where
  "collect_results [] = Inr []"
| "collect_results (r # rs) = try_then r (\<lambda>x. map_sum id (\<lambda>xs. x # xs) (collect_results rs))"

section \<open>Errors\<close>

datatype rpc_error =
    MethodNotFound string
  | InvalidParams string
  | Internal string
  | Server string
  | TransactionNotFound
  | BlockNotFound
  | AccountNotFound

record json_rpc_error =
  je_code :: int
  je_message :: string
  je_data :: "json option"

definition parse_error :: json_rpc_error where
  "parse_error = \<lparr> je_code = -32700, je_message = ''Parse error'', je_data = None \<rparr>"

definition invalid_request :: json_rpc_error where
  "invalid_request = \<lparr> je_code = -32600, je_message = ''Invalid Request'', je_data = None \<rparr>"

definition method_not_found :: "string \<Rightarrow> json_rpc_error" where
  "method_not_found m = \<lparr> je_code = -32601, je_message = ''Method not found: '' @ m, je_data = None \<rparr>"

definition invalid_params :: "string \<Rightarrow> json_rpc_error" where
  "invalid_params m = \<lparr> je_code = -32602, je_message = ''Invalid params: '' @ m, je_data = None \<rparr>"

definition internal_error :: "string \<Rightarrow> json_rpc_error" where
  "internal_error m = \<lparr> je_code = -32603, je_message = ''Internal error: '' @ m, je_data = None \<rparr>"

definition custom_error :: "int \<Rightarrow> string \<Rightarrow> json_rpc_error" where
  "custom_error code m = \<lparr> je_code = code, je_message = m, je_data = None \<rparr>"

fun json_rpc_error_from :: "rpc_error \<Rightarrow> json_rpc_error" where
  "json_rpc_error_from (MethodNotFound m) = method_not_found m"
| "json_rpc_error_from (InvalidParams m) = invalid_params m"
| "json_rpc_error_from (Internal m) = internal_error m"
| "json_rpc_error_from (Server m) = internal_error m"
| "json_rpc_error_from TransactionNotFound = custom_error (-32000) ''Transaction not found''"
| "json_rpc_error_from BlockNotFound = custom_error (-32001) ''Block not found''"
| "json_rpc_error_from AccountNotFound = custom_error (-32002) ''Account not found''"

text \<open>The \<open>Display\<close> texts of the errors below the interface.\<close>

fun primitive_error_display :: "primitive_error \<Rightarrow> string" where
  "primitive_error_display primitive_error.Overflow = ''Integer overflow''"
| "primitive_error_display InvalidHex = ''Invalid hex string''"
| "primitive_error_display (InvalidLength expected got) =
     ''Invalid length: expected '' @ dec_string expected @ '', got '' @ dec_string got"

fun txpool_error_display :: "txpool_error \<Rightarrow> string" where
  "txpool_error_display (NonceTooLow expected got) =
     ''nonce too low: expected '' @ dec_string (unat expected) @ '', got '' @ dec_string (unat got)"
| "txpool_error_display (NonceGap expected got) =
     ''nonce gap: expected '' @ dec_string (unat expected) @ '', got '' @ dec_string (unat got)"
| "txpool_error_display AlreadyKnown = ''transaction already known''"
| "txpool_error_display (GasLimitTooLow least got) =
     ''gas limit '' @ dec_string (unat got) @ '' below minimum '' @ dec_string (unat least)"
| "txpool_error_display PoolFull = ''pool is full''"
| "txpool_error_display SenderLimitReached = ''sender pending limit reached''"
| "txpool_error_display PoolInvalidSignature = ''invalid transaction signature''"

fun execution_error_display :: "execution_error \<Rightarrow> string" where
  "execution_error_display (NonceMismatch expected got) =
     ''nonce mismatch: expected '' @ dec_string (unat expected) @ '', got '' @ dec_string (unat got)"
| "execution_error_display InsufficientBalance = ''insufficient balance''"
| "execution_error_display OutOfGas = ''out of gas''"
| "execution_error_display execution_error.Overflow = ''integer overflow''"
| "execution_error_display BlockGasLimitExceeded = ''block gas limit exceeded''"
| "execution_error_display (VmFailed m) = ''vm: '' @ m"

fun proof_error_display :: "proof_error \<Rightarrow> string" where
  "proof_error_display InvalidNode = ''invalid trie node encoding''"
| "proof_error_display HashMismatch = ''trie proof hash mismatch''"
| "proof_error_display Incomplete = ''incomplete trie proof''"

section \<open>The context\<close>

datatype node_role = Producer | Follower

definition node_role_as_str :: "node_role \<Rightarrow> string" where
  "node_role_as_str r = (case r of Producer \<Rightarrow> ''producer'' | Follower \<Rightarrow> ''follower'')"

record contract_meta =
  cm_name :: string
  cm_schema :: string
  cm_source :: string
  cm_description :: string

record ivory_metrics =
  im_rpc_requests :: "(string, u64) hmap"
  im_rpc_errors :: "(string \<times> int, u64) hmap"

definition bump :: "'k \<Rightarrow> ('k, u64) hmap \<Rightarrow> ('k, u64) hmap" where
  "bump k m = hm_insert k ((case hm_get m k of None \<Rightarrow> 0 | Some n \<Rightarrow> n) + 1) m"

definition rpc_request :: "string \<Rightarrow> ivory_metrics \<Rightarrow> ivory_metrics" where
  "rpc_request method m = m \<lparr> im_rpc_requests := bump method (im_rpc_requests m) \<rparr>"

definition rpc_error_count :: "string \<Rightarrow> int \<Rightarrow> ivory_metrics \<Rightarrow> ivory_metrics" where
  "rpc_error_count method code m = m \<lparr> im_rpc_errors := bump (method, code) (im_rpc_errors m) \<rparr>"

text \<open>
  \<open>rx_on_tx\<close> is the gossip callback: \<open>None\<close> when none is attached, otherwise the transactions
  handed to it so far; \<open>rx_events\<close> are the events sent to subscribers so far.
\<close>

record rpc_context =
  rx_store :: block_store
  rx_pool :: transaction_pool
  rx_state :: state_db
  rx_chain_id :: u64
  rx_on_tx :: "transaction list option"
  rx_role :: node_role
  rx_address :: address
  rx_peer_id :: string
  rx_peers :: nat
  rx_bootstrap :: "string list"
  rx_contract_lookup :: "(h256 \<Rightarrow> contract_meta option) option"
  rx_events :: "rpc_event list"
  rx_metrics :: ivory_metrics
  rx_allow_methods :: "string list option"

definition rpc_context_new :: "block_store \<Rightarrow> transaction_pool \<Rightarrow> state_db \<Rightarrow> u64 \<Rightarrow> rpc_context" where
  "rpc_context_new store pool state chain_id =
     \<lparr> rx_store = store, rx_pool = pool, rx_state = state, rx_chain_id = chain_id, rx_on_tx = None,
       rx_role = Follower, rx_address = address_zero, rx_peer_id = [], rx_peers = 0, rx_bootstrap = [],
       rx_contract_lookup = None, rx_events = [],
       rx_metrics = \<lparr> im_rpc_requests = [], im_rpc_errors = [] \<rparr>, rx_allow_methods = None \<rparr>"

definition with_allow_methods :: "string list \<Rightarrow> rpc_context \<Rightarrow> rpc_context" where
  "with_allow_methods methods ctx = ctx \<lparr> rx_allow_methods := Some methods \<rparr>"

definition emit :: "rpc_event \<Rightarrow> rpc_context \<Rightarrow> rpc_context" where
  "emit e ctx = ctx \<lparr> rx_events := rx_events ctx @ [e] \<rparr>"

definition with_gossip :: "rpc_context \<Rightarrow> rpc_context" where
  "with_gossip ctx = ctx \<lparr> rx_on_tx := Some [] \<rparr>"

definition with_node_info ::
  "node_role \<Rightarrow> address \<Rightarrow> string \<Rightarrow> nat \<Rightarrow> string list \<Rightarrow> rpc_context \<Rightarrow> rpc_context" where
  "with_node_info role addr peer_id peers bootstrap ctx =
     ctx \<lparr> rx_role := role, rx_address := addr, rx_peer_id := peer_id, rx_peers := peers, rx_bootstrap := bootstrap \<rparr>"

definition with_contract_lookup :: "(h256 \<Rightarrow> contract_meta option) \<Rightarrow> rpc_context \<Rightarrow> rpc_context" where
  "with_contract_lookup f ctx = ctx \<lparr> rx_contract_lookup := Some f \<rparr>"

section \<open>Parameters\<close>

datatype block_tag = Latest | Earliest | Pending | Safe | Finalized

datatype block_id = Number u64 | Tag block_tag

record transaction_request =
  tq_from :: "address option"
  tq_to :: "address option"
  tq_gas :: "u256 option"
  tq_gas_price :: "u256 option"
  tq_value :: "u256 option"
  tq_data :: "string option"
  tq_nonce :: "u256 option"

record json_rpc_request =
  jq_jsonrpc :: string
  jq_method :: string
  jq_params :: json
  jq_id :: json

text \<open>
  The decoders of the crates below: the text of a \<open>hex\<close> error, \<open>bincode\<close> on a transaction, and
  the derived \<open>serde\<close> decoders of the two request types.
\<close>

record rpc_env =
  hex_error :: "string \<Rightarrow> string"
  unbin_tx :: "bytes \<Rightarrow> string + transaction"
  de_transaction_request :: "json \<Rightarrow> string + transaction_request"
  de_json_rpc_request :: "json \<Rightarrow> string + json_rpc_request"

definition encode_qty :: "u64 \<Rightarrow> string" where
  "encode_qty n = (if n = 0 then ''0x0'' else ''0x'' @ hex_string (unat n))"

definition params_array :: "json \<Rightarrow> rpc_error + json list" where
  "params_array params = ok_or (as_array params) (InvalidParams ''expected array'')"

definition parse_string_at :: "json \<Rightarrow> nat \<Rightarrow> rpc_error + string" where
  "parse_string_at params idx =
     try_then (params_array params) (\<lambda>arr.
       ok_or (Option.bind (nth_opt arr idx) as_str) (InvalidParams (''missing string at '' @ dec_string idx)))"

definition decode_hex :: "'z prim_env_scheme \<Rightarrow> rpc_env \<Rightarrow> string \<Rightarrow> string + bytes" where
  "decode_hex E R s = ok_or (hex_decode E (strip_0x s)) (hex_error R (strip_0x s))"

definition parse_address_at :: "'z prim_env_scheme \<Rightarrow> json \<Rightarrow> nat \<Rightarrow> rpc_error + address" where
  "parse_address_at E params idx =
     try_then (parse_string_at params idx) (\<lambda>s.
       map_sum (\<lambda>e. InvalidParams (primitive_error_display e)) id (address_from_hex E s))"

definition parse_h256_at :: "'z prim_env_scheme \<Rightarrow> json \<Rightarrow> nat \<Rightarrow> rpc_error + h256" where
  "parse_h256_at E params idx =
     try_then (parse_string_at params idx) (\<lambda>s.
       map_sum (\<lambda>e. InvalidParams (primitive_error_display e)) id (hash_from_hex E 32 s))"

definition parse_block_id :: "json \<Rightarrow> rpc_error + block_id" where
  "parse_block_id v =
     (case as_u64 v of
        Some n \<Rightarrow> Inr (Number n)
      | None \<Rightarrow>
     try_then (ok_or (as_str v) (InvalidParams ''block id must be string or number'')) (\<lambda>s.
       if s = ''latest'' then Inr (Tag Latest)
       else if s = ''earliest'' then Inr (Tag Earliest)
       else if s = ''pending'' then Inr (Tag Pending)
       else if s = ''safe'' then Inr (Tag Safe)
       else if s = ''finalized'' then Inr (Tag Finalized)
       else map_sum id Number
              (ok_or (u64_from_hex_digits (strip_0x s)) (InvalidParams ''invalid block number''))))"

definition optional_block_id :: "json \<Rightarrow> nat \<Rightarrow> rpc_error + block_id" where
  "optional_block_id params idx =
     try_then (params_array params) (\<lambda>arr.
       case nth_opt arr idx of
         None \<Rightarrow> Inr (Tag Latest)
       | Some v \<Rightarrow> if v = JNull then Inr (Tag Latest) else parse_block_id v)"

definition parse_block_id_at :: "json \<Rightarrow> nat \<Rightarrow> rpc_error + block_id" where
  "parse_block_id_at params idx =
     try_then (params_array params) (\<lambda>arr.
       try_then (ok_or (nth_opt arr idx) (InvalidParams (''missing block id at '' @ dec_string idx))) parse_block_id)"

definition parse_storage_keys :: "'z prim_env_scheme \<Rightarrow> json \<Rightarrow> nat \<Rightarrow> rpc_error + h256 list" where
  "parse_storage_keys E params idx =
     try_then (params_array params) (\<lambda>arr.
       case nth_opt arr idx of
         None \<Rightarrow> Inr []
       | Some v \<Rightarrow>
           if v = JNull then Inr []
           else try_then (ok_or (as_array v) (InvalidParams ''storage keys must be an array'')) (\<lambda>keys.
             collect_results (map (\<lambda>k. try_then (ok_or (as_str k) (InvalidParams ''storage key must be hex''))
               (\<lambda>s. map_sum (\<lambda>e. InvalidParams (primitive_error_display e)) id (hash_from_hex E 32 s))) keys)))"

definition parse_log_addresses :: "'z prim_env_scheme \<Rightarrow> json option \<Rightarrow> rpc_error + address list" where
  "parse_log_addresses E mv =
     (case mv of
        None \<Rightarrow> Inr []
      | Some v \<Rightarrow>
     (if v = JNull then Inr []
      else case as_str v of
        Some s \<Rightarrow>
          map_sum (\<lambda>e. InvalidParams (primitive_error_display e)) (\<lambda>a. [a]) (address_from_hex E s)
      | None \<Rightarrow>
          try_then (ok_or (as_array v) (InvalidParams ''address must be hex or array'')) (\<lambda>arr.
            collect_results (map (\<lambda>x. try_then (ok_or (as_str x) (InvalidParams ''address entry must be hex''))
              (\<lambda>s. map_sum (\<lambda>e. InvalidParams (primitive_error_display e)) id (address_from_hex E s))) arr))))"

definition gas_limit_of :: "u256 option \<Rightarrow> u64" where
  "gas_limit_of gas =
     (case gas of
        None \<Rightarrow> 10000000
      | Some v \<Rightarrow>
          if u256_is_zero v then 10000000
          else if u256_from_u64 (- 1) < v then - 1
          else u256_low_u64 v)"

definition parse_call_args ::
  "'z prim_env_scheme \<Rightarrow> rpc_env \<Rightarrow> json \<Rightarrow> rpc_error + simulate_request \<times> block_id" where
  "parse_call_args E R params =
     try_then (params_array params) (\<lambda>arr.
     try_then (ok_or (nth_opt arr 0) (InvalidParams ''missing transaction object'')) (\<lambda>obj.
     try_then (map_sum InvalidParams id (de_transaction_request R obj)) (\<lambda>req.
     try_then (case nth_opt arr 1 of Some v \<Rightarrow> parse_block_id v | None \<Rightarrow> Inr (Tag Latest)) (\<lambda>tag.
     try_then (case tq_data req of
                 None \<Rightarrow> Inr []
               | Some s \<Rightarrow> if s = [] then Inr [] else map_sum InvalidParams id (decode_hex E R s)) (\<lambda>data.
       Inr (\<lparr> sr_from = (case tq_from req of Some a \<Rightarrow> a | None \<Rightarrow> address_zero), sr_to = tq_to req,
              sr_value = (case tq_value req of Some v \<Rightarrow> v | None \<Rightarrow> U256_ZERO), sr_data = data,
              sr_gas = gas_limit_of (tq_gas req) \<rparr>, tag))))))"

section \<open>Results\<close>

definition hex_data :: "'z prim_env_scheme \<Rightarrow> bytes \<Rightarrow> json" where
  "hex_data E bs = JString (''0x'' @ hex_encode E bs)"

definition hash_json :: "'z prim_env_scheme \<Rightarrow> h256 \<Rightarrow> json" where
  "hash_json E h = JString (hash_to_hex E h)"

definition address_json :: "'z prim_env_scheme \<Rightarrow> address \<Rightarrow> json" where
  "address_json E a = JString (address_to_hex E a)"

definition qty_json :: "u64 \<Rightarrow> json" where
  "qty_json n = JString (encode_qty n)"

definition header_to_json :: "'z core_env_scheme \<Rightarrow> block \<Rightarrow> json" where
  "header_to_json E b =
     (let h = blk_header b
      in JObject
        [(''number'', qty_json (hd_number h)),
         (''hash'', hash_json E (block_hash E b)),
         (''parentHash'', hash_json E (hd_parent_hash h)),
         (''miner'', address_json E (hd_miner h)),
         (''timestamp'', qty_json (hd_timestamp h)),
         (''gasLimit'', qty_json (hd_gas_limit h)),
         (''gasUsed'', qty_json (hd_gas_used h)),
         (''stateRoot'', hash_json E (hd_state_root h)),
         (''transactionsRoot'', hash_json E (hd_transactions_root h)),
         (''receiptsRoot'', hash_json E (hd_receipts_root h)),
         (''difficulty'', JString (u256_to_hex E (hd_difficulty h))),
         (''extraData'', hex_data E (hd_extra_data h))])"

definition block_to_json :: "'z core_env_scheme \<Rightarrow> block \<Rightarrow> json" where
  "block_to_json E b =
     (let h = blk_header b
      in JObject
        [(''number'', qty_json (hd_number h)),
         (''hash'', hash_json E (block_hash E b)),
         (''parentHash'', hash_json E (hd_parent_hash h)),
         (''miner'', address_json E (hd_miner h)),
         (''timestamp'', qty_json (hd_timestamp h)),
         (''gasLimit'', qty_json (hd_gas_limit h)),
         (''gasUsed'', qty_json (hd_gas_used h)),
         (''stateRoot'', hash_json E (hd_state_root h)),
         (''transactionsRoot'', hash_json E (hd_transactions_root h)),
         (''receiptsRoot'', hash_json E (hd_receipts_root h)),
         (''extraData'', hex_data E (hd_extra_data h)),
         (''transactions'', JArray (map (\<lambda>t. hash_json E (tx_hash E t)) (blk_transactions b)))])"

definition tx_to_json ::
  "'z core_env_scheme \<Rightarrow> transaction \<Rightarrow> h256 option \<Rightarrow> u64 option \<Rightarrow> u64 option \<Rightarrow> json" where
  "tx_to_json E tx bh bn index =
     JObject
       [(''hash'', hash_json E (tx_hash E tx)),
        (''nonce'', qty_json (tx_nonce tx)),
        (''blockHash'', json_opt (map_option (hash_to_hex E) bh)),
        (''blockNumber'', json_opt (map_option encode_qty bn)),
        (''transactionIndex'', json_opt (map_option encode_qty index)),
        (''from'', address_json E (tx_from tx)),
        (''to'', json_opt (map_option (address_to_hex E) (tx_to tx))),
        (''value'', JString (u256_to_hex E (tx_value tx))),
        (''gas'', qty_json (tx_gas tx)),
        (''gasPrice'', JString (u256_to_hex E (tx_gas_price tx))),
        (''input'', hex_data E (tx_data tx))]"

definition log_to_json :: "'z prim_env_scheme \<Rightarrow> log \<Rightarrow> json" where
  "log_to_json E l =
     JObject
       [(''address'', address_json E (log_address l)),
        (''topics'', JArray (map (hash_json E) (log_topics l))),
        (''data'', hex_data E (log_data l))]"

definition encode_proof_nodes :: "'z prim_env_scheme \<Rightarrow> bytes list \<Rightarrow> json" where
  "encode_proof_nodes E nodes = JArray (map (hex_data E) nodes)"

section \<open>Methods\<close>

definition block_by_tag :: "rpc_context \<Rightarrow> block_id \<Rightarrow> block option" where
  "block_by_tag ctx tag =
     (case tag of
        Number n \<Rightarrow> get_block_by_number (rx_store ctx) n
      | Tag t \<Rightarrow> if t = Earliest then get_block_by_number (rx_store ctx) 0 else head_block (rx_store ctx))"

definition state_for_tag :: "'z core_env_scheme \<Rightarrow> rpc_context \<Rightarrow> block_id \<Rightarrow> rpc_error + state_db" where
  "state_for_tag E ctx tag =
     (if tag \<in> {Tag Latest, Tag Pending, Tag Safe, Tag Finalized} then Inr (state_fork (rx_state ctx))
      else try_then (ok_or (block_by_tag ctx tag) BlockNotFound) (\<lambda>b.
        ok_or (state_at (rx_store ctx) (block_hash E b)) BlockNotFound))"

definition rpc_chain_id :: "rpc_context \<Rightarrow> rpc_error + json" where
  "rpc_chain_id ctx = Inr (qty_json (rx_chain_id ctx))"

definition rpc_block_number :: "rpc_context \<Rightarrow> rpc_error + json" where
  "rpc_block_number ctx =
     try_then (ok_or (head_block (rx_store ctx)) BlockNotFound) (\<lambda>b. Inr (qty_json (hd_number (blk_header b))))"

definition rpc_get_balance :: "'z core_env_scheme \<Rightarrow> json \<Rightarrow> rpc_context \<Rightarrow> rpc_error + json" where
  "rpc_get_balance E params ctx =
     try_then (parse_address_at E params 0) (\<lambda>addr.
     try_then (optional_block_id params 1) (\<lambda>tag.
     try_then (state_for_tag E ctx tag) (\<lambda>state.
       Inr (JString (u256_to_hex E
         (case get_account state addr of Some a \<Rightarrow> acc_balance a | None \<Rightarrow> U256_ZERO))))))"

definition rpc_get_code :: "'z core_env_scheme \<Rightarrow> json \<Rightarrow> rpc_context \<Rightarrow> rpc_error + json" where
  "rpc_get_code E params ctx =
     try_then (parse_address_at E params 0) (\<lambda>addr.
     try_then (optional_block_id params 1) (\<lambda>tag.
     try_then (state_for_tag E ctx tag) (\<lambda>state. Inr (hex_data E (get_code state addr)))))"

definition rpc_get_storage_at :: "'z core_env_scheme \<Rightarrow> json \<Rightarrow> rpc_context \<Rightarrow> rpc_error + json" where
  "rpc_get_storage_at E params ctx =
     try_then (parse_address_at E params 0) (\<lambda>addr.
     try_then (parse_h256_at E params 1) (\<lambda>slot.
     try_then (optional_block_id params 2) (\<lambda>tag.
     try_then (state_for_tag E ctx tag) (\<lambda>state. Inr (JString (u256_to_hex E (get_storage state addr slot)))))))"

definition rpc_get_transaction_count :: "'z core_env_scheme \<Rightarrow> json \<Rightarrow> rpc_context \<Rightarrow> rpc_error + json" where
  "rpc_get_transaction_count E params ctx =
     try_then (parse_address_at E params 0) (\<lambda>addr.
     try_then (optional_block_id params 1) (\<lambda>tag.
     try_then (state_for_tag E ctx tag) (\<lambda>state.
       Inr (qty_json (case get_account state addr of Some a \<Rightarrow> acc_nonce a | None \<Rightarrow> 0)))))"

text \<open>
  The proof walk is the trie's: \<open>None\<close> is a walk that does not return. The state is the fork
  of this request, whose storage roots the account proof refreshes.
\<close>

primrec rpc_storage_proofs ::
  "'z state_env_scheme \<Rightarrow> state_db \<Rightarrow> address \<Rightarrow> h256 list \<Rightarrow> (rpc_error + json list) option" where
  "rpc_storage_proofs E state addr [] = Some (Inr [])"
| "rpc_storage_proofs E state addr (slot # slots) =
     (case storage_proof E state addr slot of
        None \<Rightarrow> None
      | Some p \<Rightarrow>
     (case trie_verify E (tp_root p) slot (tp_nodes p) of
        Inl e \<Rightarrow> Some (Inl (Server (proof_error_display e)))
      | Inr _ \<Rightarrow>
          map_option (map_sum id (\<lambda>rest.
            JObject [(''key'', hash_json E slot),
                     (''value'', JString (u256_to_hex E (get_storage state addr slot))),
                     (''proof'', encode_proof_nodes E (tp_nodes p))] # rest))
            (rpc_storage_proofs E state addr slots)))"

definition rpc_proof_of ::
  "'z state_env_scheme \<Rightarrow> state_db \<Rightarrow> address \<Rightarrow> h256 list \<Rightarrow> (rpc_error + json) option" where
  "rpc_proof_of E state addr slots =
     (case account_proof E state addr of
        (None, _) \<Rightarrow> None
      | (Some ap, state') \<Rightarrow>
     (case trie_verify E (tp_root ap) addr (tp_nodes ap) of
        Inl e \<Rightarrow> Some (Inl (Server (proof_error_display e)))
      | Inr _ \<Rightarrow>
          (let acc = (case get_account state' addr of Some a \<Rightarrow> a | None \<Rightarrow> account_new)
           in map_option (map_sum id (\<lambda>storage.
                JObject [(''address'', address_json E addr),
                         (''accountProof'', encode_proof_nodes E (tp_nodes ap)),
                         (''balance'', JString (u256_to_hex E (acc_balance acc))),
                         (''codeHash'', hash_json E (acc_code_hash acc)),
                         (''nonce'', qty_json (acc_nonce acc)),
                         (''storageHash'', hash_json E (acc_storage_root acc)),
                         (''storageProof'', JArray storage)]))
                (rpc_storage_proofs E state' addr slots))))"

definition rpc_get_proof :: "'z state_env_scheme \<Rightarrow> json \<Rightarrow> rpc_context \<Rightarrow> (rpc_error + json) option" where
  "rpc_get_proof E params ctx =
     (case try_then (parse_address_at E params 0) (\<lambda>addr.
           try_then (parse_storage_keys E params 1) (\<lambda>slots.
           try_then (optional_block_id params 2) (\<lambda>tag.
           try_then (state_for_tag E ctx tag) (\<lambda>state. Inr (addr, slots, state))))) of
        Inl e \<Rightarrow> Some (Inl e)
      | Inr (addr, slots, state) \<Rightarrow> rpc_proof_of E state addr slots)"

definition rpc_get_block_by_number :: "'z core_env_scheme \<Rightarrow> json \<Rightarrow> rpc_context \<Rightarrow> rpc_error + json" where
  "rpc_get_block_by_number E params ctx =
     try_then (parse_block_id_at params 0) (\<lambda>tag.
     try_then (ok_or (block_by_tag ctx tag) BlockNotFound) (\<lambda>b. Inr (block_to_json E b)))"

definition rpc_get_block_by_hash :: "'z core_env_scheme \<Rightarrow> json \<Rightarrow> rpc_context \<Rightarrow> rpc_error + json" where
  "rpc_get_block_by_hash E params ctx =
     try_then (parse_h256_at E params 0) (\<lambda>hash.
     try_then (ok_or (get_block (rx_store ctx) hash) BlockNotFound) (\<lambda>b. Inr (block_to_json E b)))"

definition rpc_get_transaction_by_hash :: "'z core_env_scheme \<Rightarrow> json \<Rightarrow> rpc_context \<Rightarrow> rpc_error + json" where
  "rpc_get_transaction_by_hash E params ctx =
     try_then (parse_h256_at E params 0) (\<lambda>hash.
       case pool_get (rx_pool ctx) hash of
         Some tx \<Rightarrow> Inr (tx_to_json E tx None None None)
       | None \<Rightarrow>
           try_then (ok_or (get_transaction (rx_store ctx) hash) TransactionNotFound) (\<lambda>(tx, loc).
             Inr (tx_to_json E tx (Some (tl_block_hash loc)) (Some (tl_block_number loc))
                   (Some (of_nat (tl_index loc))))))"

definition rpc_get_transaction_receipt :: "'z core_env_scheme \<Rightarrow> json \<Rightarrow> rpc_context \<Rightarrow> rpc_error + json" where
  "rpc_get_transaction_receipt E params ctx =
     try_then (parse_h256_at E params 0) (\<lambda>hash.
     try_then (ok_or (get_transaction (rx_store ctx) hash) TransactionNotFound) (\<lambda>(tx, loc).
     try_then (ok_or (get_block (rx_store ctx) (tl_block_hash loc)) BlockNotFound) (\<lambda>b.
     try_then (ok_or (nth_opt (blk_receipts b) (tl_index loc)) TransactionNotFound) (\<lambda>receipt.
       Inr (JObject
         [(''transactionHash'', hash_json E hash),
          (''transactionIndex'', qty_json (of_nat (tl_index loc))),
          (''blockHash'', hash_json E (tl_block_hash loc)),
          (''blockNumber'', qty_json (tl_block_number loc)),
          (''from'', address_json E (tx_from tx)),
          (''to'', json_opt (map_option (address_to_hex E) (tx_to tx))),
          (''gasUsed'', qty_json (rc_gas_used receipt)),
          (''cumulativeGasUsed'', qty_json (rc_gas_used receipt)),
          (''status'', JString (if rc_status receipt then ''0x1'' else ''0x0'')),
          (''logs'', JArray (map (log_to_json E) (rc_logs receipt))),
          (''contractAddress'',
             if tx_is_create tx then address_json E (address_create E (tx_from tx) (tx_nonce tx))
             else JNull)])))))"

definition rpc_send_raw_transaction ::
  "'z core_env_scheme \<Rightarrow> rpc_env \<Rightarrow> json \<Rightarrow> rpc_context \<Rightarrow> (rpc_error + json) \<times> rpc_context" where
  "rpc_send_raw_transaction E R params ctx =
     (case try_then (parse_string_at params 0) (\<lambda>s.
           try_then (map_sum InvalidParams id (decode_hex E R s)) (\<lambda>raw.
             map_sum InvalidParams id (unbin_tx R raw))) of
        Inl e \<Rightarrow> (Inl e, ctx)
      | Inr tx \<Rightarrow>
     (case add_transaction E tx Local (rx_pool ctx) of
        (Inl e, pool) \<Rightarrow> (Inl (InvalidParams (txpool_error_display e)), ctx \<lparr> rx_pool := pool \<rparr>)
      | (Inr hash, pool) \<Rightarrow>
          (Inr (hash_json E hash),
           emit (NewPendingTx hash)
             (ctx \<lparr> rx_pool := pool, rx_on_tx := map_option (\<lambda>txs. txs @ [tx]) (rx_on_tx ctx) \<rparr>))))"

definition rpc_simulate ::
  "'z vm_env_scheme \<Rightarrow> rpc_env \<Rightarrow> json \<Rightarrow> rpc_context \<Rightarrow> rpc_error + simulate_outcome" where
  "rpc_simulate E R params ctx =
     try_then (parse_call_args E R params) (\<lambda>(req, tag).
     try_then (state_for_tag E ctx tag) (\<lambda>state.
       map_sum (\<lambda>e. Server (execution_error_display e)) id (fst (simulate E gas_config_default req state))))"

definition rpc_call :: "'z vm_env_scheme \<Rightarrow> rpc_env \<Rightarrow> json \<Rightarrow> rpc_context \<Rightarrow> rpc_error + json" where
  "rpc_call E R params ctx =
     try_then (rpc_simulate E R params ctx) (\<lambda>out. Inr (hex_data E (cr_output (so_call out))))"

definition rpc_estimate_gas :: "'z vm_env_scheme \<Rightarrow> rpc_env \<Rightarrow> json \<Rightarrow> rpc_context \<Rightarrow> rpc_error + json" where
  "rpc_estimate_gas E R params ctx =
     try_then (rpc_simulate E R params ctx) (\<lambda>out. Inr (qty_json (so_gas_used out)))"

definition rpc_node_info :: "'z core_env_scheme \<Rightarrow> rpc_context \<Rightarrow> rpc_error + json" where
  "rpc_node_info E ctx =
     (let (head_number, head_hash) =
            (case head_block (rx_store ctx) of
               Some b \<Rightarrow> (encode_qty (hd_number (blk_header b)), hash_json E (block_hash E b))
             | None \<Rightarrow> (''0x0'', JNull))
      in Inr (JObject
        [(''role'', JString (node_role_as_str (rx_role ctx))),
         (''address'', address_json E (rx_address ctx)),
         (''chainId'', qty_json (rx_chain_id ctx)),
         (''peerId'', JString (rx_peer_id ctx)),
         (''peers'', json_nat (rx_peers ctx)),
         (''pending'', json_nat (pending_count (rx_pool ctx))),
         (''headNumber'', JString head_number),
         (''headHash'', head_hash),
         (''bootstrap'', JArray (map JString (rx_bootstrap ctx)))]))"

definition contract_row :: "'z core_env_scheme \<Rightarrow> rpc_context \<Rightarrow> u64 \<Rightarrow> transaction \<Rightarrow> json" where
  "contract_row E ctx n tx =
     (let addr = address_create E (tx_from tx) (tx_nonce tx);
          code = get_code (rx_state ctx) addr;
          meta = Option.bind (rx_contract_lookup ctx) (\<lambda>f. f (keccak256 E code))
      in JObject
        [(''address'', address_json E addr),
         (''codeSize'', json_nat (length code)),
         (''blockNumber'', qty_json n),
         (''transactionHash'', hash_json E (tx_hash E tx)),
         (''name'', json_opt (map_option cm_name meta)),
         (''schema'', json_opt (map_option cm_schema meta)),
         (''source'', json_opt (map_option cm_source meta)),
         (''description'', json_opt (map_option cm_description meta)),
         (''registered'', JBool (meta \<noteq> None))])"

definition rpc_list_contracts :: "'z core_env_scheme \<Rightarrow> rpc_context \<Rightarrow> rpc_error + json" where
  "rpc_list_contracts E ctx =
     (case head_block (rx_store ctx) of
        None \<Rightarrow> Inr (JArray [])
      | Some head \<Rightarrow>
          Inr (JArray (concat (map (\<lambda>n.
            case get_block_by_number (rx_store ctx) n of
              None \<Rightarrow> []
            | Some b \<Rightarrow>
                map (\<lambda>(tx, _). contract_row E ctx n tx)
                  (filter (\<lambda>(tx, receipt). tx_is_create tx \<and> rc_status receipt)
                    (zip (blk_transactions b) (blk_receipts b))))
            (heights 1 (hd_number (blk_header head)))))))"

definition rpc_get_header_by_number :: "'z core_env_scheme \<Rightarrow> json \<Rightarrow> rpc_context \<Rightarrow> rpc_error + json" where
  "rpc_get_header_by_number E params ctx =
     try_then (parse_block_id_at params 0) (\<lambda>tag.
     try_then (ok_or (block_by_tag ctx tag) BlockNotFound) (\<lambda>b. Inr (header_to_json E b)))"

definition log_json :: "'z prim_env_scheme \<Rightarrow> u64 \<Rightarrow> h256 \<Rightarrow> h256 \<Rightarrow> nat \<Rightarrow> nat \<Rightarrow> log \<Rightarrow> json" where
  "log_json E n hash txh tx_idx log_idx l =
     JObject
       [(''address'', address_json E (log_address l)),
        (''topics'', JArray (map (hash_json E) (log_topics l))),
        (''data'', hex_data E (log_data l)),
        (''blockNumber'', qty_json n),
        (''blockHash'', hash_json E hash),
        (''transactionHash'', hash_json E txh),
        (''transactionIndex'', qty_json (of_nat tx_idx)),
        (''logIndex'', qty_json (of_nat log_idx))]"

text \<open>One block of the scan, receipt by receipt and log by log.\<close>

definition block_logs :: "'z core_env_scheme \<Rightarrow> address list \<Rightarrow> u64 \<Rightarrow> block \<Rightarrow> json list" where
  "block_logs E addrs n b =
     (let hash = block_hash E b
      in concat (map (\<lambda>(tx_idx, receipt).
           map (\<lambda>(log_idx, l). log_json E n hash (rc_tx_hash receipt) tx_idx log_idx l)
             (filter (\<lambda>(log_idx, l). \<not> (addrs \<noteq> [] \<and> log_address l \<notin> set addrs))
               (enumerate 0 (rc_logs receipt))))
           (enumerate 0 (blk_receipts b))))"

definition scan_logs :: "'z core_env_scheme \<Rightarrow> block_store \<Rightarrow> address list \<Rightarrow> u64 \<Rightarrow> u64 \<Rightarrow> json list" where
  "scan_logs E st addrs a b =
     concat (map (\<lambda>n.
       case get_block_by_number st n of None \<Rightarrow> [] | Some blk \<Rightarrow> block_logs E addrs n blk) (heights a b))"

definition range_end :: "rpc_context \<Rightarrow> u64 \<Rightarrow> block_id option \<Rightarrow> u64 \<Rightarrow> u64" where
  "range_end ctx absent bid missing =
     (case bid of
        Some (Number n) \<Rightarrow> n
      | Some tag \<Rightarrow> (case block_by_tag ctx tag of Some b \<Rightarrow> hd_number (blk_header b) | None \<Rightarrow> missing)
      | None \<Rightarrow> absent)"

definition optional_id :: "json option \<Rightarrow> rpc_error + block_id option" where
  "optional_id mv = (case mv of None \<Rightarrow> Inr None | Some v \<Rightarrow> map_sum id Some (parse_block_id v))"

definition rpc_get_logs :: "'z core_env_scheme \<Rightarrow> json \<Rightarrow> rpc_context \<Rightarrow> rpc_error + json" where
  "rpc_get_logs E params ctx =
     try_then (params_array params) (\<lambda>arr.
     try_then (ok_or (Option.bind (nth_opt arr 0) as_object) (InvalidParams ''expected filter object'')) (\<lambda>filt.
     try_then (ok_or (head_block (rx_store ctx)) BlockNotFound) (\<lambda>hb.
     let head = hd_number (blk_header hb) in
     try_then (optional_id (map_of filt ''fromBlock'')) (\<lambda>fid.
     let a = range_end ctx 0 fid 0 in
     try_then (optional_id (map_of filt ''toBlock'')) (\<lambda>tid.
     let b = range_end ctx head tid head in
     if b < a then Inl (InvalidParams ''toBlock < fromBlock'')
     else if 1000 < saturating_sub_w b a then Inl (InvalidParams ''log scan exceeds 1000 blocks'')
     else try_then (parse_log_addresses E (map_of filt ''address'')) (\<lambda>addrs.
       Inr (JArray (scan_logs E (rx_store ctx) addrs a b))))))))"

section \<open>Dispatch\<close>

definition rpc_method ::
  "'z vm_env_scheme \<Rightarrow> rpc_env \<Rightarrow> string \<Rightarrow> json \<Rightarrow> rpc_context \<Rightarrow> ((rpc_error + json) \<times> rpc_context) option" where
  "rpc_method E R method params ctx =
     (if method = ''eth_chainId'' then Some (rpc_chain_id ctx, ctx)
      else if method = ''eth_blockNumber'' then Some (rpc_block_number ctx, ctx)
      else if method = ''eth_getBalance'' then Some (rpc_get_balance E params ctx, ctx)
      else if method = ''eth_getCode'' then Some (rpc_get_code E params ctx, ctx)
      else if method = ''eth_getStorageAt'' then Some (rpc_get_storage_at E params ctx, ctx)
      else if method = ''eth_getBlockByNumber'' then Some (rpc_get_block_by_number E params ctx, ctx)
      else if method = ''eth_getBlockByHash'' then Some (rpc_get_block_by_hash E params ctx, ctx)
      else if method = ''eth_getTransactionByHash'' then Some (rpc_get_transaction_by_hash E params ctx, ctx)
      else if method = ''eth_getTransactionReceipt'' then Some (rpc_get_transaction_receipt E params ctx, ctx)
      else if method = ''eth_getTransactionCount'' then Some (rpc_get_transaction_count E params ctx, ctx)
      else if method = ''eth_sendRawTransaction'' then Some (rpc_send_raw_transaction E R params ctx)
      else if method = ''eth_call'' then Some (rpc_call E R params ctx, ctx)
      else if method = ''eth_estimateGas'' then Some (rpc_estimate_gas E R params ctx, ctx)
      else if method = ''eth_getLogs'' then Some (rpc_get_logs E params ctx, ctx)
      else if method = ''eth_getProof'' then map_option (\<lambda>r. (r, ctx)) (rpc_get_proof E params ctx)
      else if method = ''eth_subscribe'' \<or> method = ''eth_unsubscribe'' then Some (Inl (Server ''WebSocket only''), ctx)
      else if method = ''ivory_nodeInfo'' then Some (rpc_node_info E ctx, ctx)
      else if method = ''ivory_listContracts'' then Some (rpc_list_contracts E ctx, ctx)
      else if method = ''ivory_getHeaderByNumber'' then Some (rpc_get_header_by_number E params ctx, ctx)
      else Some (Inl (MethodNotFound method), ctx))"

definition method_barred :: "rpc_context \<Rightarrow> string \<Rightarrow> bool" where
  "method_barred ctx method = (case rx_allow_methods ctx of None \<Rightarrow> False | Some allow \<Rightarrow> method \<notin> set allow)"

definition rpc_count :: "string \<Rightarrow> rpc_error + json \<Rightarrow> rpc_context \<Rightarrow> rpc_context" where
  "rpc_count method r ctx =
     ctx \<lparr> rx_metrics :=
       (let m = rpc_request method (rx_metrics ctx)
        in case r of Inr _ \<Rightarrow> m | Inl e \<Rightarrow> rpc_error_count method (je_code (json_rpc_error_from e)) m) \<rparr>"

definition rpc_handle ::
  "'z vm_env_scheme \<Rightarrow> rpc_env \<Rightarrow> string \<Rightarrow> json \<Rightarrow> rpc_context \<Rightarrow> ((rpc_error + json) \<times> rpc_context) option" where
  "rpc_handle E R method params ctx =
     (if method_barred ctx method
      then Some (Inl (MethodNotFound method), ctx \<lparr> rx_metrics :=
             rpc_error_count method (-32601) (rpc_request method (rx_metrics ctx)) \<rparr>)
      else map_option (\<lambda>(r, ctx'). (r, rpc_count method r ctx')) (rpc_method E R method params ctx))"

definition READ_ONLY_METHODS :: "string list" where
  "READ_ONLY_METHODS =
     [''eth_chainId'', ''eth_blockNumber'', ''eth_getBalance'', ''eth_getCode'', ''eth_getStorageAt'',
      ''eth_getBlockByNumber'', ''eth_getBlockByHash'', ''eth_getTransactionByHash'',
      ''eth_getTransactionReceipt'', ''eth_getTransactionCount'', ''eth_call'', ''eth_estimateGas'',
      ''eth_getLogs'', ''eth_getProof'', ''ivory_nodeInfo'', ''ivory_listContracts'',
      ''ivory_getHeaderByNumber'']"

section \<open>The HTTP entry point\<close>

record json_rpc_response =
  jr_jsonrpc :: string
  jr_result :: "json option"
  jr_error :: "json_rpc_error option"
  jr_id :: json

definition response_success :: "json \<Rightarrow> json \<Rightarrow> json_rpc_response" where
  "response_success rid res = \<lparr> jr_jsonrpc = ''2.0'', jr_result = Some res, jr_error = None, jr_id = rid \<rparr>"

definition response_error :: "json \<Rightarrow> json_rpc_error \<Rightarrow> json_rpc_response" where
  "response_error rid err = \<lparr> jr_jsonrpc = ''2.0'', jr_result = None, jr_error = Some err, jr_id = rid \<rparr>"

definition dispatch ::
  "'z vm_env_scheme \<Rightarrow> rpc_env \<Rightarrow> json_rpc_request \<Rightarrow> rpc_context \<Rightarrow> (json_rpc_response \<times> rpc_context) option" where
  "dispatch E R req ctx =
     map_option (\<lambda>(r, ctx'). (case r of
         Inr v \<Rightarrow> response_success (jq_id req) v
       | Inl e \<Rightarrow> response_error (jq_id req) (json_rpc_error_from e), ctx'))
       (rpc_handle E R (jq_method req) (jq_params req) ctx)"

text \<open>The body is \<open>None\<close> when it is not JSON.\<close>

definition http_jsonrpc ::
  "'z vm_env_scheme \<Rightarrow> rpc_env \<Rightarrow> json option \<Rightarrow> rpc_context \<Rightarrow> (json_rpc_response \<times> rpc_context) option" where
  "http_jsonrpc E R body ctx =
     (case body of
        None \<Rightarrow> Some (response_error JNull parse_error, ctx)
      | Some v \<Rightarrow>
     (case de_json_rpc_request R v of
        Inl _ \<Rightarrow> Some (response_error JNull invalid_request, ctx)
      | Inr req \<Rightarrow> dispatch E R req ctx))"

text \<open>
  The token check in front of every route: the path, the \<open>Authorization\<close> header when it is
  readable text, and whether the request goes on to its route.
\<close>

definition auth_passes :: "string option \<Rightarrow> string \<Rightarrow> string option \<Rightarrow> bool" where
  "auth_passes token path auth =
     (path = ''/livez'' \<or> path = ''/readyz'' \<or> path = ''/metrics'' \<or>
      (case token of
         None \<Rightarrow> True
       | Some expected \<Rightarrow>
           (case auth of
              None \<Rightarrow> False
            | Some v \<Rightarrow> (case strip_prefix ''Bearer '' v of None \<Rightarrow> False | Some got \<Rightarrow> got = expected))))"

section \<open>WebSocket subscriptions\<close>

datatype sub_kind = NewHeads | NewPendingTxs | Logs "address option"

record ws_state =
  ws_subs :: "(string, sub_kind) hmap"
  ws_next_id :: u64

definition ws_new :: ws_state where
  "ws_new = \<lparr> ws_subs = [], ws_next_id = 1 \<rparr>"

definition sub_kind_of :: "'z prim_env_scheme \<Rightarrow> string \<Rightarrow> json list \<Rightarrow> sub_kind option" where
  "sub_kind_of E topic arr =
     (if topic = ''newHeads'' then Some NewHeads
      else if topic = ''newPendingTransactions'' then Some NewPendingTxs
      else if topic = ''logs'' then
        Some (Logs (Option.bind (nth_opt arr 1) (\<lambda>v.
          Option.bind (json_get ''address'' v) (\<lambda>a.
          Option.bind (as_str a) (\<lambda>s. case address_from_hex E s of Inl _ \<Rightarrow> None | Inr x \<Rightarrow> Some x)))))
      else None)"

definition subscribe ::
  "'z prim_env_scheme \<Rightarrow> json \<Rightarrow> json \<Rightarrow> ws_state \<Rightarrow> json_rpc_response \<times> ws_state" where
  "subscribe E rid params w =
     (case as_array params of
        None \<Rightarrow> (response_error rid (invalid_params ''expected array''), w)
      | Some arr \<Rightarrow>
     (case Option.bind (nth_opt arr 0) as_str of
        None \<Rightarrow> (response_error rid (invalid_params ''missing topic''), w)
      | Some topic \<Rightarrow>
     (case sub_kind_of E topic arr of
        None \<Rightarrow> (response_error rid (invalid_params (''unknown subscription '' @ topic)), w)
      | Some kind \<Rightarrow>
          (let sub_id = ''0x'' @ hex_string (unat (ws_next_id w))
           in (response_success rid (JString sub_id),
               \<lparr> ws_subs = hm_insert sub_id kind (ws_subs w), ws_next_id = saturating_add_w (ws_next_id w) 1 \<rparr>)))))"

definition unsubscribe :: "json \<Rightarrow> json \<Rightarrow> ws_state \<Rightarrow> json_rpc_response \<times> ws_state" where
  "unsubscribe rid params w =
     (case as_array params of
        None \<Rightarrow> (response_error rid (invalid_params ''expected array''), w)
      | Some arr \<Rightarrow>
     (case Option.bind (nth_opt arr 0) as_str of
        None \<Rightarrow> (response_error rid (invalid_params ''missing subscription id''), w)
      | Some sub_id \<Rightarrow>
          (response_success rid (JBool (hm_get (ws_subs w) sub_id \<noteq> None)),
           w \<lparr> ws_subs := hm_remove sub_id (ws_subs w) \<rparr>)))"

text \<open>A text message, as decoded: \<open>None\<close> when it is not a request.\<close>

definition handle_ws_message ::
  "'z vm_env_scheme \<Rightarrow> rpc_env \<Rightarrow> json_rpc_request option \<Rightarrow> ws_state \<Rightarrow> rpc_context \<Rightarrow>
   (json_rpc_response \<times> ws_state \<times> rpc_context) option" where
  "handle_ws_message E R text w ctx =
     (case text of
        None \<Rightarrow> Some (response_error JNull parse_error, w, ctx)
      | Some req \<Rightarrow>
          if jq_method req = ''eth_subscribe''
            then let (resp, w') = subscribe E (jq_id req) (jq_params req) w in Some (resp, w', ctx)
          else if jq_method req = ''eth_unsubscribe''
            then let (resp, w') = unsubscribe (jq_id req) (jq_params req) w in Some (resp, w', ctx)
          else map_option (\<lambda>(resp, ctx'). (resp, w, ctx')) (dispatch E R req ctx))"

definition head_json :: "'z prim_env_scheme \<Rightarrow> rpc_event \<Rightarrow> json" where
  "head_json E event =
     (case event of
        NewHead number hash parent_hash miner timestamp state_root gas_limit gas_used \<Rightarrow>
          JObject
            [(''number'', qty_json number), (''hash'', hash_json E hash), (''parentHash'', hash_json E parent_hash),
             (''miner'', address_json E miner), (''timestamp'', qty_json timestamp),
             (''stateRoot'', hash_json E state_root), (''gasLimit'', qty_json gas_limit),
             (''gasUsed'', qty_json gas_used)]
      | _ \<Rightarrow> JNull)"

definition logs_json :: "'z prim_env_scheme \<Rightarrow> log list \<Rightarrow> address option \<Rightarrow> u64 \<Rightarrow> h256 \<Rightarrow> json" where
  "logs_json E logs flt block_number bh =
     JArray (map (\<lambda>l.
       JObject
         [(''address'', address_json E (log_address l)),
          (''topics'', JArray (map (hash_json E) (log_topics l))),
          (''data'', hex_data E (log_data l)),
          (''blockNumber'', qty_json block_number),
          (''blockHash'', hash_json E bh)])
       (filter (\<lambda>l. case flt of None \<Rightarrow> True | Some a \<Rightarrow> log_address l = a) logs))"

definition notification_for :: "'z prim_env_scheme \<Rightarrow> rpc_event \<Rightarrow> sub_kind \<Rightarrow> json option" where
  "notification_for E event kind =
     (case (kind, event) of
        (NewHeads, NewHead _ _ _ _ _ _ _ _) \<Rightarrow> Some (head_json E event)
      | (NewPendingTxs, NewPendingTx hash) \<Rightarrow> Some (hash_json E hash)
      | (Logs a, NewLogs logs n bh) \<Rightarrow> Some (logs_json E logs a n bh)
      | _ \<Rightarrow> None)"

definition notifications_for :: "'z prim_env_scheme \<Rightarrow> (string, sub_kind) hmap \<Rightarrow> rpc_event \<Rightarrow> json list" where
  "notifications_for E subs event =
     List.map_filter (\<lambda>(sub_id, kind). map_option (\<lambda>res.
       JObject
         [(''jsonrpc'', JString ''2.0''),
          (''method'', JString ''eth_subscription''),
          (''params'', JObject [(''subscription'', JString sub_id), (''result'', res)])])
       (notification_for E event kind)) subs"

section \<open>Results in sequence\<close>

lemma try_then_simps [simp]: "try_then (Inl e) f = Inl e" "try_then (Inr x) f = f x"
  by (simp_all add: try_then_def)

lemma try_then_Inr: "try_then r f = Inr y \<longleftrightarrow> (\<exists>x. r = Inr x \<and> f x = Inr y)"
  by (cases r) simp_all

lemma ok_or_Inr: "ok_or x e = Inr y \<longleftrightarrow> x = Some y"
  by (cases x) (simp_all add: ok_or_def)

lemma ok_or_simps [simp]: "ok_or (Some x) e = Inr x" "ok_or None e = Inl e"
  by (simp_all add: ok_or_def)

lemmas results = try_then_Inr ok_or_Inr

section \<open>Quantities\<close>

lemma hex_digits_append:
  "hex_digits_value acc (s @ t) = Option.bind (hex_digits_value acc s) (\<lambda>v. hex_digits_value v t)"
  by (induction acc s rule: hex_digits_value.induct) (simp_all split: option.split)

lemma hex_string_unfold:
  "n < 16 \<Longrightarrow> hex_string n = [hex_digit n]"
  "\<not> n < 16 \<Longrightarrow> hex_string n = hex_string (n div 16) @ [hex_digit (n mod 16)]"
  by (subst hex_string.simps, simp only: if_True if_False simp_thms)+

lemma hex_string_value: "\<exists>k. hex_digits_value acc (hex_string n) = Some (acc * 16 ^ k + n)"
proof (induction n arbitrary: acc rule: hex_string.induct)
  case (1 n)
  show ?case
  proof (cases "n < 16")
    case True
    then show ?thesis by (intro exI [of _ 1]) (simp add: hex_string_unfold hex_value_digit)
  next
    case False
    from "1.IH" [OF False, of acc] obtain k where
      k: "hex_digits_value acc (hex_string (n div 16)) = Some (acc * 16 ^ k + n div 16)" by blast
    have "16 * (n div 16) + n mod 16 = n" by simp
    then have "16 * (acc * 16 ^ k + n div 16) + n mod 16 = acc * 16 ^ Suc k + n" by (simp only: distrib_left power_Suc mult.left_commute add.assoc)
    then have "hex_digits_value acc (hex_string n) = Some (acc * 16 ^ Suc k + n)"
      unfolding hex_string_unfold(2) [OF False] hex_digits_append k by (simp add: hex_value_digit)
    then show ?thesis by blast
  qed
qed

lemma hex_string_parses: "hex_digits_value 0 (hex_string n) = Some n"
  using hex_string_value [of 0 n] by auto

lemma hex_string_inj: "hex_string m = hex_string n \<Longrightarrow> m = n"
  by (metis hex_string_parses option.inject)

lemma hex_string_head: "\<exists>c cs. hex_string n = c # cs \<and> c \<noteq> CHR ''+''"
proof (induction n rule: hex_string.induct)
  case (1 n)
  have plus: "hex_value (CHR ''+'') = None" by (simp add: hex_value_def)
  show ?case
  proof (cases "n < 16")
    case True
    then show ?thesis using plus hex_value_digit [OF True] by (auto simp: hex_string_unfold(1))
  next
    case False
    then show ?thesis using "1.IH" [OF False] by (auto simp: hex_string_unfold(2))
  qed
qed

lemma encode_qty_hex: "encode_qty n = ''0x'' @ hex_string (unat n)"
  by (simp add: encode_qty_def hex_string_unfold(1) hex_digit_def)

lemma qty_roundtrip: "u64_from_hex_digits (strip_0x (encode_qty n)) = Some n"
proof -
  obtain c cs where "hex_string (unat n) = c # cs" "c \<noteq> CHR ''+''" using hex_string_head by blast
  then show ?thesis using hex_string_parses [of "unat n"] unat_lt [of n]
    by (simp add: encode_qty_hex u64_from_hex_digits_def)
qed

lemma encode_qty_inj: "encode_qty m = encode_qty n \<Longrightarrow> m = n"
  by (metis qty_roundtrip option.inject)

section \<open>What a request changes\<close>

lemma add_refused: "add_transaction E tx origin p = (Inl e, p') \<Longrightarrow> p' = p"
  unfolding add_transaction_def by (erule add_transaction_cases) auto

lemma add_admitted: "add_transaction E tx origin p = (Inr h, p') \<Longrightarrow> h = tx_hash E tx"
  unfolding add_transaction_def by (erule add_transaction_cases) auto

text \<open>The one effect a request can have besides the counters.\<close>

definition submitted :: "'z core_env_scheme \<Rightarrow> transaction \<Rightarrow> rpc_context \<Rightarrow> rpc_context \<Rightarrow> bool" where
  "submitted E tx ctx ctx' \<longleftrightarrow>
     add_transaction E tx Local (rx_pool ctx) = (Inr (tx_hash E tx), rx_pool ctx') \<and>
     ctx' = ctx \<lparr> rx_pool := rx_pool ctx', rx_on_tx := map_option (\<lambda>txs. txs @ [tx]) (rx_on_tx ctx),
                  rx_events := rx_events ctx @ [NewPendingTx (tx_hash E tx)], rx_metrics := rx_metrics ctx' \<rparr>"

lemma submitted_metrics: "submitted E tx ctx c \<Longrightarrow> submitted E tx ctx (c \<lparr> rx_metrics := m \<rparr>)"
  by (cases ctx; cases c) (simp add: submitted_def)

lemma send_raw_cases:
  assumes "rpc_send_raw_transaction E R params ctx = (r, ctx')"
  obtains (refused) e where "r = Inl e" "ctx' = ctx"
  | (admitted) tx where "r = Inr (hash_json E (tx_hash E tx))" "submitted E tx ctx ctx'"
proof -
  let ?d = "try_then (parse_string_at params 0) (\<lambda>s. try_then (map_sum InvalidParams id (decode_hex E R s))
      (\<lambda>raw. map_sum InvalidParams id (unbin_tx R raw)))"
  show thesis
  proof (cases ?d)
    case (Inl e)
    then show thesis using refused [of e] assms by (auto simp: rpc_send_raw_transaction_def)
  next
    case (Inr tx)
    obtain q pool where add: "add_transaction E tx Local (rx_pool ctx) = (q, pool)" by fastforce
    show thesis
    proof (cases q)
      case (Inl e)
      then show thesis using refused assms Inr add add_refused [of E tx Local "rx_pool ctx" e pool]
        by (auto simp: rpc_send_raw_transaction_def)
    next
      case q: (Inr h)
      then show thesis
        using admitted [of tx] assms Inr add add_admitted [of E tx Local "rx_pool ctx" h pool]
        by (auto simp: rpc_send_raw_transaction_def submitted_def emit_def)
    qed
  qed
qed

lemma rpc_method_cases:
  assumes "rpc_method E R method params ctx = Some (r, ctx')"
  obtains (pure) "ctx' = ctx"
  | (sent) tx where "method = ''eth_sendRawTransaction''" "r = Inr (hash_json E (tx_hash E tx))" "submitted E tx ctx ctx'"
proof (cases "method = ''eth_sendRawTransaction''")
  case True
  then have "rpc_send_raw_transaction E R params ctx = (r, ctx')" using assms by (simp add: rpc_method_def)
  then show thesis by (cases rule: send_raw_cases) (use True pure sent in auto)
next
  case False
  then have "ctx' = ctx" using assms unfolding rpc_method_def by (auto split: if_splits)
  then show thesis by (rule pure)
qed

lemma rpc_handle_cases:
  assumes "rpc_handle E R method params ctx = Some (r, ctx')"
  obtains (barred) "method_barred ctx method" "r = Inl (MethodNotFound method)"
      "ctx' = ctx \<lparr> rx_metrics := rx_metrics ctx' \<rparr>"
  | (pure) "\<not> method_barred ctx method" "rpc_method E R method params ctx = Some (r, ctx)"
      "ctx' = ctx \<lparr> rx_metrics := rx_metrics ctx' \<rparr>"
  | (sent) tx where "\<not> method_barred ctx method" "method = ''eth_sendRawTransaction''"
      "r = Inr (hash_json E (tx_hash E tx))" "submitted E tx ctx ctx'"
proof (cases "method_barred ctx method")
  case True
  then have "r = Inl (MethodNotFound method)" and
    ctx': "ctx' = ctx \<lparr> rx_metrics := rpc_error_count method (-32601) (rpc_request method (rx_metrics ctx)) \<rparr>"
    using assms by (simp_all add: rpc_handle_def)
  then show thesis by (intro barred True) simp_all
next
  case False
  then obtain c where m: "rpc_method E R method params ctx = Some (r, c)" and c: "ctx' = rpc_count method r c"
    using assms by (auto simp: rpc_handle_def)
  from m show thesis
  proof (cases rule: rpc_method_cases)
    case pure
    then show thesis by (intro that(2) False) (use m c in \<open>simp_all add: rpc_count_def\<close>)
  next
    case (sent tx)
    moreover have "submitted E tx ctx ctx'" using submitted_metrics [OF sent(3)] by (simp add: c rpc_count_def)
    ultimately show thesis using that(3) False by blast
  qed
qed

lemma bump_get: "hm_get (bump k m) k = Some ((case hm_get m k of None \<Rightarrow> 0 | Some n \<Rightarrow> n) + 1)"
  "k' \<noteq> k \<Longrightarrow> hm_get (bump k m) k' = hm_get m k'"
  by (simp_all add: bump_def hm_simps)

section \<open>The interface of a running node\<close>

text \<open>
  The context \<open>run_node\<close> builds: the node's own store, pool, state and events, and a gossip
  callback that queues a broadcast. \<open>lookup\<close> is the catalogue of contract files, and the peer
  identity and count are the network's.
\<close>

definition node_context ::
  "'z core_env_scheme \<Rightarrow> node_file_config \<Rightarrow> secret_key \<Rightarrow> producer option \<Rightarrow> string \<Rightarrow> nat \<Rightarrow>
   (h256 \<Rightarrow> contract_meta option) \<Rightarrow> ivory_metrics \<Rightarrow> 'd node \<Rightarrow> rpc_context" where
  "node_context E cfg key pd peer_id peers lookup metrics nd =
     (with_contract_lookup lookup
       (with_node_info (if pd \<noteq> None then Producer else Follower) (address_from_secret E key) peer_id peers (nc_bootstrap cfg)
         (with_gossip (rpc_context_new (nd_store nd) (nd_pool nd) (nd_live nd) (nc_chain_id cfg)))))
       \<lparr> rx_events := nd_events nd, rx_metrics := metrics \<rparr>"

text \<open>The node after a request: what the context shares with it is the node's.\<close>

definition node_after :: "rpc_context \<Rightarrow> 'd node \<Rightarrow> 'd node" where
  "node_after ctx nd =
     nd \<lparr> nd_store := rx_store ctx, nd_pool := rx_pool ctx, nd_live := rx_state ctx, nd_events := rx_events ctx,
          nd_commands := nd_commands nd @ (case rx_on_tx ctx of None \<Rightarrow> [] | Some txs \<Rightarrow> map BroadcastTx txs) \<rparr>"

lemmas context_defs = node_context_def with_contract_lookup_def with_node_info_def with_gossip_def
  rpc_context_new_def node_after_def

lemma node_after_same:
  assumes "ctx' = (node_context E cfg key pd peer_id peers lookup metrics nd) \<lparr> rx_metrics := rx_metrics ctx' \<rparr>"
  shows "node_after ctx' nd = nd"
  by (subst assms) (simp add: context_defs)

lemma node_after_submitted:
  assumes "submitted E tx (node_context E cfg key pd peer_id peers lookup metrics nd) ctx'"
  shows "node_after ctx' nd = submit_local E tx nd"
proof -
  let ?c = "node_context E cfg key pd peer_id peers lookup metrics nd"
  from assms have add: "add_transaction E tx Local (nd_pool nd) = (Inr (tx_hash E tx), rx_pool ctx')"
    and ctx': "ctx' = ?c \<lparr> rx_pool := rx_pool ctx', rx_on_tx := map_option (\<lambda>txs. txs @ [tx]) (rx_on_tx ?c),
      rx_events := rx_events ?c @ [NewPendingTx (tx_hash E tx)], rx_metrics := rx_metrics ctx' \<rparr>"
    by (simp_all add: submitted_def context_defs)
  show ?thesis
    by (subst ctx') (simp add: context_defs submit_local_def add send_events_def send_command_def)
qed

section \<open>Logs\<close>

lemma heights_set: "n \<in> set (heights a b) \<longleftrightarrow> a \<le> n \<and> n \<le> b"
proof
  assume "n \<in> set (heights a b)"
  then obtain k where k: "n = of_nat k" "unat a \<le> k" "k \<le> unat b" by (auto simp: heights_def)
  then have "unat n = k" using unat_lt [of b] by (simp add: unat_of_nat)
  then show "a \<le> n \<and> n \<le> b" using k by (simp add: word_le_nat_alt)
next
  assume "a \<le> n \<and> n \<le> b"
  then show "n \<in> set (heights a b)"
    unfolding heights_def set_map set_upt
    by (intro image_eqI [of _ _ "unat n"]) (simp_all add: word_le_nat_alt less_Suc_eq_le)
qed

lemma enumerate_set: "set (enumerate 0 xs) = (\<lambda>i. (i, xs ! i)) ` {..<length xs}"
  by (auto simp: in_set_enumerate_eq image_iff)

lemma enumerate_filter_map:
  "x \<in> set (map (\<lambda>(i, y). f i y) (filter (\<lambda>(i, y). P y) (enumerate 0 ys))) \<longleftrightarrow>
     (\<exists>i < length ys. P (ys ! i) \<and> x = f i (ys ! i))"
  by (auto simp: enumerate_set image_iff)

lemma enumerate_concat:
  "x \<in> set (concat (map (\<lambda>(i, y). g i y) (enumerate 0 ys))) \<longleftrightarrow> (\<exists>i < length ys. x \<in> set (g i (ys ! i)))"
  by (auto simp: enumerate_set image_iff)

lemma block_logs_set:
  "x \<in> set (block_logs E addrs n b) \<longleftrightarrow>
     (\<exists>i < length (blk_receipts b). \<exists>j < length (rc_logs (blk_receipts b ! i)).
        \<not> (addrs \<noteq> [] \<and> log_address (rc_logs (blk_receipts b ! i) ! j) \<notin> set addrs) \<and>
        x = log_json E n (block_hash E b) (rc_tx_hash (blk_receipts b ! i)) i j (rc_logs (blk_receipts b ! i) ! j))"
  unfolding block_logs_def Let_def enumerate_concat enumerate_filter_map ..

section \<open>Subscriptions\<close>

inductive ws_reach :: "'z prim_env_scheme \<Rightarrow> ws_state \<Rightarrow> bool" for E where
  wr_new: "ws_reach E ws_new"
| wr_subscribe: "ws_reach E w \<Longrightarrow> ws_reach E (snd (subscribe E rid params w))"
| wr_unsubscribe: "ws_reach E w \<Longrightarrow> ws_reach E (snd (unsubscribe rid params w))"

definition issued :: "u64 \<Rightarrow> string \<Rightarrow> bool" where
  "issued nxt x \<longleftrightarrow> (\<exists>i. x = ''0x'' @ hex_string (unat i) \<and> (i < nxt \<or> nxt = - 1))"

definition ws_inv :: "ws_state \<Rightarrow> bool" where
  "ws_inv w \<longleftrightarrow> hm_wf (ws_subs w) \<and> (\<forall>x. hm_get (ws_subs w) x \<noteq> None \<longrightarrow> issued (ws_next_id w) x)"

lemma subscribe_cases:
  assumes "subscribe E rid params w = (resp, w')"
  obtains (refused) e where "resp = response_error rid e" "w' = w"
  | (added) sub_id kind where "sub_id = ''0x'' @ hex_string (unat (ws_next_id w))"
      "resp = response_success rid (JString sub_id)"
      "w' = \<lparr> ws_subs = hm_insert sub_id kind (ws_subs w), ws_next_id = saturating_add_w (ws_next_id w) 1 \<rparr>"
proof (cases "as_array params")
  case None
  then show thesis using refused assms by (auto simp: subscribe_def)
next
  case arr: (Some arr)
  show thesis
  proof (cases "Option.bind (nth_opt arr 0) as_str")
    case None
    then show thesis using refused assms arr by (auto simp: subscribe_def)
  next
    case topic: (Some topic)
    show thesis
    proof (cases "sub_kind_of E topic arr")
      case None
      then show thesis using refused assms arr topic by (auto simp: subscribe_def)
    next
      case (Some kind)
      then show thesis using added [OF refl, of kind] assms arr topic by (simp add: subscribe_def Let_def)
    qed
  qed
qed

lemma sat_less: "i < (n :: u64) \<Longrightarrow> i < saturating_add_w n 1" "n < saturating_add_w n (1 :: u64) \<or> saturating_add_w n 1 = (- 1 :: u64)"
  subgoal by (rule order.strict_trans2 [OF _ saturating_succ_le])
  subgoal using sat_succ [of n] by (cases "n = - 1") (auto simp: word_less_nat_alt saturating_add_w_def checked_add_w_def unat_minus_one_word_max)
  done

lemma issued_succ:
  "issued n x \<Longrightarrow> issued (saturating_add_w n 1) x" "issued (saturating_add_w n 1) (''0x'' @ hex_string (unat n))"
proof -
  have "saturating_add_w n 1 = (- 1 :: u64)" if "n = - 1" using saturating_succ_le [of n] that by (simp add: word_order.extremum_unique)
  then show "issued n x \<Longrightarrow> issued (saturating_add_w n 1) x" unfolding issued_def using sat_less(1) by blast
  show "issued (saturating_add_w n 1) (''0x'' @ hex_string (unat n))" unfolding issued_def using sat_less(2) by blast
qed

lemma next_unissued: "n \<noteq> - 1 \<Longrightarrow> \<not> issued n (''0x'' @ hex_string (unat n))"
proof
  assume "n \<noteq> - 1" "issued n (''0x'' @ hex_string (unat n))"
  then obtain i where "hex_string (unat n) = hex_string (unat i)" "i < n" by (auto simp: issued_def)
  then have "unat n = unat i" by (intro hex_string_inj)
  then show False using \<open>i < n\<close> by (simp add: word_less_nat_alt)
qed

lemma ws_reach_inv: "ws_reach E w \<Longrightarrow> ws_inv w"
proof (induction rule: ws_reach.induct)
  case wr_new
  then show ?case by (simp add: ws_inv_def ws_new_def hm_simps)
next
  case (wr_subscribe w rid params)
  obtain resp w' where s: "subscribe E rid params w = (resp, w')" by fastforce
  then show ?case
  proof (cases rule: subscribe_cases)
    case refused
    then show ?thesis using s wr_subscribe by simp
  next
    case (added sub_id kind)
    have "ws_inv w'"
      using wr_subscribe.IH issued_succ [of "ws_next_id w"] unfolding ws_inv_def added(3)
      by (simp add: hm_simps added(1))
    then show ?thesis using s by simp
  qed
next
  case (wr_unsubscribe w rid params)
  then show ?case
    by (simp add: ws_inv_def unsubscribe_def hm_simps split: option.split)
qed

section \<open>Views of a request\<close>

lemma rpc_handle_metrics:
  assumes "rpc_handle E R method params ctx = Some (r, ctx')"
  shows "rx_metrics ctx' = (case r of
        Inr _ \<Rightarrow> rpc_request method (rx_metrics ctx)
      | Inl e \<Rightarrow> rpc_error_count method (je_code (json_rpc_error_from e)) (rpc_request method (rx_metrics ctx)))"
proof (cases "method_barred ctx method")
  case True
  then show ?thesis using assms by (auto simp: rpc_handle_def method_not_found_def)
next
  case False
  then obtain c where m: "rpc_method E R method params ctx = Some (r, c)" and c: "ctx' = rpc_count method r c"
    using assms by (auto simp: rpc_handle_def)
  have "rx_metrics c = rx_metrics ctx" using m
  proof (cases rule: rpc_method_cases)
    case (sent tx)
    have "rpc_send_raw_transaction E R params ctx = (r, c)" using m sent(1) by (simp add: rpc_method_def)
    then show ?thesis
      by (auto simp: rpc_send_raw_transaction_def emit_def split: sum.splits prod.splits)
  qed simp
  then show ?thesis using c by (simp add: rpc_count_def Let_def)
qed

text \<open>The allowlist is looked at before the method and never by it.\<close>

lemmas method_defs = rpc_chain_id_def rpc_block_number_def rpc_get_balance_def rpc_get_code_def rpc_get_storage_at_def
  rpc_get_block_by_number_def rpc_get_block_by_hash_def rpc_get_transaction_by_hash_def rpc_get_transaction_receipt_def
  rpc_get_transaction_count_def rpc_call_def rpc_estimate_gas_def rpc_simulate_def rpc_get_logs_def rpc_get_proof_def
  rpc_node_info_def rpc_list_contracts_def rpc_get_header_by_number_def

lemma allow_fields:
  "rx_store (ctx \<lparr> rx_allow_methods := a \<rparr>) = rx_store ctx" "rx_pool (ctx \<lparr> rx_allow_methods := a \<rparr>) = rx_pool ctx"
  "rx_state (ctx \<lparr> rx_allow_methods := a \<rparr>) = rx_state ctx" "rx_chain_id (ctx \<lparr> rx_allow_methods := a \<rparr>) = rx_chain_id ctx"
  "rx_role (ctx \<lparr> rx_allow_methods := a \<rparr>) = rx_role ctx" "rx_address (ctx \<lparr> rx_allow_methods := a \<rparr>) = rx_address ctx"
  "rx_peer_id (ctx \<lparr> rx_allow_methods := a \<rparr>) = rx_peer_id ctx" "rx_peers (ctx \<lparr> rx_allow_methods := a \<rparr>) = rx_peers ctx"
  "rx_bootstrap (ctx \<lparr> rx_allow_methods := a \<rparr>) = rx_bootstrap ctx"
  "rx_contract_lookup (ctx \<lparr> rx_allow_methods := a \<rparr>) = rx_contract_lookup ctx"
  by simp_all

lemma allow_tags:
  "block_by_tag (ctx \<lparr> rx_allow_methods := a \<rparr>) = block_by_tag ctx"
  "contract_row E (ctx \<lparr> rx_allow_methods := a \<rparr>) = contract_row E ctx"
  unfolding block_by_tag_def [abs_def] contract_row_def [abs_def] allow_fields by (rule refl)+

lemma allow_views:
  "state_for_tag E (ctx \<lparr> rx_allow_methods := a \<rparr>) = state_for_tag E ctx"
  "range_end (ctx \<lparr> rx_allow_methods := a \<rparr>) = range_end ctx"
  unfolding state_for_tag_def [abs_def] range_end_def [abs_def] allow_tags allow_fields by (rule refl)+

lemma allow_methods:
  "rpc_chain_id (ctx \<lparr> rx_allow_methods := a \<rparr>) = rpc_chain_id ctx"
  "rpc_block_number (ctx \<lparr> rx_allow_methods := a \<rparr>) = rpc_block_number ctx"
  "rpc_get_balance E params (ctx \<lparr> rx_allow_methods := a \<rparr>) = rpc_get_balance E params ctx"
  "rpc_get_code E params (ctx \<lparr> rx_allow_methods := a \<rparr>) = rpc_get_code E params ctx"
  "rpc_get_storage_at E params (ctx \<lparr> rx_allow_methods := a \<rparr>) = rpc_get_storage_at E params ctx"
  "rpc_get_block_by_number E params (ctx \<lparr> rx_allow_methods := a \<rparr>) = rpc_get_block_by_number E params ctx"
  "rpc_get_block_by_hash E params (ctx \<lparr> rx_allow_methods := a \<rparr>) = rpc_get_block_by_hash E params ctx"
  "rpc_get_transaction_by_hash E params (ctx \<lparr> rx_allow_methods := a \<rparr>) = rpc_get_transaction_by_hash E params ctx"
  "rpc_get_transaction_receipt E params (ctx \<lparr> rx_allow_methods := a \<rparr>) = rpc_get_transaction_receipt E params ctx"
  "rpc_get_transaction_count E params (ctx \<lparr> rx_allow_methods := a \<rparr>) = rpc_get_transaction_count E params ctx"
  "rpc_call V R params (ctx \<lparr> rx_allow_methods := a \<rparr>) = rpc_call V R params ctx"
  "rpc_estimate_gas V R params (ctx \<lparr> rx_allow_methods := a \<rparr>) = rpc_estimate_gas V R params ctx"
  "rpc_get_logs E params (ctx \<lparr> rx_allow_methods := a \<rparr>) = rpc_get_logs E params ctx"
  "rpc_get_proof S params (ctx \<lparr> rx_allow_methods := a \<rparr>) = rpc_get_proof S params ctx"
  "rpc_node_info E (ctx \<lparr> rx_allow_methods := a \<rparr>) = rpc_node_info E ctx"
  "rpc_list_contracts E (ctx \<lparr> rx_allow_methods := a \<rparr>) = rpc_list_contracts E ctx"
  "rpc_get_header_by_number E params (ctx \<lparr> rx_allow_methods := a \<rparr>) = rpc_get_header_by_number E params ctx"
  unfolding method_defs allow_tags allow_views allow_fields by (rule refl)+

lemma rpc_method_allow:
  assumes "method \<noteq> ''eth_sendRawTransaction''"
  shows "map_option fst (rpc_method E R method params (ctx \<lparr> rx_allow_methods := a \<rparr>)) =
    map_option fst (rpc_method E R method params ctx)"
  using assms unfolding rpc_method_def allow_methods
  by (simp add: option.map_comp comp_def)

lemma submitted_frame: "submitted E tx ctx ctx' \<Longrightarrow> rx_store ctx' = rx_store ctx \<and> rx_state ctx' = rx_state ctx"
  by (cases ctx; cases ctx') (simp add: submitted_def)

lemma metrics_frame:
  "ctx' = ctx \<lparr> rx_metrics := rx_metrics ctx' \<rparr> \<Longrightarrow> rx_store ctx' = rx_store ctx \<and> rx_state ctx' = rx_state ctx"
  by (cases ctx; cases ctx') simp

lemma context_frame:
  "rx_store (node_context E cfg key pd peer_id peers lookup metrics nd) = nd_store nd"
  "rx_state (node_context E cfg key pd peer_id peers lookup metrics nd) = nd_live nd"
  by (simp_all add: context_defs)

lemma set_option_case: "x \<in> set (case m of None \<Rightarrow> [] | Some y \<Rightarrow> f y) \<longleftrightarrow> (\<exists>y. m = Some y \<and> x \<in> set (f y))"
  by (cases m) simp_all

lemma scan_logs_set:
  "x \<in> set (scan_logs E st addrs a b) \<longleftrightarrow>
     (\<exists>n blk i j. a \<le> n \<and> n \<le> b \<and> get_block_by_number st n = Some blk \<and>
       i < length (blk_receipts blk) \<and> j < length (rc_logs (blk_receipts blk ! i)) \<and>
       (addrs = [] \<or> log_address (rc_logs (blk_receipts blk ! i) ! j) \<in> set addrs) \<and>
       x = log_json E n (block_hash E blk) (rc_tx_hash (blk_receipts blk ! i)) i j (rc_logs (blk_receipts blk ! i) ! j))"
proof -
  have "x \<in> set (scan_logs E st addrs a b) \<longleftrightarrow>
      (\<exists>n. a \<le> n \<and> n \<le> b \<and> x \<in> set (case get_block_by_number st n of None \<Rightarrow> [] | Some blk \<Rightarrow> block_logs E addrs n blk))"
    unfolding scan_logs_def set_concat set_map by (auto simp: heights_set)
  also have "\<dots> \<longleftrightarrow> (\<exists>n blk. a \<le> n \<and> n \<le> b \<and> get_block_by_number st n = Some blk \<and> x \<in> set (block_logs E addrs n blk))"
    unfolding set_option_case by blast
  finally show ?thesis unfolding block_logs_set by blast
qed

text \<open>
  The height that a bound of a log query denotes, given the head: a number itself, \<open>earliest\<close> the
  height of the block filed under 0, any other tag the head's, and no bound the default.
\<close>

definition bound_height :: "block_store \<Rightarrow> block \<Rightarrow> u64 \<Rightarrow> json option \<Rightarrow> u64 \<Rightarrow> bool" where
  "bound_height st hb absent mv n \<longleftrightarrow>
     mv = None \<and> n = absent \<or>
     (\<exists>v. mv = Some v \<and>
        (parse_block_id v = Inr (Number n) \<or>
         parse_block_id v = Inr (Tag Earliest) \<and>
           (case get_block_by_number st 0 of Some b \<Rightarrow> n = hd_number (blk_header b) | None \<Rightarrow> n = absent) \<or>
         (\<exists>t. parse_block_id v = Inr (Tag t) \<and> t \<noteq> Earliest \<and> n = hd_number (blk_header hb))))"

lemma range_end_height:
  assumes "optional_id mv = Inr bid" "head_block (rx_store ctx) = Some hb"
  shows "bound_height (rx_store ctx) hb absent mv (range_end ctx absent bid absent)"
proof (cases mv)
  case None
  then show ?thesis using assms(1) by (auto simp: bound_height_def optional_id_def range_end_def)
next
  case (Some v)
  then obtain i where i: "parse_block_id v = Inr i" "bid = Some i"
    using assms(1) by (cases "parse_block_id v") (auto simp: optional_id_def)
  show ?thesis
  proof (cases i)
    case (Tag t)
    then show ?thesis using i Some assms(2)
      by (cases t) (auto simp: bound_height_def range_end_def block_by_tag_def split: option.split)
  qed (use i Some in \<open>auto simp: bound_height_def range_end_def\<close>)
qed

lemma get_logs_scan:
  assumes "rpc_get_logs E params ctx = Inr v"
  shows "\<exists>filt hb a b addrs. as_array params \<noteq> None \<and> nth_opt (the (as_array params)) 0 = Some (JObject filt) \<and>
    head_block (rx_store ctx) = Some hb \<and> bound_height (rx_store ctx) hb 0 (map_of filt ''fromBlock'') a \<and>
    bound_height (rx_store ctx) hb (hd_number (blk_header hb)) (map_of filt ''toBlock'') b \<and>
    a \<le> b \<and> unat b - unat a \<le> 1000 \<and> parse_log_addresses E (map_of filt ''address'') = Inr addrs \<and>
    v = JArray (scan_logs E (rx_store ctx) addrs a b)"
proof -
  have obj: "v0 = JObject ms" if "as_object v0 = Some ms" for v0 ms
    using that by (simp add: as_object_def split: json.splits)
  from assms obtain arr filt hb fid tid where r: "as_array params = Some arr"
    "Option.bind (nth_opt arr 0) as_object = Some filt" "head_block (rx_store ctx) = Some hb"
    "optional_id (map_of filt ''fromBlock'') = Inr fid" "optional_id (map_of filt ''toBlock'') = Inr tid"
    and rest: "(let a = range_end ctx 0 fid 0; b = range_end ctx (hd_number (blk_header hb)) tid (hd_number (blk_header hb)) in
      if b < a then Inl (InvalidParams ''toBlock < fromBlock'')
      else if 1000 < saturating_sub_w b a then Inl (InvalidParams ''log scan exceeds 1000 blocks'')
      else try_then (parse_log_addresses E (map_of filt ''address'')) (\<lambda>addrs.
        Inr (JArray (scan_logs E (rx_store ctx) addrs a b)))) = Inr v"
    by (auto simp: rpc_get_logs_def results params_array_def Let_def)
  define a where "a = range_end ctx 0 fid 0"
  define b where "b = range_end ctx (hd_number (blk_header hb)) tid (hd_number (blk_header hb))"
  have le: "a \<le> b" "\<not> 1000 < saturating_sub_w b a" using rest by (auto simp: Let_def a_def b_def split: if_splits)
  then obtain addrs where "parse_log_addresses E (map_of filt ''address'') = Inr addrs"
    "v = JArray (scan_logs E (rx_store ctx) addrs a b)"
    using rest unfolding Let_def a_def [symmetric] b_def [symmetric] if_not_P [OF leD [OF le(1)]] if_not_P [OF le(2)] results
    by auto
  moreover have "unat b - unat a \<le> 1000"
    using le by (simp add: word_less_nat_alt saturating_sub_w_val)
  moreover have "nth_opt (the (as_array params)) 0 = Some (JObject filt)" using r(1,2) obj by (auto simp: Option.bind_eq_Some_conv)
  moreover note range_end_height [OF r(4,3), of 0] range_end_height [OF r(5,3), of "hd_number (blk_header hb)"]
  ultimately show ?thesis using r(1,3) le(1) unfolding a_def [symmetric] b_def [symmetric] by auto
qed

section \<open>The restricted interface\<close>

lemma restricted_handle:
  assumes "rx_allow_methods ctx = None"
    and run: "rpc_handle E R method params (with_allow_methods READ_ONLY_METHODS ctx) = Some (r, ctx')"
  shows "ctx' = (with_allow_methods READ_ONLY_METHODS ctx) \<lparr> rx_metrics := rx_metrics ctx' \<rparr>"
    "method \<in> set READ_ONLY_METHODS \<Longrightarrow> map_option fst (rpc_handle E R method params ctx) = Some r"
    "method \<notin> set READ_ONLY_METHODS \<Longrightarrow> r = Inl (MethodNotFound method)"
proof -
  have "ctx' = (with_allow_methods READ_ONLY_METHODS ctx) \<lparr> rx_metrics := rx_metrics ctx' \<rparr> \<and>
    (if method \<in> set READ_ONLY_METHODS then map_option fst (rpc_handle E R method params ctx) = Some r
     else r = Inl (MethodNotFound method))"
    using run
  proof (cases rule: rpc_handle_cases)
    case barred
    then show ?thesis by (simp add: method_barred_def with_allow_methods_def)
  next
    case pure
    have listed: "method \<in> set READ_ONLY_METHODS" using pure(1) by (simp add: method_barred_def with_allow_methods_def)
    then have "method \<noteq> ''eth_sendRawTransaction''" by (auto simp: READ_ONLY_METHODS_def)
    then have "map_option fst (rpc_method E R method params ctx) =
        map_option fst (rpc_method E R method params (ctx \<lparr> rx_allow_methods := Some READ_ONLY_METHODS \<rparr>))"
      by (rule rpc_method_allow [symmetric])
    also have "\<dots> = Some r" using pure(2) by (simp add: with_allow_methods_def)
    finally have "map_option fst (rpc_method E R method params ctx) = Some r" .
    moreover have "map_option fst (rpc_handle E R method params ctx) = map_option fst (rpc_method E R method params ctx)"
      using assms(1) by (simp add: rpc_handle_def method_barred_def option.map_comp comp_def case_prod_beta)
    ultimately show ?thesis using pure(3) listed by simp
  next
    case (sent tx)
    then show ?thesis by (simp add: method_barred_def with_allow_methods_def READ_ONLY_METHODS_def)
  qed
  then show "ctx' = (with_allow_methods READ_ONLY_METHODS ctx) \<lparr> rx_metrics := rx_metrics ctx' \<rparr>"
    "method \<in> set READ_ONLY_METHODS \<Longrightarrow> map_option fst (rpc_handle E R method params ctx) = Some r"
    "method \<notin> set READ_ONLY_METHODS \<Longrightarrow> r = Inl (MethodNotFound method)" by (simp_all split: if_splits)
qed

lemma restricted_dispatch:
  assumes "rx_allow_methods ctx = None"
    and "dispatch E R req (with_allow_methods READ_ONLY_METHODS ctx) = Some (resp, ctx')"
  shows "ctx' = (with_allow_methods READ_ONLY_METHODS ctx) \<lparr> rx_metrics := rx_metrics ctx' \<rparr> \<and>
    (if jq_method req \<in> set READ_ONLY_METHODS then map_option fst (dispatch E R req ctx) = Some resp
     else resp = response_error (jq_id req) (json_rpc_error_from (MethodNotFound (jq_method req))))"
proof -
  obtain r where run: "rpc_handle E R (jq_method req) (jq_params req) (with_allow_methods READ_ONLY_METHODS ctx) = Some (r, ctx')"
    and resp: "resp = (case r of Inr v \<Rightarrow> response_success (jq_id req) v
       | Inl e \<Rightarrow> response_error (jq_id req) (json_rpc_error_from e))"
    using assms(2) by (auto simp: dispatch_def)
  note h = restricted_handle [OF assms(1) run]
  show ?thesis
  proof (cases "jq_method req \<in> set READ_ONLY_METHODS")
    case True
    then obtain c where "rpc_handle E R (jq_method req) (jq_params req) ctx = Some (r, c)" using h(2) by auto
    then show ?thesis using h(1) True resp by (simp add: dispatch_def)
  qed (use h(1,3) resp in simp)
qed

section \<open>A sample interface\<close>

definition ref_rpc :: rpc_env where
  "ref_rpc =
     \<lparr> hex_error = (\<lambda>s. ''invalid hex''),
       unbin_tx = (\<lambda>bs. case run_decoder dec_tx bs of None \<Rightarrow> Inl ''invalid transaction'' | Some tx \<Rightarrow> Inr tx),
       de_transaction_request = (\<lambda>v. Inl ''not a call object''),
       de_json_rpc_request = (\<lambda>v. Inl ''not a request'') \<rparr>"

definition demo_context :: rpc_context where
  "demo_context = with_gossip (rpc_context_new (demo_store ref_disk state_new) pool_new state_new 7)"

definition demo_raw :: json where
  "demo_raw = JArray [JString (''0x'' @ hex_encode ref_disk (enc_tx (signed_transfer ref_disk sample_key [2] 0 U256_ONE 21000)))]"

lemma demo_head: "head_block (demo_store ref_disk state_new) = Some (demo_genesis ref_disk state_new)"
  by (simp add: head_block_def demo_disk get_block_def hm_get_def)

lemma demo_send:
  "\<exists>ctx'. rpc_handle ref_disk ref_rpc ''eth_sendRawTransaction'' demo_raw demo_context =
     Some (Inr (hash_json ref_disk (tx_hash ref_disk (signed_transfer ref_disk sample_key [2] 0 U256_ONE 21000))), ctx') \<and>
     pending_count (rx_pool ctx') = 1"
proof -
  let ?tx = "signed_transfer ref_disk sample_key [2] 0 U256_ONE 21000"
  have tx: "recover_sender ref_disk ?tx = Inr (address_from_secret ref_disk sample_key)" "tx_gas ?tx = 21000" "tx_nonce ?tx = 0"
    by (simp_all add: signed_transfer_def signed_tx_def sign_transaction_recovers ref_disk_ed25519_laws)
  obtain p where p: "add_transaction ref_disk ?tx Local pool_new = (Inr (tx_hash ref_disk ?tx), p)" "pending_count p = 1"
    using first_tx [OF tx(1) eq_refl [OF tx(2) [symmetric]] tx(3), of Local] by blast
  have un: "unbin_tx ref_rpc (enc_tx ?tx) = Inr ?tx" by (simp add: ref_rpc_def codec_roundtrip [OF codec_tx])
  have "decode_hex ref_disk ref_rpc (''0x'' @ hex_encode ref_disk (enc_tx ?tx)) = Inr (enc_tx ?tx)"
    by (simp add: decode_hex_def hex_laws_decode_encode [OF ref_disk_hex_laws])
  then have "rpc_send_raw_transaction ref_disk ref_rpc demo_raw demo_context = (Inr (hash_json ref_disk (tx_hash ref_disk ?tx)),
      emit (NewPendingTx (tx_hash ref_disk ?tx)) (demo_context \<lparr> rx_pool := p, rx_on_tx := Some [?tx] \<rparr>))"
    using p(1) un
    by (simp add: rpc_send_raw_transaction_def demo_raw_def parse_string_at_def params_array_def as_array_def as_str_def nth_opt_def
        demo_context_def with_gossip_def rpc_context_new_def)
  moreover have "\<not> method_barred demo_context m" for m
    by (simp add: method_barred_def demo_context_def with_gossip_def rpc_context_new_def)
  ultimately show ?thesis using p(2) by (simp add: rpc_handle_def rpc_method_def rpc_count_def emit_def)
qed

section \<open>Properties\<close>

text \<open>
  C13: what a request can change. Whatever the method and its parameters, a request that
  returns counts itself, and its error code when it failed; beyond the counters it changes
  nothing, except that \<open>eth_sendRawTransaction\<close>, where it is not barred, may admit one
  transaction to the pool, hand it to the gossip callback once, announce it once and answer
  with its hash. Store and state never change.
\<close>

theorem rpc_handle_effects:
  assumes "rpc_handle E R method params ctx = Some (r, ctx')"
  shows "(ctx' = ctx \<lparr> rx_metrics := rx_metrics ctx' \<rparr> \<or>
      \<not> method_barred ctx method \<and> method = ''eth_sendRawTransaction'' \<and>
        (\<exists>tx. r = Inr (hash_json E (tx_hash E tx)) \<and> submitted E tx ctx ctx')) \<and>
    rx_metrics ctx' = (case r of
        Inr _ \<Rightarrow> rpc_request method (rx_metrics ctx)
      | Inl e \<Rightarrow> rpc_error_count method (je_code (json_rpc_error_from e)) (rpc_request method (rx_metrics ctx)))"
proof
  show "ctx' = ctx \<lparr> rx_metrics := rx_metrics ctx' \<rparr> \<or>
      \<not> method_barred ctx method \<and> method = ''eth_sendRawTransaction'' \<and>
        (\<exists>tx. r = Inr (hash_json E (tx_hash E tx)) \<and> submitted E tx ctx ctx')"
    using assms by (cases rule: rpc_handle_cases) blast+
  show "rx_metrics ctx' = (case r of
        Inr _ \<Rightarrow> rpc_request method (rx_metrics ctx)
      | Inl e \<Rightarrow> rpc_error_count method (je_code (json_rpc_error_from e)) (rpc_request method (rx_metrics ctx)))"
    using rpc_handle_metrics [OF assms] .
qed

theorem rpc_handle_effects_witness:
  "\<exists>h ctx'. rpc_handle ref_disk ref_rpc ''eth_sendRawTransaction'' demo_raw demo_context = Some (Inr h, ctx') \<and>
     pending_count (rx_pool ctx') = 1 \<and> rx_metrics ctx' = rpc_request ''eth_sendRawTransaction'' (rx_metrics demo_context)"
proof -
  obtain h ctx' where run: "rpc_handle ref_disk ref_rpc ''eth_sendRawTransaction'' demo_raw demo_context = Some (Inr h, ctx')"
    "pending_count (rx_pool ctx') = 1"
    using demo_send by blast
  from rpc_handle_effects [OF run(1)] run show ?thesis by auto
qed

text \<open>
  C22: the read-only listener only reads. A context restricted to \<open>READ_ONLY_METHODS\<close> answers a
  request over HTTP for any other method with "method not found" and everything else, requests
  that do not parse included, as the full interface does. Over WebSocket it does the same, but
  \<open>eth_subscribe\<close> and \<open>eth_unsubscribe\<close>, which are not in the list, are answered as on the full
  interface, from the connection's own subscriptions; no other message changes these. Neither
  way changes pool, store, state, events or gossip.
\<close>

theorem read_only_reads:
  assumes "rx_allow_methods ctx = None" "ro = with_allow_methods READ_ONLY_METHODS ctx"
  shows "(\<forall>body resp ctx'. http_jsonrpc E R body ro = Some (resp, ctx') \<longrightarrow>
      ctx' = ro \<lparr> rx_metrics := rx_metrics ctx' \<rparr> \<and>
      (if \<exists>v req. body = Some v \<and> de_json_rpc_request R v = Inr req \<and> jq_method req \<notin> set READ_ONLY_METHODS
       then \<exists>v req. body = Some v \<and> de_json_rpc_request R v = Inr req \<and>
         resp = response_error (jq_id req) (json_rpc_error_from (MethodNotFound (jq_method req)))
       else map_option fst (http_jsonrpc E R body ctx) = Some resp)) \<and>
    (\<forall>msg w resp w' ctx'. handle_ws_message E R msg w ro = Some (resp, w', ctx') \<longrightarrow>
      ctx' = ro \<lparr> rx_metrics := rx_metrics ctx' \<rparr> \<and>
      (if \<exists>req. msg = Some req \<and> jq_method req \<notin> set READ_ONLY_METHODS \<union> {''eth_subscribe'', ''eth_unsubscribe''}
       then w' = w \<and> resp = response_error (jq_id (the msg)) (json_rpc_error_from (MethodNotFound (jq_method (the msg))))
       else map_option (\<lambda>(resp, w', _). (resp, w')) (handle_ws_message E R msg w ctx) = Some (resp, w') \<and>
         ((\<exists>req. msg = Some req \<and> jq_method req \<in> {''eth_subscribe'', ''eth_unsubscribe''}) \<or> w' = w)))"
proof (intro conjI [of "\<forall>body. _ body"] allI impI)
  fix body resp ctx'
  assume run: "http_jsonrpc E R body ro = Some (resp, ctx')"
  show "ctx' = ro \<lparr> rx_metrics := rx_metrics ctx' \<rparr> \<and>
      (if \<exists>v req. body = Some v \<and> de_json_rpc_request R v = Inr req \<and> jq_method req \<notin> set READ_ONLY_METHODS
       then \<exists>v req. body = Some v \<and> de_json_rpc_request R v = Inr req \<and>
         resp = response_error (jq_id req) (json_rpc_error_from (MethodNotFound (jq_method req)))
       else map_option fst (http_jsonrpc E R body ctx) = Some resp)"
  proof (cases "\<exists>v req. body = Some v \<and> de_json_rpc_request R v = Inr req")
    case True
    then obtain v req where req: "body = Some v" "de_json_rpc_request R v = Inr req" by blast
    then have "dispatch E R req (with_allow_methods READ_ONLY_METHODS ctx) = Some (resp, ctx')"
      using run assms(2) by (simp add: http_jsonrpc_def)
    from restricted_dispatch [OF assms(1) this] show ?thesis using req assms(2) by (simp add: http_jsonrpc_def)
  next
    case False
    then show ?thesis using run by (auto simp: http_jsonrpc_def split: option.splits sum.splits)
  qed
next
  fix msg w resp w' ctx'
  assume run: "handle_ws_message E R msg w ro = Some (resp, w', ctx')"
  show "ctx' = ro \<lparr> rx_metrics := rx_metrics ctx' \<rparr> \<and>
      (if \<exists>req. msg = Some req \<and> jq_method req \<notin> set READ_ONLY_METHODS \<union> {''eth_subscribe'', ''eth_unsubscribe''}
       then w' = w \<and> resp = response_error (jq_id (the msg)) (json_rpc_error_from (MethodNotFound (jq_method (the msg))))
       else map_option (\<lambda>(resp, w', _). (resp, w')) (handle_ws_message E R msg w ctx) = Some (resp, w') \<and>
         ((\<exists>req. msg = Some req \<and> jq_method req \<in> {''eth_subscribe'', ''eth_unsubscribe''}) \<or> w' = w))"
  proof (cases msg)
    case (Some req)
    then show ?thesis using run restricted_dispatch [OF assms(1), of E R req] unfolding assms(2)
      by (auto simp: handle_ws_message_def case_prod_beta option.map_comp comp_def split: if_splits)
  qed (use run in \<open>simp add: handle_ws_message_def\<close>)
qed

theorem read_only_reads_witness:
  "\<exists>resp ctx'. handle_ws_message ref_disk ref_rpc
       (Some \<lparr> jq_jsonrpc = ''2.0'', jq_method = ''eth_sendRawTransaction'', jq_params = demo_raw, jq_id = JNull \<rparr>) ws_new
       (with_allow_methods READ_ONLY_METHODS demo_context) = Some (resp, ws_new, ctx') \<and>
     resp = response_error JNull (json_rpc_error_from (MethodNotFound ''eth_sendRawTransaction'')) \<and>
     pending_count (rx_pool ctx') = 0"
proof -
  let ?q = "\<lparr> jq_jsonrpc = ''2.0'', jq_method = ''eth_sendRawTransaction'', jq_params = demo_raw, jq_id = JNull \<rparr>"
  have no: "''eth_sendRawTransaction'' \<notin> set READ_ONLY_METHODS" by (simp add: READ_ONLY_METHODS_def)
  have open_ctx: "rx_allow_methods demo_context = None" by (simp add: demo_context_def with_gossip_def rpc_context_new_def)
  obtain resp w' ctx' where run: "handle_ws_message ref_disk ref_rpc (Some ?q) ws_new
      (with_allow_methods READ_ONLY_METHODS demo_context) = Some (resp, w', ctx')"
    using no by (simp add: handle_ws_message_def dispatch_def rpc_handle_def method_barred_def with_allow_methods_def)
  note res = conjunct2 [OF read_only_reads [OF open_ctx refl, of ref_disk ref_rpc], rule_format, OF run]
  have "rx_pool ctx' = pool_new"
    by (subst conjunct1 [OF res]) (simp add: demo_context_def with_gossip_def rpc_context_new_def with_allow_methods_def)
  then show ?thesis using run res no by (simp add: pending_count_def pool_new_def pool_with_config_def)
qed

text \<open>
  C21: a served node stays a reachable node. Requests to a running node, mixed with its events
  and ticks in any order, lead only to states the node reaches by events, ticks and local
  submissions; so everything shown of reachable nodes holds for a node that is being served.
\<close>

theorem served_node_reachable:
  assumes "node_reach E cfg gen key nd pd"
    and "rpc_handle E R method params (node_context E cfg key pd peer_id peers lookup metrics nd) = Some (r, ctx')"
  shows "node_reach E cfg gen key (node_after ctx' nd) pd \<and> rx_store ctx' = nd_store nd \<and> rx_state ctx' = nd_live nd"
  using assms(2)
proof (cases rule: rpc_handle_cases)
  case (sent tx)
  then show ?thesis using node_after_submitted [OF sent(4)] nr_submit [OF assms(1)] submitted_frame [OF sent(4)]
    by (simp add: context_frame)
next
  case barred
  show ?thesis using assms(1) node_after_same [OF barred(3)] metrics_frame [OF barred(3)] by (simp add: context_frame)
next
  case pure
  show ?thesis using assms(1) node_after_same [OF pure(3)] metrics_frame [OF pure(3)] by (simp add: context_frame)
qed

theorem served_node_reachable_witness:
  "\<exists>gen nd pd r ctx'. node_reach ref_disk node_file_config_default gen sample_key nd pd \<and>
     rpc_handle ref_disk ref_rpc ''eth_blockNumber'' (JArray [])
       (node_context ref_disk node_file_config_default sample_key pd [] 0 (\<lambda>h. None) \<lparr> im_rpc_requests = [], im_rpc_errors = [] \<rparr> nd)
     = Some (Inr r, ctx') \<and> node_reach ref_disk node_file_config_default gen sample_key (node_after ctx' nd) pd"
proof -
  let ?m = "\<lparr> im_rpc_requests = [], im_rpc_errors = [] \<rparr>"
  obtain gen nd pd g where reach: "node_reach ref_disk node_file_config_default gen sample_key nd (Some pd)"
    and head: "head_block (nd_store nd) = Some g"
    by (rule sample_node)
  define ctx where "ctx = node_context ref_disk node_file_config_default sample_key (Some pd) [] 0 (\<lambda>h. None) ?m nd"
  have "rx_store ctx = nd_store nd" "rx_allow_methods ctx = None" by (simp_all add: ctx_def context_defs)
  then obtain r ctx' where run: "rpc_handle ref_disk ref_rpc ''eth_blockNumber'' (JArray []) ctx = Some (Inr r, ctx')"
    using head by (simp add: rpc_handle_def rpc_method_def rpc_block_number_def method_barred_def)
  from served_node_reachable [OF reach run [unfolded ctx_def]] show ?thesis
    using reach run [unfolded ctx_def] by blast
qed

text \<open>
  C24: a log query is exact. When it succeeds, it has scanned from the height that \<open>fromBlock\<close>
  denotes, 0 when absent, to the one that \<open>toBlock\<close> denotes, the head's when absent, at most
  1,001 heights; and the answer holds an entry for precisely the logs of the canonical blocks in
  that range whose address passes the filter, each with its block, transaction and position.
\<close>

theorem get_logs_exact:
  assumes "rpc_get_logs E params ctx = Inr v"
  shows "\<exists>filt hb a b addrs items. as_array params \<noteq> None \<and> nth_opt (the (as_array params)) 0 = Some (JObject filt) \<and>
    head_block (rx_store ctx) = Some hb \<and> bound_height (rx_store ctx) hb 0 (map_of filt ''fromBlock'') a \<and>
    bound_height (rx_store ctx) hb (hd_number (blk_header hb)) (map_of filt ''toBlock'') b \<and>
    a \<le> b \<and> unat b - unat a \<le> 1000 \<and> parse_log_addresses E (map_of filt ''address'') = Inr addrs \<and>
    v = JArray items \<and>
    (\<forall>x. x \<in> set items \<longleftrightarrow> (\<exists>n blk i j. a \<le> n \<and> n \<le> b \<and> get_block_by_number (rx_store ctx) n = Some blk \<and>
       i < length (blk_receipts blk) \<and> j < length (rc_logs (blk_receipts blk ! i)) \<and>
       (addrs = [] \<or> log_address (rc_logs (blk_receipts blk ! i) ! j) \<in> set addrs) \<and>
       x = log_json E n (block_hash E blk) (rc_tx_hash (blk_receipts blk ! i)) i j (rc_logs (blk_receipts blk ! i) ! j)))"
proof -
  from get_logs_scan [OF assms] obtain filt hb a b addrs where r: "as_array params \<noteq> None"
    "nth_opt (the (as_array params)) 0 = Some (JObject filt)" "head_block (rx_store ctx) = Some hb"
    "bound_height (rx_store ctx) hb 0 (map_of filt ''fromBlock'') a"
    "bound_height (rx_store ctx) hb (hd_number (blk_header hb)) (map_of filt ''toBlock'') b" "a \<le> b" "unat b - unat a \<le> 1000"
    "parse_log_addresses E (map_of filt ''address'') = Inr addrs" "v = JArray (scan_logs E (rx_store ctx) addrs a b)" by blast
  show ?thesis
    by (intro exI [of _ filt] exI [of _ hb] exI [of _ a] exI [of _ b] exI [of _ addrs] exI [of _ "scan_logs E (rx_store ctx) addrs a b"]
        conjI allI scan_logs_set r)
qed

theorem get_logs_exact_witness:
  "\<exists>v. rpc_get_logs ref_disk (JArray [JObject []]) demo_context = Inr v \<and> v = JArray []"
proof -
  let ?g = "demo_genesis ref_disk state_new"
  have st: "rx_store demo_context = demo_store ref_disk state_new"
    by (simp add: demo_context_def with_gossip_def rpc_context_new_def)
  have "\<exists>v. rpc_get_logs ref_disk (JArray [JObject []]) demo_context = Inr v"
    by (simp add: rpc_get_logs_def params_array_def as_array_def nth_opt_def as_object_def st demo_head Let_def optional_id_def
        range_end_def parse_log_addresses_def demo_fields saturating_sub_w_def checked_sub_w_def)
  then obtain v where v: "rpc_get_logs ref_disk (JArray [JObject []]) demo_context = Inr v" by blast
  have none: "blk_receipts blk = []" if "get_block_by_number (rx_store demo_context) n = Some blk" for n blk
    using that unfolding st
    by (auto simp: get_block_by_number_def get_block_def demo_disk hm_get_def demo_genesis_def split: option.splits if_splits)
  from get_logs_exact [OF v] show ?thesis
  proof (elim exE conjE)
    fix items addrs a b
    assume items: "v = JArray items" and mem: "\<forall>x. x \<in> set items \<longleftrightarrow>
      (\<exists>n blk i j. a \<le> n \<and> n \<le> b \<and> get_block_by_number (rx_store demo_context) n = Some blk \<and>
       i < length (blk_receipts blk) \<and> j < length (rc_logs (blk_receipts blk ! i)) \<and>
       (addrs = [] \<or> log_address (rc_logs (blk_receipts blk ! i) ! j) \<in> set addrs) \<and>
       x = log_json ref_disk n (block_hash ref_disk blk) (rc_tx_hash (blk_receipts blk ! i)) i j (rc_logs (blk_receipts blk ! i) ! j))"
    have "x \<notin> set items" for x
    proof
      assume "x \<in> set items"
      then obtain n blk i where "get_block_by_number (rx_store demo_context) n = Some blk" "i < length (blk_receipts blk)"
        by (auto dest: mem [THEN spec, THEN iffD1])
      then show False using none [of n blk] by simp
    qed
    then have "items = []" by (cases items) auto
    then show ?thesis using v items by simp
  qed
qed

text \<open>
  C26: subscriptions. On a connection that has not exhausted its identifiers, a successful
  \<open>eth_subscribe\<close> answers with an identifier in no use, adds exactly that subscription, and
  \<open>eth_unsubscribe\<close> with that identifier answers true and restores the previous ones.
\<close>

theorem subscribe_unsubscribe:
  assumes "ws_reach E w" "ws_next_id w \<noteq> - 1" "subscribe E rid params w = (resp, w')" "jr_result resp = Some v"
  shows "\<exists>sub_id kind. v = JString sub_id \<and> hm_get (ws_subs w) sub_id = None \<and>
    (\<forall>x. hm_get (ws_subs w') x = (if x = sub_id then Some kind else hm_get (ws_subs w) x)) \<and>
    fst (unsubscribe rid (JArray [v]) w') = response_success rid (JBool True) \<and>
    (\<forall>x. hm_get (ws_subs (snd (unsubscribe rid (JArray [v]) w'))) x = hm_get (ws_subs w) x)"
  using assms(3)
proof (cases rule: subscribe_cases)
  case (refused e)
  then show ?thesis using assms(4) by (simp add: response_error_def)
next
  case (added sub_id kind)
  have wf: "hm_wf (ws_subs w)" "hm_get (ws_subs w) sub_id = None"
    using ws_reach_inv [OF assms(1)] next_unissued [OF assms(2)] by (auto simp: ws_inv_def added(1))
  have "v = JString sub_id" using added(2) assms(4) by (simp add: response_success_def)
  then show ?thesis using wf added(3)
    by (intro exI [of _ sub_id] exI [of _ kind])
      (simp add: unsubscribe_def as_array_def as_str_def nth_opt_def hm_simps)
qed

theorem subscribe_unsubscribe_witness:
  "\<exists>resp w'. subscribe ref_disk JNull (JArray [JString ''newHeads'']) ws_new = (resp, w') \<and>
     jr_result resp = Some (JString ''0x1'') \<and> hm_get (ws_subs w') ''0x1'' = Some NewHeads"
proof -
  obtain resp w' where s: "subscribe ref_disk JNull (JArray [JString ''newHeads'']) ws_new = (resp, w')"
    and r: "jr_result resp = Some (JString ''0x1'')" "hm_get (ws_subs w') ''0x1'' = Some NewHeads"
    by (simp add: subscribe_def as_array_def as_str_def nth_opt_def sub_kind_of_def ws_new_def Let_def response_success_def
        hex_string_unfold hex_digit_def hm_simps)
  from subscribe_unsubscribe [OF wr_new _ s r(1)] show ?thesis using s r by (simp add: ws_new_def)
qed

end
