(* ===== verification/RpcTypes.thy ===== *)
theory RpcTypes
  imports Rpc
begin

text \<open>
  The shape of the results of \<open>crates/ivory-rpc/src/handler.rs\<close>: the JSON types of the interface,
  the result type of every method, and that each method that succeeds returns a value of its type.
\<close>

section \<open>Types\<close>

datatype json_type =
    TQuantity
  | TWord
  | TBytes
  | TText
  | TCount
  | TFlag
  | TNullable json_type
  | TList json_type
  | TRecord "(string \<times> json_type) list"

inductive has_type :: "'z prim_env_scheme \<Rightarrow> json_type \<Rightarrow> json \<Rightarrow> bool" for E where
  ht_quantity: "u64_from_hex_digits (strip_0x s) = Some n \<Longrightarrow> s = encode_qty n \<Longrightarrow> has_type E TQuantity (JString s)"
| ht_word: "s = u256_to_hex E x \<Longrightarrow> has_type E TWord (JString s)"
| ht_bytes: "s = ''0x'' @ hex_encode E bs \<Longrightarrow> has_type E TBytes (JString s)"
| ht_text: "has_type E TText (JString s)"
| ht_count: "has_type E TCount (JNumber (PosInt n))"
| ht_flag: "has_type E TFlag (JBool b)"
| ht_null: "has_type E (TNullable t) JNull"
| ht_value: "has_type E t v \<Longrightarrow> has_type E (TNullable t) v"
| ht_list: "list_all (has_type E t) vs \<Longrightarrow> has_type E (TList t) (JArray vs)"
| ht_record: "list_all2 (\<lambda>f m. fst f = fst m \<and> has_type E (snd f) (snd m)) fs ms \<Longrightarrow> has_type E (TRecord fs) (JObject ms)"
monos list.pred_mono list.rel_mono

inductive_cases has_quantityE: "has_type E TQuantity v"

abbreviation header_type :: "(string \<times> json_type) list" where
  "header_type \<equiv>
     [(''number'', TQuantity), (''hash'', TBytes), (''parentHash'', TBytes), (''miner'', TBytes), (''timestamp'', TQuantity),
      (''gasLimit'', TQuantity), (''gasUsed'', TQuantity), (''stateRoot'', TBytes), (''transactionsRoot'', TBytes),
      (''receiptsRoot'', TBytes)]"

abbreviation log_type :: "(string \<times> json_type) list" where
  "log_type \<equiv> [(''address'', TBytes), (''topics'', TList TBytes), (''data'', TBytes)]"

definition bare_header_type :: json_type where
  "bare_header_type = TRecord (header_type @ [(''difficulty'', TWord), (''extraData'', TBytes)])"

definition block_type :: json_type where
  "block_type = TRecord (header_type @ [(''extraData'', TBytes), (''transactions'', TList TBytes)])"

definition transaction_type :: json_type where
  "transaction_type = TRecord
     [(''hash'', TBytes), (''nonce'', TQuantity), (''blockHash'', TNullable TBytes), (''blockNumber'', TNullable TQuantity),
      (''transactionIndex'', TNullable TQuantity), (''from'', TBytes), (''to'', TNullable TBytes), (''value'', TWord),
      (''gas'', TQuantity), (''gasPrice'', TWord), (''input'', TBytes)]"

definition receipt_type :: json_type where
  "receipt_type = TRecord
     [(''transactionHash'', TBytes), (''transactionIndex'', TQuantity), (''blockHash'', TBytes), (''blockNumber'', TQuantity),
      (''from'', TBytes), (''to'', TNullable TBytes), (''gasUsed'', TQuantity), (''cumulativeGasUsed'', TQuantity),
      (''status'', TQuantity), (''logs'', TList (TRecord log_type)), (''contractAddress'', TNullable TBytes)]"

definition scanned_log_type :: json_type where
  "scanned_log_type = TRecord (log_type @
     [(''blockNumber'', TQuantity), (''blockHash'', TBytes), (''transactionHash'', TBytes), (''transactionIndex'', TQuantity),
      (''logIndex'', TQuantity)])"

definition proof_type :: json_type where
  "proof_type = TRecord
     [(''address'', TBytes), (''accountProof'', TList TBytes), (''balance'', TWord), (''codeHash'', TBytes),
      (''nonce'', TQuantity), (''storageHash'', TBytes),
      (''storageProof'', TList (TRecord [(''key'', TBytes), (''value'', TWord), (''proof'', TList TBytes)]))]"

definition node_info_type :: json_type where
  "node_info_type = TRecord
     [(''role'', TText), (''address'', TBytes), (''chainId'', TQuantity), (''peerId'', TText), (''peers'', TCount),
      (''pending'', TCount), (''headNumber'', TQuantity), (''headHash'', TNullable TBytes), (''bootstrap'', TList TText)]"

definition contract_type :: json_type where
  "contract_type = TRecord
     [(''address'', TBytes), (''codeSize'', TCount), (''blockNumber'', TQuantity), (''transactionHash'', TBytes),
      (''name'', TNullable TText), (''schema'', TNullable TText), (''source'', TNullable TText),
      (''description'', TNullable TText), (''registered'', TFlag)]"

definition method_types :: "(string \<times> json_type) list" where
  "method_types =
     [(''eth_chainId'', TQuantity), (''eth_blockNumber'', TQuantity), (''eth_getBalance'', TWord), (''eth_getCode'', TBytes),
      (''eth_getStorageAt'', TWord), (''eth_getBlockByNumber'', block_type), (''eth_getBlockByHash'', block_type),
      (''eth_getTransactionByHash'', transaction_type), (''eth_getTransactionReceipt'', receipt_type),
      (''eth_getTransactionCount'', TQuantity), (''eth_sendRawTransaction'', TBytes), (''eth_call'', TBytes),
      (''eth_estimateGas'', TQuantity), (''eth_getLogs'', TList scanned_log_type), (''eth_getProof'', proof_type),
      (''ivory_nodeInfo'', node_info_type), (''ivory_listContracts'', TList contract_type),
      (''ivory_getHeaderByNumber'', bare_header_type)]"

section \<open>Typing of the parts\<close>

named_theorems typing

lemmas type_defs = bare_header_type_def block_type_def transaction_type_def receipt_type_def scanned_log_type_def proof_type_def
  node_info_type_def contract_type_def

lemma typed_leaves [typing]:
  "has_type E TQuantity (qty_json n)" "has_type E TQuantity (JString (encode_qty n))"
  "has_type E TWord (JString (u256_to_hex E x))" "has_type E TBytes (hex_data E bs)" "has_type E TBytes (hash_json E bs)"
  "has_type E TBytes (address_json E bs)" "has_type E TBytes (JString (hash_to_hex E bs))"
  "has_type E TBytes (JString (address_to_hex E bs))" "has_type E TText (JString s)"
  "has_type E TCount (json_nat k)" "has_type E TFlag (JBool b)" "has_type E (TNullable t) JNull"
  by (auto simp: qty_json_def hex_data_def hash_json_def hash_to_hex_def address_json_def address_to_hex_def json_nat_def
      qty_roundtrip intro: has_type.intros)

lemma typed_literals [typing]: "has_type E TQuantity (JString ''0x0'')" "has_type E TQuantity (JString ''0x1'')"
  using typed_leaves(2) [of E 0] typed_leaves(2) [of E 1]
  by (simp_all add: encode_qty_def hex_string_unfold(1) hex_digit_def)

lemma typed_nullable [typing]: "(\<And>s. m = Some s \<Longrightarrow> has_type E t (JString s)) \<Longrightarrow> has_type E (TNullable t) (json_opt m)"
  by (auto simp: json_opt_def intro: has_type.intros split: option.split)

lemma typed_list: "(\<And>v. v \<in> set vs \<Longrightarrow> has_type E t v) \<Longrightarrow> has_type E (TList t) (JArray vs)"
  by (auto simp: list_all_iff intro: has_type.intros)

lemma typed_map [typing]: "(\<And>x. x \<in> set xs \<Longrightarrow> has_type E t (f x)) \<Longrightarrow> has_type E (TList t) (JArray (map f xs))"
  by (rule typed_list) auto

lemma typed_record [typing]:
  "list_all2 (\<lambda>f m. fst f = fst m \<and> has_type E (snd f) (snd m)) fs ms \<Longrightarrow> has_type E (TRecord fs) (JObject ms)"
  by (rule ht_record)

lemma typed_blocks [typing]:
  "has_type E block_type (block_to_json E b)"
  "has_type E bare_header_type (header_to_json E b)"
  "has_type E transaction_type (tx_to_json E tx bh bn i)"
  "has_type E (TRecord log_type) (log_to_json E l)"
  "has_type E scanned_log_type (log_json E n h txh ti li l)"
  "has_type E contract_type (contract_row E ctx n tx)"
  by (auto simp: type_defs block_to_json_def header_to_json_def tx_to_json_def log_to_json_def log_json_def
      contract_row_def Let_def intro!: typing)

lemma map_sum_Inr_iff: "map_sum f g r = Inr y \<longleftrightarrow> (\<exists>x. r = Inr x \<and> y = g x)"
  by (cases r) auto

lemma typed_storage_proofs:
  "rpc_storage_proofs E state addr slots = Some (Inr vs) \<Longrightarrow>
   has_type E (TList (TRecord [(''key'', TBytes), (''value'', TWord), (''proof'', TList TBytes)])) (JArray vs)"
proof (induction slots arbitrary: vs)
  case Nil
  then show ?case by (auto intro: typed_list)
next
  case (Cons slot slots)
  then obtain ns rest where rest: "rpc_storage_proofs E state addr slots = Some (Inr rest)"
    and vs: "vs = JObject [(''key'', hash_json E slot), (''value'', JString (u256_to_hex E (get_storage state addr slot))),
      (''proof'', encode_proof_nodes E ns)] # rest"
    by (force simp: map_sum_Inr_iff split: option.splits sum.splits)
  from Cons.IH [OF rest] have "list_all (has_type E (TRecord [(''key'', TBytes), (''value'', TWord), (''proof'', TList TBytes)])) rest"
    by cases simp
  then show ?case unfolding vs by (intro ht_list) (auto simp: encode_proof_nodes_def intro!: typing)
qed

lemma typed_proof: "rpc_get_proof E params ctx = Some (Inr v) \<Longrightarrow> has_type E proof_type v"
  by (auto simp: rpc_get_proof_def rpc_proof_of_def Let_def type_defs encode_proof_nodes_def map_sum_Inr_iff
      dest!: typed_storage_proofs intro!: typing split: sum.splits prod.splits option.splits)

lemma typed_logs: "rpc_get_logs E params ctx = Inr v \<Longrightarrow> has_type E (TList scanned_log_type) v"
proof -
  assume "rpc_get_logs E params ctx = Inr v"
  from get_logs_scan [OF this] obtain addrs a b where v: "v = JArray (scan_logs E (rx_store ctx) addrs a b)" by blast
  show ?thesis unfolding v
    by (rule typed_list) (auto simp: scan_logs_def block_logs_def Let_def intro: typing split: option.splits)
qed

lemma typed_contracts: "rpc_list_contracts E ctx = Inr v \<Longrightarrow> has_type E (TList contract_type) v"
  by (auto simp: rpc_list_contracts_def intro!: typed_list intro: typing split: option.splits)

lemma typed_node_info: "rpc_node_info E ctx = Inr v \<Longrightarrow> has_type E node_info_type v"
  by (auto simp: rpc_node_info_def type_defs intro!: typing intro: ht_value typed_leaves split: option.splits)

lemma typed_receipt: "rpc_get_transaction_receipt E params ctx = Inr v \<Longrightarrow> has_type E receipt_type v"
  by (auto simp: rpc_get_transaction_receipt_def try_then_def type_defs intro!: typing intro: ht_value typed_leaves
      split: sum.splits prod.splits)

lemma typed_method:
  assumes "rpc_method E R method params ctx = Some (Inr v, ctx)"
  shows "\<exists>t. map_of method_types method = Some t \<and> has_type E t v"
  using assms unfolding rpc_method_def
  by (auto simp: method_types_def rpc_chain_id_def rpc_block_number_def rpc_get_balance_def rpc_get_code_def
      rpc_get_storage_at_def rpc_get_block_by_number_def rpc_get_block_by_hash_def rpc_get_transaction_by_hash_def
      rpc_get_transaction_count_def rpc_send_raw_transaction_def rpc_call_def rpc_estimate_gas_def rpc_get_header_by_number_def
      try_then_Inr typed_logs typed_contracts typed_node_info typed_receipt typed_proof
      intro!: typing split: if_splits option.splits sum.splits prod.splits)

section \<open>Properties\<close>

text \<open>
  C23: results have their types. Whatever the request, a method that succeeds is one of the
  eighteen of the table and returns a value of the type listed there: exactly the listed members,
  quantities as the shortest hexadecimal numeral, which parses back, 256-bit words and byte strings
  as the primitives print them.
\<close>

theorem rpc_result_typed:
  assumes "rpc_handle E R method params ctx = Some (Inr v, ctx')"
  shows "\<exists>t. map_of method_types method = Some t \<and> has_type E t v"
  using assms
proof (cases rule: rpc_handle_cases)
  case pure
  then show ?thesis by (intro typed_method)
next
  case (sent tx)
  then show ?thesis by (auto simp: method_types_def intro: typing)
qed simp

theorem rpc_result_typed_witness:
  "\<exists>h ctx'. rpc_handle ref_disk ref_rpc ''eth_sendRawTransaction'' demo_raw demo_context = Some (Inr h, ctx') \<and>
     has_type ref_disk TBytes h"
proof -
  obtain h ctx' where run: "rpc_handle ref_disk ref_rpc ''eth_sendRawTransaction'' demo_raw demo_context = Some (Inr h, ctx')"
    using demo_send by blast
  from rpc_result_typed [OF run] have "has_type ref_disk TBytes h" by (auto simp: method_types_def)
  with run show ?thesis by blast
qed

end
