(* ===== verification/Light.thy ===== *)
theory Light
  imports Rpc
begin

text \<open>
  The light client, \<open>tools/ivory-light/src\<close>: decoding a header from the JSON of
  \<open>ivory_getHeaderByNumber\<close>, the link and hash checks (\<open>lib.rs\<close>), and the \<open>follow\<close> walk over a
  range of heights (\<open>main.rs\<close>). The HTTP transport is a parameter that maps the ordinal of a
  request and its body to the payload of the response, \<open>None\<close> when there is none; the command
  line and the printing are left out, the walk returns the headers it accepted.
\<close>

section \<open>Checks\<close>

datatype light_error =
    ParentMismatch
  | NumberMismatch
  | MissingSeal
  | InvalidRpc string
  | RpcHashMismatch

definition verify_header_link :: "'z core_env_scheme \<Rightarrow> block_header \<Rightarrow> block_header \<Rightarrow> light_error + unit" where
  "verify_header_link E prev nxt =
     (if hd_parent_hash nxt \<noteq> header_hash E prev then Inl ParentMismatch
      else if hd_number nxt \<noteq> saturating_add_w (hd_number prev) 1 then Inl NumberMismatch
      else if hd_extra_data nxt = [] then Inl MissingSeal
      else Inr ())"

definition light_parse_qty :: "json \<Rightarrow> light_error + u64" where
  "light_parse_qty v =
     try_then (ok_or (as_str v) (InvalidRpc ''qty'')) (\<lambda>s.
       ok_or (u64_from_hex_digits (strip_0x s)) (InvalidRpc ''qty''))"

definition light_parse_h256 :: "'z prim_env_scheme \<Rightarrow> json \<Rightarrow> light_error + h256" where
  "light_parse_h256 E v =
     try_then (ok_or (as_str v) (InvalidRpc ''hash'')) (\<lambda>s.
       map_sum (\<lambda>_. InvalidRpc ''hash'') id (hash_from_hex E 32 s))"

definition light_parse_address :: "'z prim_env_scheme \<Rightarrow> json \<Rightarrow> light_error + address" where
  "light_parse_address E v =
     try_then (ok_or (as_str v) (InvalidRpc ''address'')) (\<lambda>s.
       map_sum (\<lambda>_. InvalidRpc ''address'') id (address_from_hex E s))"

definition light_parse_u256 :: "'z prim_env_scheme \<Rightarrow> json \<Rightarrow> light_error + u256" where
  "light_parse_u256 E v =
     try_then (ok_or (as_str v) (InvalidRpc ''u256'')) (\<lambda>s.
       map_sum (\<lambda>_. InvalidRpc ''u256'') id (u256_from_hex E s))"

definition light_parse_bytes :: "'z prim_env_scheme \<Rightarrow> json \<Rightarrow> light_error + bytes" where
  "light_parse_bytes E v =
     try_then (ok_or (as_str v) (InvalidRpc ''bytes'')) (\<lambda>s.
       ok_or (hex_decode E (strip_0x s)) (InvalidRpc ''bytes''))"

definition rpc_field :: "string \<Rightarrow> json \<Rightarrow> light_error + json" where
  "rpc_field key v = ok_or (json_get key v) (InvalidRpc key)"

definition header_from_rpc :: "'z prim_env_scheme \<Rightarrow> json \<Rightarrow> light_error + block_header" where
  "header_from_rpc E v =
     try_then (try_then (rpc_field ''number'' v) light_parse_qty) (\<lambda>number.
     try_then (try_then (rpc_field ''parentHash'' v) (light_parse_h256 E)) (\<lambda>parent_hash.
     try_then (try_then (rpc_field ''timestamp'' v) light_parse_qty) (\<lambda>timestamp.
     try_then (try_then (rpc_field ''miner'' v) (light_parse_address E)) (\<lambda>miner.
     try_then (try_then (rpc_field ''gasLimit'' v) light_parse_qty) (\<lambda>gas_limit.
     try_then (try_then (rpc_field ''gasUsed'' v) light_parse_qty) (\<lambda>gas_used.
     try_then (try_then (rpc_field ''stateRoot'' v) (light_parse_h256 E)) (\<lambda>state_root.
     try_then (try_then (rpc_field ''transactionsRoot'' v) (light_parse_h256 E)) (\<lambda>transactions_root.
     try_then (try_then (rpc_field ''receiptsRoot'' v) (light_parse_h256 E)) (\<lambda>receipts_root.
     try_then (case json_get ''difficulty'' v of Some d \<Rightarrow> light_parse_u256 E d | None \<Rightarrow> Inr U256_ZERO) (\<lambda>difficulty.
     try_then (try_then (rpc_field ''extraData'' v) (light_parse_bytes E)) (\<lambda>extra_data.
       Inr \<lparr> hd_number = number, hd_parent_hash = parent_hash, hd_timestamp = timestamp, hd_miner = miner,
             hd_gas_limit = gas_limit, hd_gas_used = gas_used, hd_state_root = state_root,
             hd_transactions_root = transactions_root, hd_receipts_root = receipts_root,
             hd_difficulty = difficulty, hd_extra_data = extra_data \<rparr>)))))))))))"

definition verify_rpc_hash :: "'z core_env_scheme \<Rightarrow> block_header \<Rightarrow> json \<Rightarrow> light_error + unit" where
  "verify_rpc_hash E header v =
     try_then (try_then (rpc_field ''hash'' v) (light_parse_h256 E)) (\<lambda>reported.
       if reported \<noteq> header_hash E header then Inl RpcHashMismatch else Inr ())"

section \<open>The walk\<close>

datatype follow_error =
    NoResponse string
  | RpcRefused string json
  | NoResult
  | BadQuantity
  | EmptyRange u64 u64
  | DecodeHeader light_error
  | HeaderHash light_error
  | GenesisUnsealed
  | LinkAt u64 light_error
  | FirstNumber u64 u64

type_synonym transport = "nat \<Rightarrow> json \<Rightarrow> json option"

definition light_rpc_call :: "transport \<Rightarrow> nat \<Rightarrow> string \<Rightarrow> json \<Rightarrow> follow_error + json" where
  "light_rpc_call T k method params =
     (case T k (JObject [(''jsonrpc'', JString ''2.0''), (''id'', JNumber (PosInt 1)),
                         (''method'', JString method), (''params'', params)]) of
        None \<Rightarrow> Inl (NoResponse method)
      | Some payload \<Rightarrow>
          (case Option.bind (json_get ''error'' payload) (\<lambda>e. if e = JNull then None else Some e) of
             Some err \<Rightarrow> Inl (RpcRefused method err)
           | None \<Rightarrow> ok_or (json_get ''result'' payload) NoResult))"

definition parse_rpc_qty :: "json \<Rightarrow> follow_error + u64" where
  "parse_rpc_qty v =
     try_then (ok_or (as_str v) BadQuantity) (\<lambda>s. ok_or (u64_from_hex_digits (strip_0x s)) BadQuantity)"

definition follow_step ::
  "'z core_env_scheme \<Rightarrow> transport \<Rightarrow> u64 \<Rightarrow> nat \<Rightarrow> u64 \<Rightarrow> block_header option \<Rightarrow> follow_error + block_header" where
  "follow_step E T start k n prev =
     try_then (light_rpc_call T k ''ivory_getHeaderByNumber'' (JArray [qty_json n])) (\<lambda>raw.
     try_then (map_sum DecodeHeader id (header_from_rpc E raw)) (\<lambda>header.
     try_then (map_sum HeaderHash id (verify_rpc_hash E header raw)) (\<lambda>_.
       if n = 0 \<and> hd_extra_data header = [] then Inl GenesisUnsealed
       else case prev of
              Some p \<Rightarrow> map_sum (LinkAt n) (\<lambda>_. header) (verify_header_link E p header)
            | None \<Rightarrow> if hd_number header \<noteq> start then Inl (FirstNumber (hd_number header) start) else Inr header)))"

primrec follow_walk ::
  "'z core_env_scheme \<Rightarrow> transport \<Rightarrow> u64 \<Rightarrow> u64 list \<Rightarrow> nat \<Rightarrow> block_header option \<Rightarrow>
   block_header list \<times> (follow_error + unit)" where
  "follow_walk E T start [] k prev = ([], Inr ())"
| "follow_walk E T start (n # ns) k prev =
     (case follow_step E T start k n prev of
        Inl e \<Rightarrow> ([], Inl e)
      | Inr h \<Rightarrow> (let (hs, r) = follow_walk E T start ns (Suc k) (Some h) in (h # hs, r)))"

text \<open>\<open>end_at\<close> is \<open>None\<close> for the latest height, which is asked for first.\<close>

definition follow ::
  "'z core_env_scheme \<Rightarrow> transport \<Rightarrow> u64 \<Rightarrow> u64 option \<Rightarrow> block_header list \<times> (follow_error + unit)" where
  "follow E T start end_at =
     (case (case end_at of
              Some n \<Rightarrow> Inr n
            | None \<Rightarrow> try_then (light_rpc_call T 0 ''eth_blockNumber'' (JArray [])) parse_rpc_qty) of
        Inl e \<Rightarrow> ([], Inl e)
      | Inr stop \<Rightarrow>
          if stop < start then ([], Inl (EmptyRange stop start))
          else follow_walk E T start (heights start stop) (if end_at = None then 1 else 0) None)"

section \<open>A served node as the transport\<close>

text \<open>The response on the wire: absent members are left out.\<close>

definition json_rpc_error_json :: "json_rpc_error \<Rightarrow> json" where
  "json_rpc_error_json e =
     JObject ([(''code'', JNumber (if je_code e < 0 then NegInt (je_code e) else PosInt (of_int (je_code e)))),
               (''message'', JString (je_message e))] @
              (case je_data e of None \<Rightarrow> [] | Some d \<Rightarrow> [(''data'', d)]))"

definition json_rpc_response_json :: "json_rpc_response \<Rightarrow> json" where
  "json_rpc_response_json r =
     JObject ([(''jsonrpc'', JString (jr_jsonrpc r))] @
              (case jr_result r of None \<Rightarrow> [] | Some v \<Rightarrow> [(''result'', v)]) @
              (case jr_error r of None \<Rightarrow> [] | Some e \<Rightarrow> [(''error'', json_rpc_error_json e)]) @
              [(''id'', jr_id r)])"

text \<open>
  Request \<open>k\<close> is answered by the node as it is then, the context \<open>C k\<close>; between two requests the
  node may have done anything.
\<close>

definition served :: "'z vm_env_scheme \<Rightarrow> rpc_env \<Rightarrow> (nat \<Rightarrow> rpc_context) \<Rightarrow> transport" where
  "served E R C k body = map_option (\<lambda>(resp, _). json_rpc_response_json resp) (http_jsonrpc E R (Some body) (C k))"

text \<open>What is used of the derived decoder of requests: a complete object gives its members.\<close>

definition request_laws :: "rpc_env \<Rightarrow> bool" where
  "request_laws R \<longleftrightarrow>
     (\<forall>v m p i. de_json_rpc_request R (JObject [(''jsonrpc'', JString v), (''id'', i), (''method'', JString m), (''params'', p)])
        = Inr \<lparr> jq_jsonrpc = v, jq_method = m, jq_params = p, jq_id = i \<rparr>)"

section \<open>Decoding\<close>

text \<open>The byte arrays of the source have their lengths by type.\<close>

definition header_sized :: "block_header \<Rightarrow> bool" where
  "header_sized h \<longleftrightarrow>
     length (hd_parent_hash h) = 32 \<and> length (hd_miner h) = 20 \<and> length (hd_state_root h) = 32 \<and>
     length (hd_transactions_root h) = 32 \<and> length (hd_receipts_root h) = 32"

lemma light_reads:
  "light_parse_qty (qty_json n) = Inr n"
  "hex_laws E \<Longrightarrow> length h = 32 \<Longrightarrow> light_parse_h256 E (hash_json E h) = Inr h"
  "hex_laws E \<Longrightarrow> length a = 20 \<Longrightarrow> light_parse_address E (address_json E a) = Inr a"
  "hex_laws E \<Longrightarrow> light_parse_u256 E (JString (u256_to_hex E x)) = Inr x"
  "hex_laws E \<Longrightarrow> light_parse_bytes E (hex_data E bs) = Inr bs"
  by (simp_all add: light_parse_qty_def qty_json_def as_str_def qty_roundtrip light_parse_h256_def hash_json_def
      hash_hex_roundtrip light_parse_address_def address_json_def address_from_hex_def address_to_hex_def light_parse_u256_def
      u256_hex_roundtrip light_parse_bytes_def hex_data_def hex_laws_decode_encode)

lemma header_fields:
  "json_get ''number'' (header_to_json E b) = Some (qty_json (hd_number (blk_header b)))"
  "json_get ''hash'' (header_to_json E b) = Some (hash_json E (block_hash E b))"
  "json_get ''parentHash'' (header_to_json E b) = Some (hash_json E (hd_parent_hash (blk_header b)))"
  "json_get ''miner'' (header_to_json E b) = Some (address_json E (hd_miner (blk_header b)))"
  "json_get ''timestamp'' (header_to_json E b) = Some (qty_json (hd_timestamp (blk_header b)))"
  "json_get ''gasLimit'' (header_to_json E b) = Some (qty_json (hd_gas_limit (blk_header b)))"
  "json_get ''gasUsed'' (header_to_json E b) = Some (qty_json (hd_gas_used (blk_header b)))"
  "json_get ''stateRoot'' (header_to_json E b) = Some (hash_json E (hd_state_root (blk_header b)))"
  "json_get ''transactionsRoot'' (header_to_json E b) = Some (hash_json E (hd_transactions_root (blk_header b)))"
  "json_get ''receiptsRoot'' (header_to_json E b) = Some (hash_json E (hd_receipts_root (blk_header b)))"
  "json_get ''difficulty'' (header_to_json E b) = Some (JString (u256_to_hex E (hd_difficulty (blk_header b))))"
  "json_get ''extraData'' (header_to_json E b) = Some (hex_data E (hd_extra_data (blk_header b)))"
  by (simp_all add: json_get_def header_to_json_def as_object_def Let_def)

lemma header_decodes:
  assumes "hex_laws E" "header_sized (blk_header b)"
  shows "header_from_rpc E (header_to_json E b) = Inr (blk_header b)"
  using assms(2) by (simp add: header_from_rpc_def rpc_field_def header_fields light_reads assms(1) header_sized_def)

lemma header_hash_length: "keccak_laws E \<Longrightarrow> length (header_hash E h) = 32"
  by (simp add: header_hash_def keccak256_def keccak_laws_def)

lemma reported_hash:
  assumes "hex_laws E" "keccak_laws E"
  shows "verify_rpc_hash E h (header_to_json E b) = (if header_hash E h = block_hash E b then Inr () else Inl RpcHashMismatch)"
  by (simp add: verify_rpc_hash_def rpc_field_def header_fields light_reads assms header_hash_length block_hash_def)

section \<open>The walk\<close>

lemma follow_step_ok:
  assumes "follow_step E T start k n prev = Inr h"
  shows "prev = None \<Longrightarrow> hd_number h = start"
    "prev = Some p \<Longrightarrow> verify_header_link E p h = Inr ()"
    "n = 0 \<Longrightarrow> hd_extra_data h \<noteq> []"
  using assms by (auto simp: follow_step_def try_then_def map_sum_def split: sum.splits if_splits option.splits)

text \<open>
  What the client has checked when the walk ends: heights without a gap, each header on the one
  before it, a seal on every header but a first one above genesis.
\<close>

definition header_chain :: "'z core_env_scheme \<Rightarrow> block_header list \<Rightarrow> bool" where
  "header_chain E hs \<longleftrightarrow> successively (\<lambda>p h. verify_header_link E p h = Inr ()) hs"

lemma header_link_iff:
  "verify_header_link E p h = Inr () \<longleftrightarrow>
     hd_parent_hash h = header_hash E p \<and> hd_number h = saturating_add_w (hd_number p) 1 \<and> hd_extra_data h \<noteq> []"
  by (simp add: verify_header_link_def)

text \<open>Of the seal the client only asks that there is one.\<close>

lemma light_ignores_seal:
  "hd_extra_data h \<noteq> [] \<Longrightarrow> seal \<noteq> [] \<Longrightarrow>
   verify_header_link E p (h \<lparr> hd_extra_data := seal \<rparr>) = verify_header_link E p h"
  by (simp add: verify_header_link_def)

lemma follow_walk_chain:
  assumes "follow_walk E T start ns k prev = (hs, Inr ())"
  shows "length hs = length ns \<and> header_chain E ((case prev of None \<Rightarrow> [] | Some p \<Rightarrow> [p]) @ hs) \<and>
    (prev = None \<longrightarrow> hs \<noteq> [] \<longrightarrow> hd_number (hd hs) = start \<and> (hd ns = 0 \<longrightarrow> hd_extra_data (hd hs) \<noteq> []))"
  using assms
proof (induction ns arbitrary: k prev hs)
  case Nil
  then show ?case by (auto simp: header_chain_def split: option.split)
next
  case (Cons n ns)
  then obtain h hs' where step: "follow_step E T start k n prev = Inr h"
    and rest: "follow_walk E T start ns (Suc k) (Some h) = (hs', Inr ())" and hs: "hs = h # hs'"
    by (auto split: sum.splits prod.splits)
  note ok = follow_step_ok [OF step]
  from Cons.IH [OF rest] have tail: "length hs' = length ns" "header_chain E (h # hs')" by simp_all
  show ?case
  proof (cases prev)
    case None
    then show ?thesis using tail ok(1,3) hs by simp
  next
    case (Some p)
    then show ?thesis using tail ok(2) [OF Some] hs by (simp add: header_chain_def)
  qed
qed

lemma below_max: "start \<le> stop \<Longrightarrow> start \<noteq> stop \<Longrightarrow> start \<noteq> (- 1 :: u64)"
  by (metis order_antisym word_order.extremum)

lemma heights_Cons:
  assumes "start \<le> stop"
  shows "heights start stop = start # (if start = stop then [] else heights (saturating_add_w start 1) stop)"
proof -
  have le: "unat start \<le> unat stop" using assms by (simp add: word_le_nat_alt)
  have "heights start stop = start # map of_nat [Suc (unat start)..<Suc (unat stop)]"
    using le by (simp add: heights_def upt_conv_Cons del: upt_Suc)
  moreover have "unat (saturating_add_w start 1) = Suc (unat start)" if "start \<noteq> stop"
    using sat_succ [OF below_max [OF assms that]] by simp
  ultimately show ?thesis by (auto simp: heights_def simp del: upt_Suc)
qed

lemma heights_next: "start \<le> stop \<Longrightarrow> start \<noteq> stop \<Longrightarrow> saturating_add_w start 1 \<le> (stop :: u64)"
  using sat_succ [OF below_max] by (auto simp: word_le_nat_alt word_unat_eq_iff)

lemma chain_numbers:
  assumes "header_chain E hs" "hs \<noteq> []" "hd_number (hd hs) = start" "start \<le> stop"
    "length hs = length (heights start stop)"
  shows "map hd_number hs = heights start stop"
  using assms
proof (induction hs arbitrary: start)
  case (Cons h hs)
  show ?case
  proof (cases "start = stop")
    case True
    then show ?thesis using Cons.prems by (simp add: heights_Cons)
  next
    case False
    then have len: "length hs = length (heights (saturating_add_w start 1) stop)"
      using Cons.prems(4,5) by (simp add: heights_Cons)
    note le = heights_next [OF Cons.prems(4) False]
    have ne: "hs \<noteq> []" using len heights_Cons [OF le] by auto
    then have "hd_number (hd hs) = saturating_add_w start 1" "header_chain E hs"
      using Cons.prems(1,3) by (auto simp: header_chain_def successively_Cons header_link_iff)
    from Cons.IH [OF this(2) ne this(1) le len] show ?thesis using Cons.prems(3,4) False by (simp add: heights_Cons)
  qed
qed simp

lemma chain_tip_commits:
  assumes "header_chain E hs" "header_chain E hs'" "length hs = length hs'" "hs \<noteq> []"
    "header_hash E (last hs) = header_hash E (last hs')"
    "\<And>x y. x \<in> set hs \<Longrightarrow> y \<in> set hs' \<Longrightarrow> header_hash E x = header_hash E y \<Longrightarrow> x = y"
  shows "hs = hs'"
  using assms
proof (induction hs arbitrary: hs' rule: rev_induct)
  case (snoc x xs)
  then obtain ys y where hs': "hs' = ys @ [y]" by (metis append_butlast_last_id length_0_conv)
  have xy: "x = y" by (rule snoc.prems(6)) (use snoc.prems(5) hs' in simp_all)
  show ?case
  proof (cases "xs = []")
    case True
    then show ?thesis using snoc.prems(3) hs' xy by simp
  next
    case False
    then have ne: "ys \<noteq> []" using snoc.prems(3) hs' by auto
    have l: "header_chain E xs" "header_hash E (last xs) = hd_parent_hash x"
      using snoc.prems(1) False by (auto simp: header_chain_def successively_append_iff header_link_iff)
    have r: "header_chain E ys" "header_hash E (last ys) = hd_parent_hash y"
      using snoc.prems(2) ne hs' by (auto simp: header_chain_def successively_append_iff header_link_iff)
    have "xs = ys" by (rule snoc.IH [OF l(1) r(1) _ False]) (use l(2) r(2) xy snoc.prems(3,6) hs' in simp_all)
    then show ?thesis using xy hs' by simp
  qed
qed simp

lemma follow_chain:
  assumes "follow E T start end_at = (hs, Inr ())"
  shows "\<exists>stop. start \<le> stop \<and> (\<forall>n. end_at = Some n \<longrightarrow> stop = n) \<and> map hd_number hs = heights start stop \<and>
    header_chain E hs \<and> (start = 0 \<longrightarrow> hd_extra_data (hd hs) \<noteq> [])"
proof -
  from assms obtain stop k where le: "start \<le> stop" and at: "\<forall>n. end_at = Some n \<longrightarrow> stop = n"
    and walk: "follow_walk E T start (heights start stop) k None = (hs, Inr ())"
    by (auto simp: follow_def not_less split: sum.splits option.splits if_splits)
  from follow_walk_chain [OF walk] have len: "length hs = length (heights start stop)" and chain: "header_chain E hs"
    and first: "hs \<noteq> [] \<longrightarrow> hd_number (hd hs) = start \<and> (hd (heights start stop) = 0 \<longrightarrow> hd_extra_data (hd hs) \<noteq> [])"
    by simp_all
  have ne: "hs \<noteq> []" using len heights_Cons [OF le] by auto
  have "map hd_number hs = heights start stop" using chain_numbers [OF chain ne _ le len] first ne by simp
  then show ?thesis using le at chain first ne heights_Cons [OF le] by (intro exI [of _ stop]) simp
qed

section \<open>Walking a node\<close>

definition canonical_header :: "block_store \<Rightarrow> u64 \<Rightarrow> block_header" where
  "canonical_header st n = blk_header (the (get_block_by_number st n))"

lemma served_call:
  assumes "request_laws R" "\<not> method_barred (C k) m" "rpc_method E R m p (C k) = Some (Inr v, ctx')"
  shows "light_rpc_call (served E R C) k m p = Inr v"
  using assms by (simp add: light_rpc_call_def served_def http_jsonrpc_def request_laws_def dispatch_def rpc_handle_def
      response_success_def json_rpc_response_json_def json_get_def as_object_def)

lemma qty_is_number: "parse_block_id (qty_json n) = Inr (Number n)"
  using qty_roundtrip [of n]
  by (simp add: parse_block_id_def qty_json_def as_u64_def as_str_def encode_qty_hex)

lemma served_header:
  assumes "request_laws R" "\<not> method_barred (C k) ''ivory_getHeaderByNumber''"
    "get_block_by_number (rx_store (C k)) n = Some b"
  shows "light_rpc_call (served E R C) k ''ivory_getHeaderByNumber'' (JArray [qty_json n]) = Inr (header_to_json E b)"
  by (rule served_call [where C = C and k = k, OF assms(1,2)])
    (simp add: rpc_method_def rpc_get_header_by_number_def parse_block_id_at_def params_array_def as_array_def nth_opt_def
      qty_is_number block_by_tag_def assms(3))

lemma served_number:
  assumes "request_laws R" "\<not> method_barred (C k) ''eth_blockNumber''" "head_block (rx_store (C k)) = Some t"
  shows "light_rpc_call (served E R C) k ''eth_blockNumber'' (JArray []) = Inr (qty_json (hd_number (blk_header t)))"
  by (rule served_call [where C = C and k = k, OF assms(1,2)]) (simp add: rpc_method_def rpc_block_number_def assms(3))

lemma validated_sealed: "poa_validate_header E cfg h parent = Inr () \<Longrightarrow> hd_extra_data h \<noteq> []"
  by (auto simp: poa_validate_header_def verify_crypto_seals_def decode_seals_def Let_def split: if_splits sum.splits)

lemma canonical_headers:
  assumes inv: "store_inv E st" and hd: "head_block st = Some t" and num: "hd_number (blk_header t) \<noteq> - 1"
    and n: "n \<le> hd_number (blk_header t)"
  obtains b where "get_block_by_number st n = Some b" "block_hash E b = header_hash E (blk_header b)"
    "hd_number (blk_header b) = n" "hd_extra_data (blk_header b) \<noteq> []"
    "\<And>m. n = saturating_add_w m 1 \<Longrightarrow> m < n \<Longrightarrow> hd_parent_hash (blk_header b) = header_hash E (canonical_header st m)"
proof -
  obtain tip where tip: "bs_head st = Some tip" "get_block st tip = Some t"
    using hd by (auto simp: head_block_def split: option.splits)
  note c = canonical_chain [OF inv tip num]
  have i: "unat n < length (chain_from st tip)" using n c(1) by (simp add: word_le_nat_alt)
  obtain b where b: "get_block st (chain_from st tip ! unat n) = Some b" "hd_number (blk_header b) = n"
    "get_block_by_number st n = Some b" using c(4) [OF i] by auto
  obtain rank where "linked_by E (bs_consensus st) (headers (bs_by_hash st)) (length (bs_by_hash st)) rank"
    using inv by (auto simp: store_inv_def)
  moreover have "headers (bs_by_hash st) (chain_from st tip ! unat n) = Some (blk_header b)"
    using b(1) by (simp add: headers_def get_block_def)
  ultimately have "accepted E (bs_consensus st) (headers (bs_by_hash st)) (blk_header b)" by (auto simp: linked_by_def)
  then have seal: "hd_extra_data (blk_header b) \<noteq> []" by (auto simp: accepted_def validated_sealed split: if_splits)
  have "hd_parent_hash (blk_header b) = header_hash E (canonical_header st m)"
    if m: "n = saturating_add_w m 1" "m < n" for m
  proof -
    have "m \<noteq> - 1" using m(2) by auto
    then have u: "unat n = Suc (unat m)" using sat_succ m(1) by simp
    then obtain a where a: "get_block st (chain_from st tip ! unat m) = Some a" "get_block_by_number st m = Some a"
      using c(4) [of "unat m"] i by auto
    have "hd_parent_hash (blk_header b) = chain_from st tip ! unat m" using c(5) [of "unat m" b] i b(1) u by simp
    then show ?thesis using store_inv_hash [OF inv a(1)] a(2) by (simp add: canonical_header_def block_hash_def)
  qed
  then show thesis using that b seal by (simp add: block_hash_def)
qed

lemma served_step:
  assumes laws: "hex_laws E" "keccak_laws E" "request_laws R"
    and open_ctx: "\<not> method_barred (C k) ''ivory_getHeaderByNumber''"
    and b: "get_block_by_number (rx_store (C k)) n = Some b" "header_sized (blk_header b)"
      "hd_extra_data (blk_header b) \<noteq> []"
    and prev: "case prev of None \<Rightarrow> hd_number (blk_header b) = start | Some p \<Rightarrow> verify_header_link E p (blk_header b) = Inr ()"
  shows "follow_step E (served E R C) start k n prev = Inr (blk_header b)"
  using prev
  by (simp add: follow_step_def served_header [where C = C and k = k, OF laws(3) open_ctx b(1)] header_decodes [OF laws(1) b(2)]
      reported_hash [OF laws(1,2)] block_hash_def b(3) split: option.splits)

lemma served_walk:
  assumes laws: "hex_laws E" "keccak_laws E" "request_laws R"
    and inv: "store_inv E st" "head_block st = Some t" "hd_number (blk_header t) \<noteq> - 1"
    and sized: "\<And>n b. get_block_by_number st n = Some b \<Longrightarrow> header_sized (blk_header b)"
    and C: "\<And>k. \<not> method_barred (C k) ''ivory_getHeaderByNumber''"
      "\<And>k n. n \<le> stop \<Longrightarrow> get_block_by_number (rx_store (C k)) n = get_block_by_number st n"
    and stop: "stop \<le> hd_number (blk_header t)"
  shows "s \<le> stop \<Longrightarrow> prev = None \<and> s = start \<or>
      (\<exists>m. s = saturating_add_w m 1 \<and> m < s \<and> prev = Some (canonical_header st m)) \<Longrightarrow>
    follow_walk E (served E R C) start (heights s stop) k prev = (map (canonical_header st) (heights s stop), Inr ())"
proof (induction "length (heights s stop)" arbitrary: s k prev)
  case 0
  then show ?case using heights_Cons [OF 0(2)] by simp
next
  case (Suc j)
  have s: "s \<le> hd_number (blk_header t)" using Suc.prems(1) stop by simp
  obtain b where b: "get_block_by_number st s = Some b" "hd_number (blk_header b) = s" "hd_extra_data (blk_header b) \<noteq> []"
    "\<And>m. s = saturating_add_w m 1 \<Longrightarrow> m < s \<Longrightarrow> hd_parent_hash (blk_header b) = header_hash E (canonical_header st m)"
    by (rule canonical_headers [OF inv s]) blast
  have h: "canonical_header st s = blk_header b" using b(1) by (simp add: canonical_header_def)
  have link: "verify_header_link E p (blk_header b) = Inr ()" if "prev = Some p" for p
  proof -
    obtain m where m: "s = saturating_add_w m 1" "m < s" "p = canonical_header st m" using Suc.prems(2) \<open>prev = Some p\<close> by auto
    have "m \<le> hd_number (blk_header t)" using m(2) s by simp
    then obtain a where "get_block_by_number st m = Some a" "hd_number (blk_header a) = m"
      by (rule canonical_headers [OF inv])
    then show ?thesis using b(2,3) b(4) [OF m(1,2)] m by (simp add: header_link_iff canonical_header_def)
  qed
  have step: "follow_step E (served E R C) start k s prev = Inr (blk_header b)"
    by (rule served_step [OF laws C(1) _ sized [OF b(1)] b(3)])
      (use C(2) [OF Suc.prems(1)] b(1,2) link Suc.prems(2) in \<open>auto split: option.split\<close>)
  show ?case
  proof (cases "s = stop")
    case True
    then show ?thesis using step h by (simp add: heights_Cons)
  next
    case False
    let ?n = "saturating_add_w s 1"
    note le = heights_next [OF Suc.prems(1) False]
    have "s < ?n" using sat_succ [OF below_max [OF Suc.prems(1) False]] by (simp add: word_less_nat_alt)
    then have "follow_walk E (served E R C) start (heights ?n stop) (Suc k) (Some (blk_header b)) =
        (map (canonical_header st) (heights ?n stop), Inr ())"
      using Suc.hyps(2) heights_Cons [OF Suc.prems(1)] False h by (intro Suc.hyps(1) le) auto
    then show ?thesis using step h heights_Cons [OF Suc.prems(1)] False by simp
  qed
qed

lemma served_follow:
  assumes laws: "hex_laws E" "keccak_laws E" "request_laws R"
    and inv: "store_inv E st" "head_block st = Some t" "hd_number (blk_header t) \<noteq> - 1"
    and sized: "\<And>n b. get_block_by_number st n = Some b \<Longrightarrow> header_sized (blk_header b)"
    and C: "\<And>k. \<not> method_barred (C k) ''ivory_getHeaderByNumber''"
      "\<And>k n. n \<le> stop \<Longrightarrow> get_block_by_number (rx_store (C k)) n = get_block_by_number st n"
    and stop: "start \<le> stop" "stop \<le> hd_number (blk_header t)"
    and at: "end_at = Some stop \<or> end_at = None \<and> \<not> method_barred (C 0) ''eth_blockNumber'' \<and>
      (\<exists>t'. head_block (rx_store (C 0)) = Some t' \<and> hd_number (blk_header t') = stop)"
  shows "follow E (served E R C) start end_at = (map (canonical_header st) (heights start stop), Inr ())"
proof -
  have walk: "follow_walk E (served E R C) start (heights start stop) k None = (map (canonical_header st) (heights start stop), Inr ())" for k
    by (rule served_walk [OF laws inv sized C stop(2,1)]) simp_all
  show ?thesis
  proof (cases end_at)
    case None
    then obtain t' where t': "\<not> method_barred (C 0) ''eth_blockNumber''" "head_block (rx_store (C 0)) = Some t'"
      "hd_number (blk_header t') = stop" using at by auto
    have "parse_rpc_qty (qty_json stop) = Inr stop" by (simp add: parse_rpc_qty_def qty_json_def as_str_def qty_roundtrip)
    then show ?thesis using None walk [of 1] stop(1) t'(3) served_number [where C = C and k = 0, OF laws(3) t'(1,2), of E]
      by (simp add: follow_def not_less [symmetric])
  next
    case (Some n)
    then show ?thesis using at walk [of 0] stop(1) by (simp add: follow_def not_less [symmetric])
  qed
qed

section \<open>A sample client\<close>

text \<open>The decoder the derived one stands for: \<open>jsonrpc\<close>, \<open>params\<close> and \<open>id\<close> have defaults.\<close>

definition decode_request :: "json \<Rightarrow> string + json_rpc_request" where
  "decode_request v =
     (case (case json_get ''jsonrpc'' v of None \<Rightarrow> Some ''2.0'' | Some x \<Rightarrow> as_str x,
            Option.bind (json_get ''method'' v) as_str) of
        (Some version, Some method) \<Rightarrow>
          Inr \<lparr> jq_jsonrpc = version, jq_method = method,
                jq_params = (case json_get ''params'' v of None \<Rightarrow> JNull | Some x \<Rightarrow> x),
                jq_id = (case json_get ''id'' v of None \<Rightarrow> JNull | Some x \<Rightarrow> x) \<rparr>
      | _ \<Rightarrow> Inl ''not a request'')"

definition wire_rpc :: rpc_env where
  "wire_rpc = ref_rpc \<lparr> de_json_rpc_request := decode_request \<rparr>"

lemma wire_rpc_laws: "request_laws wire_rpc"
  by (simp add: request_laws_def wire_rpc_def decode_request_def json_get_def as_object_def as_str_def)

lemma demo_sized: "header_sized (blk_header (demo_genesis ref_disk state_new))"
proof -
  have "length (fst (root_hash ref_disk state_new)) = 32"
    by (simp add: root_hash_def sync_all_storage_roots_def collect_account_pairs_def state_new_def patricia_root_def
        patricia_nodes_def store_node_def hm_keys_def Let_def ref_disk_laws(3))
  moreover have "hd_miner (blk_header (demo_genesis ref_disk state_new)) = demo_miner ref_disk"
    using demo_seal [of ref_disk state_new]
    by (auto simp: poa_seal_header_def encode_signatures_def Let_def dest: arg_cong [of _ _ hd_miner] split: if_splits)
  ultimately show ?thesis
    using sealed_fields [OF demo_seal [of ref_disk state_new]]
    by (simp add: header_sized_def demo_header_def sample_header_def demo_miner_def address_length ref_disk_laws(3)
        list_root_txs_def list_root_receipts_def)
qed

lemma demo_sizes: "get_block_by_number (demo_store ref_disk state_new) n = Some b \<Longrightarrow> header_sized (blk_header b)"
  using demo_sized
  by (auto simp: get_block_by_number_def get_block_def demo_disk hm_get_def split: option.splits if_splits)

lemma demo_context_store: "rx_store demo_context = demo_store ref_disk state_new" "\<not> method_barred demo_context m"
  by (simp_all add: demo_context_def with_gossip_def rpc_context_new_def method_barred_def)

lemma heights_zero: "heights 0 0 = [0]"
  by (simp add: heights_def)

lemma demo_zero: "get_block_by_number (demo_store ref_disk state_new) 0 = Some (demo_genesis ref_disk state_new)"
proof (rule canonical_headers [of ref_disk "demo_store ref_disk state_new" "demo_genesis ref_disk state_new" 0])
  show "store_inv ref_disk (demo_store ref_disk state_new)" using chain_reach_inv [OF demo_disk(1)] by (simp add: chain_inv_def)
qed (auto simp: demo_head demo_fields get_block_by_number_def get_block_def demo_disk hm_get_def split: option.splits if_splits)

text \<open>The full and the read-only listener of the sample node, walked over its genesis.\<close>

lemma demo_walk:
  assumes "ctx = demo_context \<or> ctx = with_allow_methods READ_ONLY_METHODS demo_context"
  shows "follow ref_disk (served ref_disk wire_rpc (\<lambda>k. ctx)) 0 (Some 0) = ([blk_header (demo_genesis ref_disk state_new)], Inr ())"
proof -
  have ctx: "rx_store ctx = demo_store ref_disk state_new" "\<not> method_barred ctx ''ivory_getHeaderByNumber''"
    using assms demo_context_store by (auto simp: with_allow_methods_def method_barred_def READ_ONLY_METHODS_def)
  have "store_inv ref_disk (demo_store ref_disk state_new)" using chain_reach_inv [OF demo_disk(1)] by (simp add: chain_inv_def)
  from served_follow [where C = "\<lambda>k. ctx" and stop = 0 and start = 0 and end_at = "Some 0",
      OF ref_disk_hex_laws ref_disk_laws(3) wire_rpc_laws this demo_head _ demo_sizes ctx(2)]
  show ?thesis by (simp add: ctx(1) demo_fields heights_zero canonical_header_def demo_zero)
qed

section \<open>Properties\<close>

text \<open>
  C25: the client reads what the node serves. The JSON that \<open>ivory_getHeaderByNumber\<close> sends for a
  block decodes to the header of that block, and the reported hash is accepted exactly for headers
  with the hash of the block.
\<close>

theorem light_reads_header:
  assumes "hex_laws E" "keccak_laws E" "header_sized (blk_header b)"
  shows "header_from_rpc E (header_to_json E b) = Inr (blk_header b) \<and>
    (verify_rpc_hash E h (header_to_json E b) = Inr () \<longleftrightarrow> header_hash E h = block_hash E b)"
  using assms by (simp add: header_decodes reported_hash)

theorem light_reads_header_witness:
  "header_from_rpc ref_disk (header_to_json ref_disk (demo_genesis ref_disk state_new))
     = Inr (blk_header (demo_genesis ref_disk state_new)) \<and>
   verify_rpc_hash ref_disk (blk_header (demo_genesis ref_disk state_new))
     (header_to_json ref_disk (demo_genesis ref_disk state_new)) = Inr ()"
  using light_reads_header [OF ref_disk_hex_laws ref_disk_laws(3) demo_sized] by (simp add: block_hash_def)

text \<open>
  C20: the last hash of a completed walk commits to the whole walk. Whatever two servers answer,
  when both walks over the same range end without an error and their last headers have the same
  hash, every header is the same, or the walks exhibit a collision: two different headers, one of
  each walk, with the same hash. Each walk has one header per height; every one above the first
  carries the hash of the one below and is sealed, and so is the first when it is the genesis header.
\<close>

theorem light_walk_commits:
  assumes "follow E T start (Some stop) = (hs, Inr ())" "follow E T' start (Some stop) = (hs', Inr ())"
    and "header_hash E (last hs) = header_hash E (last hs')"
  shows "(hs = hs' \<or> (\<exists>x y. x \<in> set hs \<and> y \<in> set hs' \<and> x \<noteq> y \<and> header_hash E x = header_hash E y)) \<and>
    map hd_number hs = heights start stop \<and>
    (\<forall>i. Suc i < length hs \<longrightarrow> hd_parent_hash (hs ! Suc i) = header_hash E (hs ! i) \<and> hd_extra_data (hs ! Suc i) \<noteq> []) \<and>
    (start = 0 \<longrightarrow> hd_extra_data (hs ! 0) \<noteq> [])"
proof -
  from follow_chain [OF assms(1)] have l: "start \<le> stop" "map hd_number hs = heights start stop" "header_chain E hs"
    "start = 0 \<longrightarrow> hd_extra_data (hd hs) \<noteq> []" by auto
  from follow_chain [OF assms(2)] have r: "map hd_number hs' = heights start stop" "header_chain E hs'" by auto
  have len: "length hs = length hs'" using l(2) r(1) by (metis length_map)
  have ne: "hs \<noteq> []" using l(2) heights_Cons [OF l(1)] by auto
  have "hs = hs' \<or> (\<exists>x y. x \<in> set hs \<and> y \<in> set hs' \<and> x \<noteq> y \<and> header_hash E x = header_hash E y)"
    using chain_tip_commits [OF l(3) r(2) len ne assms(3)] by blast
  moreover have "verify_header_link E (hs ! i) (hs ! Suc i) = Inr ()" if "Suc i < length hs" for i
    using l(3) that by (auto simp: header_chain_def successively_conv_nth)
  ultimately show ?thesis using l(2,4) ne by (simp add: header_link_iff hd_conv_nth)
qed

theorem light_walk_commits_witness:
  "\<exists>hs. follow ref_disk (served ref_disk wire_rpc (\<lambda>k. demo_context)) 0 (Some 0) = (hs, Inr ()) \<and>
     follow ref_disk (served ref_disk wire_rpc (\<lambda>k. with_allow_methods READ_ONLY_METHODS demo_context)) 0 (Some 0) = (hs, Inr ()) \<and>
     map hd_number hs = [0]"
proof -
  have a: "follow ref_disk (served ref_disk wire_rpc (\<lambda>k. demo_context)) 0 (Some 0)
      = ([blk_header (demo_genesis ref_disk state_new)], Inr ())" by (rule demo_walk) simp
  have b: "follow ref_disk (served ref_disk wire_rpc (\<lambda>k. with_allow_methods READ_ONLY_METHODS demo_context)) 0 (Some 0)
      = ([blk_header (demo_genesis ref_disk state_new)], Inr ())" by (rule demo_walk) simp
  from light_walk_commits [OF a b] show ?thesis using a b by (simp add: heights_zero)
qed

text \<open>
  C14: following a node gives its canonical chain. The client walks a range of heights of a node
  whose chain is reachable, each request being answered by the node as it is at that moment. As long
  as the canonical blocks of the range stay as they are, the walk ends without an error and returns
  their headers, in order; with no last height given it ends at the height the node reports first.
\<close>

theorem light_follows_chain:
  assumes "hex_laws E" "keccak_laws E" "request_laws R"
    and "chain_reach E archive cfg g s0 st live pool" "head_block st = Some t" "hd_number (blk_header t) \<noteq> - 1"
    and "\<And>n b. get_block_by_number st n = Some b \<Longrightarrow> header_sized (blk_header b)"
    and "\<And>k. \<not> method_barred (C k) ''ivory_getHeaderByNumber''"
    and "\<And>k n. n \<le> stop \<Longrightarrow> get_block_by_number (rx_store (C k)) n = get_block_by_number st n"
    and "start \<le> stop" "stop \<le> hd_number (blk_header t)"
    and "end_at = Some stop \<or> end_at = None \<and> \<not> method_barred (C 0) ''eth_blockNumber'' \<and>
      (\<exists>t'. head_block (rx_store (C 0)) = Some t' \<and> hd_number (blk_header t') = stop)"
  shows "follow E (served E R C) start end_at = (map (canonical_header st) (heights start stop), Inr ())"
proof -
  have "store_inv E st" using chain_reach_inv [OF assms(4)] by (simp add: chain_inv_def)
  from served_follow [where C = C, OF assms(1-3) this assms(5-12)] show ?thesis .
qed

theorem light_follows_chain_witness:
  "follow ref_disk (served ref_disk wire_rpc (\<lambda>k. demo_context)) 0 None
     = ([blk_header (demo_genesis ref_disk state_new)], Inr ())"
proof -
  from light_follows_chain [where C = "\<lambda>k. demo_context" and stop = 0 and start = 0 and end_at = None,
      OF ref_disk_hex_laws ref_disk_laws(3) wire_rpc_laws demo_disk(1) demo_head _ demo_sizes]
  show ?thesis by (simp add: demo_context_store demo_head demo_fields heights_zero canonical_header_def demo_zero)
qed

end
