(* ===== verification/Spec2Isabelle.thy ===== *)
theory Spec2Isabelle
  imports Prelude Uint Hash Codec Core Trie State Vm Executor TxPool Consensus Store Chain Network Persist Config Startup Node Rpc RpcTypes Light
begin

text \<open>
  Verification of the Ivory ledger, a permissioned proof-of-authority chain with WASM contracts.
  Paths are below \<open>src/\<close>.

  \<^bold>\<open>The program.\<close> A node (\<open>bin/ivory/src/node.rs\<close>) holds a block store, the live state, a
  transaction pool, a table of orphan blocks and, unless it runs without one, a database. Blocks and
  transactions arrive from the gossip service and from JSON-RPC. A block is executed on a copy of its
  parent's snapshot and stored when the seals, the roots and the gas agree; fork choice may then move
  the head, which resets the live state and repairs the pool. A producing node assembles, seals,
  imports and broadcasts a block at each tick that finds something pending. The canonical chain is
  written to the database and loaded at startup. RPC reads the store, the live state and the pool,
  and submits transactions; the light client walks headers over RPC.

  \<^bold>\<open>How the source is translated.\<close> A struct is a record, an enum a datatype, a \<open>Result\<close> a sum with
  the error on the left, \<open>u64\<close> a 64-bit word with the wrapping, checked or saturating operation the
  source calls. A \<open>HashMap\<close> is an association list in an iteration order of its own, of which
  only the interface \<^theory_text>\<open>finite_map\<close> is used. Methods that take \<open>&mut self\<close>, or \<open>&self\<close> behind a lock,
  return the updated value, also on the error branches. Fixed-size arrays are byte lists, and their
  lengths are stated where they matter.

  \<^bold>\<open>Steps.\<close> Every operation is one atomic step, and concurrency is the order of the steps. For a
  method that holds its lock throughout this is what the code does. Elsewhere it is a sequential
  simplification: the pool is three concurrent maps without a common lock, so two admissions may
  overlap in the source; and \<open>import_and_apply\<close>, which the import and the producer task both call,
  takes the locks of store, state and pool one after the other. Interleavings inside
  such an operation are not covered by the theorems.

  \<^bold>\<open>Third-party code\<close> is a record of functions, extended layer by layer: \<open>hex\<close> and Keccak
  (\<^theory_text>\<open>prim_env\<close>), \<open>bincode\<close> and Ed25519 (\<^theory_text>\<open>core_env\<close>), trie nodes and accounts on the wire
  (\<^theory_text>\<open>state_env\<close>), the \<open>wasmi\<close> interpreter (\<^theory_text>\<open>vm_env\<close>), RocksDB and the snapshot codec
  (\<^theory_text>\<open>disk_env\<close>); \<^theory_text>\<open>net_env\<close> is libp2p and \<^theory_text>\<open>rpc_env\<close> the derived JSON decoders. What is relied on is
  named: \<^theory_text>\<open>hex_laws\<close>, \<^theory_text>\<open>keccak_laws\<close> (32 bytes; freedom from collisions is
  assumed only of the values at hand, or the colliding values are exhibited),
  \<^theory_text>\<open>bincode_laws\<close>, \<^theory_text>\<open>ed25519_laws\<close>, \<^theory_text>\<open>node_laws\<close>, \<^theory_text>\<open>rocks_laws\<close>, \<^theory_text>\<open>disk_codec_laws\<close>, \<^theory_text>\<open>message_laws\<close>,
  \<^theory_text>\<open>gossip_log\<close> (an accepted message joins the queue, a refused one does not), \<^theory_text>\<open>request_laws\<close>. The reference environments \<open>ref_...\<close> satisfy them by concrete functions, and the
  witnesses of the theorems run on them.

  \<^bold>\<open>Theories.\<close>

  \<^item> \<^theory_text>\<open>Prelude\<close>: integers, hash maps, strings, the locale \<^theory_text>\<open>finite_map\<close>, the first environment.
  \<^item> \<^theory_text>\<open>Uint\<close>: \<open>ivory-primitives/src/uint.rs\<close>, limb by limb. Each operation is exact arithmetic below
    \<open>2 ^ 256\<close> or reports overflow; hexadecimal text reads back. The locale \<^theory_text>\<open>checked_nat\<close> collects the
    laws of checked arithmetic for \<open>U256\<close> and \<open>u64\<close>.
  \<^item> \<^theory_text>\<open>Hash\<close>: \<open>hash.rs\<close>, \<open>address.rs\<close>, \<open>bytes.rs\<close>, \<open>signature.rs\<close>, \<open>keccak.rs\<close>.
  \<^item> \<^theory_text>\<open>Codec\<close>: encoders and decoders of the reference environments.
  \<^item> \<^theory_text>\<open>Core\<close>: \<open>ivory-core\<close> and \<open>ivory-crypto\<close>. A block hash commits to header, transactions and
    receipts; signing is recovered by \<open>recover_sender\<close>.
  \<^item> \<^theory_text>\<open>Trie\<close>: \<open>ivory-state/src/trie.rs\<close>. Building is independent of the order and injective up to
    collisions; \<open>prove\<close> returns and its proofs verify; a verified proof is right.
  \<^item> \<^theory_text>\<open>State\<close>: \<open>ivory-state/src/state.rs\<close>. The root commits to the non-empty accounts; proofs verify; the locale
    \<^theory_text>\<open>balance_ledger\<close> is what the executor uses of balances and nonces.
  \<^item> \<^theory_text>\<open>Vm\<close>: \<open>ivory-vm\<close>, the host functions. A module is the tree of its host calls, given by the
    interpreter; a run touches only the slots of its own contract.
  \<^item> \<^theory_text>\<open>Executor\<close>: \<open>ivory-executor\<close>. Execution refines an abstract transfer, gas is bounded and
    exact, what each error leaves behind, simulation predicts execution.
  \<^item> \<^theory_text>\<open>TxPool\<close>: \<open>ivory-txpool\<close>. The invariant of all reachable pools and the exact conditions of
    admission.
  \<^item> \<^theory_text>\<open>Consensus\<close>: \<open>ivory-consensus\<close>. An accepted header carries enough seals of different
    validators; the trait \<open>ConsensusEngine\<close> is the locale \<^theory_text>\<open>consensus_engine\<close>.
  \<^item> \<^theory_text>\<open>Store\<close>: \<open>ivory-chain/src/store.rs\<close>. Blocks are linked to genesis, the head is the best block,
    the indexes by number and by transaction are those of the canonical chain.
  \<^item> \<^theory_text>\<open>Chain\<close>: \<open>apply.rs\<close> and \<open>producer.rs\<close>. Import is all or nothing; snapshots carry the state
    roots of their blocks; the live state is the replay of the canonical chain.
  \<^item> \<^theory_text>\<open>Network\<close>: \<open>ivory-network\<close>. What a sequence of commands queues, with whatever refusals,
    and the events a peer sees of it.
  \<^item> \<^theory_text>\<open>Persist\<close>: \<open>ivory-storage\<close> and \<open>bin/ivory/src/persist.rs\<close>. Writing an archive and loading it
    restores the chain.
  \<^item> \<^theory_text>\<open>Config\<close>: \<open>bin/ivory/src/config.rs\<close>, roles and genesis.
  \<^item> \<^theory_text>\<open>Startup\<close>: the part of \<open>bin/ivory/src/node.rs\<close> that obtains the chain, from genesis or from
    disk. Loading an archive, with its snapshots or by executing every block, ends in the same store,
    one that imports could have built.
  \<^item> \<^theory_text>\<open>Node\<close>: \<open>bin/ivory/src/node.rs\<close>. The relation \<^theory_text>\<open>node_reach\<close> interleaves events, ticks,
    submissions and restarts; every reachable node is a reachable chain; import ends; a tick
    advances the chain. Restarts are those of an archiving node on a working database; the start of a
    pruning node on what it has stored is modelled, and nothing is shown of it.
  \<^item> \<^theory_text>\<open>Rpc\<close>: \<open>ivory-rpc\<close>, every method, the HTTP entry, the token check and subscriptions. What a
    request can change, what the read-only listener answers, exactness of log queries.
  \<^item> \<^theory_text>\<open>RpcTypes\<close>: the result type of each method.
  \<^item> \<^theory_text>\<open>Light\<close>: \<open>tools/ivory-light\<close>. The walk over a node returns its canonical headers; the last hash
    commits to the walk.

  \<^bold>\<open>Fuel and bounds.\<close> \<^theory_text>\<open>parent_walk\<close> is given the number of stored blocks: ranks decrease along parents,
  so every walk ends at genesis before that. The import of a block with its waiting descendants is
  given two levels more than there are orphans; \<^theory_text>\<open>import_block_ends\<close> shows that any larger fuel gives
  the same result. The proof walk of the trie is a partial function, shown to return. The other
  loops are total functions. Theorems about heights exclude a chain whose head is at height
  \<open>2 ^ 64 - 1\<close>, where the saturating successor stands still.

  \<^bold>\<open>Not modelled.\<close> Sockets, tasks, channels and timers: their effects are the order of steps in
  \<^theory_text>\<open>node_reach\<close> and the events handed to the node. Reading and writing of files, opening a RocksDB
  directory, command lines, environment variables, the HTTP router, CORS and the static page are
  operating-system or library code. Encoding to memory is taken to succeed, as \<open>bincode\<close> does for
  these types; decoding may fail. Metrics beyond the RPC counters (gauges and a floating-point
  histogram) influence nothing. Key generation is operating-system randomness. The contract
  files (\<open>contract.rs\<close>), the deployment client (\<open>deploy.rs\<close>) and the developer tools
  (\<open>ivory-keygen\<close>, \<open>ivory-dev\<close>, \<open>ivory-bench\<close>) read files, call compilers and poll over HTTP.
\<close>

end
